(* ===== verification/Prelude.thy ===== *)
theory Prelude
  imports Main "HOL-Library.Word"
begin

text \<open>
  Shared vocabulary of the development: the machine types of the code, the
  wrap-around subtraction of \<^verbatim>\<open>std::size_t\<close>, \<^verbatim>\<open>std::error_code\<close> with the
  \<^verbatim>\<open>bbt.net\<close> category (\<^verbatim>\<open>bbt/infra/net/Error.hpp\<close>), and the list lemmas on
  circular reads and two-part \<^verbatim>\<open>memcpy\<close> writes that the ring buffers share.
  The collection \<open>size_simps\<close> carries the facts about machine sizes and
  \<open>ring_simps\<close> those about circular indexing.
\<close>

named_theorems size_simps "facts about size_t arithmetic"
named_theorems ring_simps "facts about circular reads and writes"

section \<open>Machine types\<close>

type_synonym byte = "8 word"
type_synonym u32 = "32 word"
type_synonym u64 = "64 word"

text \<open>
  Sizes are natural numbers. Sums of sizes of live objects stay below the address
  space; an unguarded difference of two sizes wraps modulo \<open>2 ^ 64\<close>, which
  \<open>size_sub\<close> writes out.
\<close>

definition size_max :: nat where
  "size_max = 2 ^ 64 - 1"

definition size_sub :: "nat \<Rightarrow> nat \<Rightarrow> nat" where
  "size_sub a b = (if b \<le> a then a - b else (2 ^ 64 + a) - b)"

section \<open>Error codes\<close>

datatype err_category = SystemCategory | GenericCategory | NetCategory

record error_code =
  ec_category :: err_category
  ec_value :: int

datatype errc = operation_not_permitted | io_error | bad_file_descriptor | not_enough_memory
  | device_or_resource_busy | invalid_argument | result_out_of_range | protocol_error
  | address_family_not_supported | connection_aborted | connection_reset | no_buffer_space | timed_out
  | operation_not_supported | operation_canceled

fun errc_value :: "errc \<Rightarrow> int" where
  "errc_value operation_not_permitted = 1"
| "errc_value io_error = 5"
| "errc_value bad_file_descriptor = 9"
| "errc_value not_enough_memory = 12"
| "errc_value device_or_resource_busy = 16"
| "errc_value invalid_argument = 22"
| "errc_value result_out_of_range = 34"
| "errc_value protocol_error = 71"
| "errc_value operation_not_supported = 95"
| "errc_value address_family_not_supported = 97"
| "errc_value connection_aborted = 103"
| "errc_value connection_reset = 104"
| "errc_value no_buffer_space = 105"
| "errc_value timed_out = 110"
| "errc_value operation_canceled = 125"

text \<open>The default-constructed \<^verbatim>\<open>std::error_code\<close> is \<open>no_error\<close>; \<open>ec_fails\<close> is its
  conversion to \<^verbatim>\<open>bool\<close>.\<close>

definition no_error :: error_code where
  "no_error = \<lparr>ec_category = SystemCategory, ec_value = 0\<rparr>"

definition ec_fails :: "error_code \<Rightarrow> bool" where
  "ec_fails e = (ec_value e \<noteq> 0)"

definition make_errc :: "errc \<Rightarrow> error_code" where
  "make_errc e = \<lparr>ec_category = GenericCategory, ec_value = errc_value e\<rparr>"

datatype NetErrc = NetEof | NetWouldBlock | NetBusy | NetWriteSettling | NetRejected | NetClosed

fun NetErrc_value :: "NetErrc \<Rightarrow> int" where
  "NetErrc_value NetEof = 1"
| "NetErrc_value NetWouldBlock = 2"
| "NetErrc_value NetBusy = 3"
| "NetErrc_value NetWriteSettling = 4"
| "NetErrc_value NetRejected = 5"
| "NetErrc_value NetClosed = 6"

definition make_error_code :: "NetErrc \<Rightarrow> error_code" where
  "make_error_code e = \<lparr>ec_category = NetCategory, ec_value = NetErrc_value e\<rparr>"

section \<open>Circular reads and writes\<close>

text \<open>
  \<open>ring_read xs h n\<close> reads \<open>n\<close> elements of the circular array \<open>xs\<close> from index \<open>h\<close>;
  \<open>memcpy xs p ys\<close> overwrites a straight run; \<open>ring_put xs p ys\<close> is the write the ring
  buffers do: up to the end of the array first, the rest from index 0.
\<close>

definition ring_read :: "'a list \<Rightarrow> nat \<Rightarrow> nat \<Rightarrow> 'a list" where
  "ring_read xs h n = map (\<lambda>i. xs ! ((h + i) mod length xs)) [0..<n]"

definition memcpy :: "'a list \<Rightarrow> nat \<Rightarrow> 'a list \<Rightarrow> 'a list" where
  "memcpy xs p ys = take p xs @ ys @ drop (p + length ys) xs"

definition ring_put :: "'a list \<Rightarrow> nat \<Rightarrow> 'a list \<Rightarrow> 'a list" where
  "ring_put xs p ys =
     (let first = min (length ys) (length xs - p)
      in memcpy (memcpy xs p (take first ys)) 0 (drop first ys))"

section \<open>Lemmas\<close>

lemma size_sub_le [simp, size_simps]: "b \<le> a \<Longrightarrow> size_sub a b = a - b"
  by (simp add: size_sub_def)

lemma ec_fails_no_error [simp]: "\<not> ec_fails no_error"
  by (simp add: ec_fails_def no_error_def)

lemma ec_fails_make_errc [simp]: "ec_fails (make_errc e)"
  by (cases e) (simp_all add: ec_fails_def make_errc_def)

lemma make_errc_neq_no_error [simp]: "make_errc e \<noteq> no_error" "no_error \<noteq> make_errc e"
  by (auto simp: make_errc_def no_error_def)

lemma make_errc_inject [simp]: "make_errc a = make_errc b \<longleftrightarrow> a = b"
  by (cases a; cases b) (simp_all add: make_errc_def)

lemma ec_fails_make_error_code [simp]: "ec_fails (make_error_code e)"
  by (cases e) (simp_all add: ec_fails_def make_error_code_def)

lemma make_error_code_neq [simp]:
  "make_error_code e \<noteq> no_error" "no_error \<noteq> make_error_code e"
  "make_error_code e \<noteq> make_errc c" "make_errc c \<noteq> make_error_code e"
  by (auto simp: make_error_code_def no_error_def make_errc_def)

lemma make_error_code_inject [simp]: "make_error_code a = make_error_code b \<longleftrightarrow> a = b"
  by (cases a; cases b) (simp_all add: make_error_code_def)

lemma less_max_length [simp]: "xs \<noteq> [] \<Longrightarrow> i < max (Suc 0) (length xs) \<longleftrightarrow> i < length xs"
  by (cases xs) auto

lemma concat_take_prefix: "\<exists>rest. concat xss = concat (take n xss) @ rest"
  by (metis append_take_drop_id concat_append)

lemma filter_update_length:
  "j < length xs \<Longrightarrow> length (filter P (xs[j := y])) + (if P (xs ! j) then 1 else 0) = length (filter P xs) + (if P y then 1 else 0)"
proof (induction xs arbitrary: j)
  case (Cons x xs)
  then show ?case by (cases j) auto
qed simp

lemma length_ring_read [simp]: "length (ring_read xs h n) = n"
  by (simp add: ring_read_def)

lemma ring_read_0 [simp]: "ring_read xs h 0 = []"
  by (simp add: ring_read_def)

lemma ring_read_Nil_iff [simp]: "ring_read xs h n = [] \<longleftrightarrow> n = 0"
  by (simp add: ring_read_def)

lemma nth_ring_read: "i < n \<Longrightarrow> ring_read xs h n ! i = xs ! ((h + i) mod length xs)"
  by (simp add: ring_read_def)

lemma take_ring_read [ring_simps]: "k \<le> n \<Longrightarrow> take k (ring_read xs h n) = ring_read xs h k"
  by (simp add: ring_read_def take_map)

lemma drop_ring_read [ring_simps]:
  "k \<le> n \<Longrightarrow> drop k (ring_read xs h n) = ring_read xs ((h + k) mod length xs) (n - k)"
  by (rule nth_equalityI) (simp_all add: nth_ring_read mod_add_left_eq add.assoc)

text \<open>A circular read is the straight run up to the end of the array and the wrapped rest.\<close>

lemma ring_read_segments:
  assumes "h < length xs" "n \<le> length xs"
  shows "ring_read xs h n = take n (drop h xs) @ take (n - (length xs - h)) xs"
proof (rule nth_equalityI)
  show "length (ring_read xs h n) = length (take n (drop h xs) @ take (n - (length xs - h)) xs)"
    using assms by auto
next
  fix i assume "i < length (ring_read xs h n)"
  then have i: "i < n" by simp
  show "ring_read xs h n ! i = (take n (drop h xs) @ take (n - (length xs - h)) xs) ! i"
  proof (cases "h + i < length xs")
    case True
    then have "i < length xs - h" by simp
    then show ?thesis using True i by (simp add: nth_ring_read nth_append)
  next
    case False
    then have "(h + i) mod length xs = i - (length xs - h)"
      using i assms by (simp add: mod_if) linarith
    then show ?thesis using False i assms by (auto simp: nth_ring_read nth_append)
  qed
qed

lemma ring_read_straight:
  "h + n \<le> length xs \<Longrightarrow> h < length xs \<Longrightarrow> ring_read xs h n = take n (drop h xs)"
  by (simp add: ring_read_segments)

lemma length_memcpy [simp]:
  "p + length ys \<le> length xs \<Longrightarrow> length (memcpy xs p ys) = length xs"
  by (simp add: memcpy_def)

lemma nth_memcpy:
  "p + length ys \<le> length xs \<Longrightarrow> i < length xs \<Longrightarrow>
   memcpy xs p ys ! i = (if p \<le> i \<and> i < p + length ys then ys ! (i - p) else xs ! i)"
  by (auto simp: memcpy_def nth_append)

lemma length_ring_put [simp]:
  "p < length xs \<Longrightarrow> length ys \<le> length xs \<Longrightarrow> length (ring_put xs p ys) = length xs"
  by (auto simp: ring_put_def Let_def min_def)

text \<open>What a wrapped write leaves at each index: the cell \<open>d\<close> steps past \<open>p\<close> holds \<open>ys ! d\<close>.\<close>

lemma nth_ring_put:
  assumes p: "p < length xs" and ys: "length ys \<le> length xs" and i: "i < length xs"
  defines "d \<equiv> (i + length xs - p) mod length xs"
  shows "ring_put xs p ys ! i = (if d < length ys then ys ! d else xs ! i)"
proof (cases "length ys \<le> length xs - p")
  case True
  then have "ring_put xs p ys = memcpy xs p ys"
    by (simp add: ring_put_def Let_def memcpy_def)
  then have put: "ring_put xs p ys ! i =
      (if p \<le> i \<and> i < p + length ys then ys ! (i - p) else xs ! i)"
    using True p i by (simp add: nth_memcpy)
  show ?thesis
  proof (cases "p \<le> i")
    case le: True
    then have "d = i - p" using i by (simp add: d_def mod_if)
    with le put show ?thesis by (auto simp: less_diff_conv2)
  next
    case gt: False
    then have "d = i + length xs - p" using p i by (simp add: d_def)
    then have "length ys \<le> d" using gt p True by linarith
    with gt put show ?thesis by simp
  qed
next
  case False
  define k where "k = length xs - p"
  have k: "p + k = length xs" "k < length ys" using False p by (simp_all add: k_def)
  have put: "ring_put xs p ys = memcpy (memcpy xs p (take k ys)) 0 (drop k ys)"
    using False by (simp add: ring_put_def Let_def k_def)
  have d: "d = (if p \<le> i then i - p else i + k)"
  proof (cases "p \<le> i")
    case True
    then have "i + length xs - p = (i - p) + length xs" by simp
    then have "d = (i - p) mod length xs" by (simp only: d_def mod_add_self2)
    then show ?thesis using True i by simp
  next
    case False
    then have "d = (i + k) mod length xs" using k(1) by (simp add: d_def flip: k(1))
    moreover have "i + k < length xs" using False k(1) by linarith
    ultimately show ?thesis using False by simp
  qed
  have "memcpy xs p (take k ys) ! i = (if p \<le> i then ys ! (i - p) else xs ! i)"
    using k i p by (simp add: nth_memcpy)
  moreover have "ring_put xs p ys ! i =
      (if i < length ys - k then ys ! (k + i) else memcpy xs p (take k ys) ! i)"
    unfolding put using k i ys by (subst nth_memcpy) simp_all
  ultimately show ?thesis
    using d k i ys by (auto simp: add.commute)
qed

lemma circular_distance:
  assumes "n \<le> c" "0 < (c::nat)"
  shows "((h + j) mod c + c - (h + n) mod c) mod c = (j + (c - n)) mod c"
proof -
  have "((h + j) mod c + c - (h + n) mod c) + (h + n) = (h + j) mod c + c + ((h + n) - (h + n) mod c)"
    using assms by (simp add: less_imp_le_nat trans_le_add2)
  also have "\<dots> mod c = (h + j) mod c"
    by (simp add: minus_mod_eq_mult_div mod_add_left_eq)
  finally have a: "(((h + j) mod c + c - (h + n) mod c) + (h + n)) mod c = (h + j) mod c" .
  have b: "((j + (c - n)) + (h + n)) mod c = (h + j) mod c"
    using assms by (simp add: ac_simps)
  have cancel: "(u + w) mod c = (v + w) mod c \<Longrightarrow> u mod c = v mod c" for u v w :: nat
  proof -
    assume "(u + w) mod c = (v + w) mod c"
    then have "int (u + w) mod int c = int (v + w) mod int c"
      by (simp only: of_nat_mod [symmetric])
    then have "int c dvd int (u + w) - int (v + w)"
      by (simp only: mod_eq_dvd_iff)
    then have "int c dvd int u - int v" by simp
    then have "int u mod int c = int v mod int c" by (simp only: mod_eq_dvd_iff)
    then show ?thesis by (simp only: of_nat_mod [symmetric] of_nat_eq_iff)
  qed
  from a b show ?thesis by (metis cancel)
qed

text \<open>
  The write of a ring buffer: putting \<open>ys\<close> right after the \<open>n\<close> live elements
  appends them to what a circular read returns.
\<close>

lemma ring_read_ring_put:
  assumes h: "h < length xs" and room: "n + length ys \<le> length xs"
  shows "ring_read (ring_put xs ((h + n) mod length xs) ys) h (n + length ys) = ring_read xs h n @ ys"
proof (rule nth_equalityI)
  let ?c = "length xs" and ?p = "(h + n) mod length xs"
  have c: "0 < ?c" using h by linarith
  then have p: "?p < ?c" and ys: "length ys \<le> ?c" using room by simp_all
  have len: "length (ring_put xs ?p ys) = ?c" using p ys by simp
  show "length (ring_read (ring_put xs ?p ys) h (n + length ys)) = length (ring_read xs h n @ ys)"
    by simp
  fix j assume "j < length (ring_read (ring_put xs ?p ys) h (n + length ys))"
  then have j: "j < n + length ys" by simp
  have "((h + j) mod ?c + ?c - ?p) mod ?c = (j + (?c - n)) mod ?c"
    using room c by (intro circular_distance) auto
  also have "\<dots> = (if j < n then j + (?c - n) else j - n)"
    using j room c by (auto simp: mod_if)
  finally have d: "((h + j) mod ?c + ?c - ?p) mod ?c = (if j < n then j + (?c - n) else j - n)" .
  have "ring_put xs ?p ys ! ((h + j) mod ?c) =
      (if ((h + j) mod ?c + ?c - ?p) mod ?c < length ys
       then ys ! (((h + j) mod ?c + ?c - ?p) mod ?c) else xs ! ((h + j) mod ?c))"
    using p ys c by (intro nth_ring_put) auto
  with d room j show "ring_read (ring_put xs ?p ys) h (n + length ys) ! j = (ring_read xs h n @ ys) ! j"
    by (auto simp: nth_ring_read nth_append len)
qed

end
