(* ===== verification/Circular.thy ===== *)
theory Circular
  imports Prelude
begin

text \<open>
  \<^verbatim>\<open>boost::circular_buffer\<close> as a parameter of the model. The event ring and the queue of
  terminal writes store their elements in one; its code is Boost's, so every definition
  that uses it takes the operations as an argument, and the locale
  \<open>circular_buffer\<close> states the documented behaviour the code relies on. The
  instance \<open>vector_ring\<close> (an array, a head index and a count) shows that the
  laws can be met, and carries the concrete runs.
\<close>

record ('c, 'a) cb_ops =
  cb_new :: 'c
  cb_contents :: "'c \<Rightarrow> 'a list"
  cb_capacity :: "'c \<Rightarrow> nat"
  cb_set_capacity :: "'c \<Rightarrow> nat \<Rightarrow> 'c"
  cb_insert_end :: "'c \<Rightarrow> 'a list \<Rightarrow> 'c"
  cb_push_back :: "'c \<Rightarrow> 'a \<Rightarrow> 'c"
  cb_erase_begin :: "'c \<Rightarrow> nat \<Rightarrow> 'c"
  cb_clear :: "'c \<Rightarrow> 'c"
  cb_array_one :: "'c \<Rightarrow> 'a list"
  cb_array_two :: "'c \<Rightarrow> 'a list"

text \<open>
  The laws: a default-constructed (or moved-from) buffer is empty with capacity 0; growing
  keeps the contents; inserting a range that fits appends it; \<^verbatim>\<open>push_back\<close> on a
  full buffer overwrites the oldest element; the two arrays are the contents in order,
  and the first is empty only when the buffer is.
\<close>

locale circular_buffer =
  fixes ops :: "('c, 'a) cb_ops" and ok :: "'c \<Rightarrow> bool"
  assumes ok_new: "ok (cb_new ops)"
    and contents_new: "cb_contents ops (cb_new ops) = []"
    and capacity_new: "cb_capacity ops (cb_new ops) = 0"
    and size_le: "ok c \<Longrightarrow> length (cb_contents ops c) \<le> cb_capacity ops c"
    and ok_set_capacity: "ok c \<Longrightarrow> ok (cb_set_capacity ops c n)"
    and capacity_set_capacity: "ok c \<Longrightarrow> cb_capacity ops (cb_set_capacity ops c n) = n"
    and contents_set_capacity:
      "ok c \<Longrightarrow> length (cb_contents ops c) \<le> n \<Longrightarrow>
       cb_contents ops (cb_set_capacity ops c n) = cb_contents ops c"
    and ok_insert_end:
      "ok c \<Longrightarrow> length (cb_contents ops c) + length xs \<le> cb_capacity ops c \<Longrightarrow>
       ok (cb_insert_end ops c xs)"
    and contents_insert_end:
      "ok c \<Longrightarrow> length (cb_contents ops c) + length xs \<le> cb_capacity ops c \<Longrightarrow>
       cb_contents ops (cb_insert_end ops c xs) = cb_contents ops c @ xs"
    and capacity_insert_end:
      "ok c \<Longrightarrow> length (cb_contents ops c) + length xs \<le> cb_capacity ops c \<Longrightarrow>
       cb_capacity ops (cb_insert_end ops c xs) = cb_capacity ops c"
    and ok_push_back: "ok c \<Longrightarrow> ok (cb_push_back ops c x)"
    and capacity_push_back: "ok c \<Longrightarrow> cb_capacity ops (cb_push_back ops c x) = cb_capacity ops c"
    and contents_push_back:
      "ok c \<Longrightarrow> cb_contents ops (cb_push_back ops c x) =
         (if cb_capacity ops c = 0 then []
          else if length (cb_contents ops c) = cb_capacity ops c
            then tl (cb_contents ops c) @ [x]
          else cb_contents ops c @ [x])"
    and ok_erase_begin:
      "ok c \<Longrightarrow> n \<le> length (cb_contents ops c) \<Longrightarrow> ok (cb_erase_begin ops c n)"
    and contents_erase_begin:
      "ok c \<Longrightarrow> n \<le> length (cb_contents ops c) \<Longrightarrow>
       cb_contents ops (cb_erase_begin ops c n) = drop n (cb_contents ops c)"
    and capacity_erase_begin:
      "ok c \<Longrightarrow> n \<le> length (cb_contents ops c) \<Longrightarrow>
       cb_capacity ops (cb_erase_begin ops c n) = cb_capacity ops c"
    and ok_clear: "ok c \<Longrightarrow> ok (cb_clear ops c)"
    and contents_clear: "ok c \<Longrightarrow> cb_contents ops (cb_clear ops c) = []"
    and capacity_clear: "ok c \<Longrightarrow> cb_capacity ops (cb_clear ops c) = cb_capacity ops c"
    and arrays: "ok c \<Longrightarrow> cb_array_one ops c @ cb_array_two ops c = cb_contents ops c"
    and array_one_nonempty: "ok c \<Longrightarrow> cb_contents ops c \<noteq> [] \<Longrightarrow> cb_array_one ops c \<noteq> []"
begin

lemmas contents_laws = contents_new contents_set_capacity contents_insert_end
  contents_push_back contents_erase_begin contents_clear

lemmas capacity_laws = capacity_new capacity_set_capacity capacity_insert_end
  capacity_push_back capacity_erase_begin capacity_clear

lemmas ok_laws = ok_new ok_set_capacity ok_insert_end ok_push_back ok_erase_begin ok_clear

text \<open>With room left, a push keeps every element: the only way it loses one is a full buffer.\<close>

lemma push_back_room:
  "ok c \<Longrightarrow> length (cb_contents ops c) < cb_capacity ops c \<Longrightarrow>
   cb_contents ops (cb_push_back ops c x) = cb_contents ops c @ [x]"
  by (simp add: contents_push_back)

end

section \<open>An instance: array, head and count\<close>

record 'a vector_ring =
  vr_slots :: "'a option list"
  vr_head :: nat
  vr_count :: nat

definition vr_ok :: "'a vector_ring \<Rightarrow> bool" where
  "vr_ok r \<longleftrightarrow> vr_count r \<le> length (vr_slots r)
     \<and> vr_head r < max 1 (length (vr_slots r))
     \<and> None \<notin> set (ring_read (vr_slots r) (vr_head r) (vr_count r))"

definition vr_contents :: "'a vector_ring \<Rightarrow> 'a list" where
  "vr_contents r = map the (ring_read (vr_slots r) (vr_head r) (vr_count r))"

definition vr_new :: "'a vector_ring" where
  "vr_new = \<lparr>vr_slots = [], vr_head = 0, vr_count = 0\<rparr>"

definition vr_of :: "'a list \<Rightarrow> nat \<Rightarrow> 'a vector_ring" where
  "vr_of xs n = \<lparr>vr_slots = map Some xs @ replicate (n - length xs) None,
     vr_head = 0, vr_count = length xs\<rparr>"

definition vr_set_capacity :: "'a vector_ring \<Rightarrow> nat \<Rightarrow> 'a vector_ring" where
  "vr_set_capacity r n = vr_of (take n (vr_contents r)) n"

definition vr_insert_end :: "'a vector_ring \<Rightarrow> 'a list \<Rightarrow> 'a vector_ring" where
  "vr_insert_end r xs =
     (if xs = [] then r
      else r\<lparr>vr_slots := ring_put (vr_slots r) ((vr_head r + vr_count r) mod length (vr_slots r)) (map Some xs),
             vr_count := vr_count r + length xs\<rparr>)"

definition vr_erase_begin :: "'a vector_ring \<Rightarrow> nat \<Rightarrow> 'a vector_ring" where
  "vr_erase_begin r n =
     (if vr_slots r = [] then r
      else r\<lparr>vr_head := (vr_head r + n) mod length (vr_slots r), vr_count := vr_count r - n\<rparr>)"

definition vr_push_back :: "'a vector_ring \<Rightarrow> 'a \<Rightarrow> 'a vector_ring" where
  "vr_push_back r x =
     (if vr_slots r = [] then r
      else if vr_count r = length (vr_slots r) then vr_insert_end (vr_erase_begin r 1) [x]
      else vr_insert_end r [x])"

definition vector_ring_ops :: "('a vector_ring, 'a) cb_ops" where
  "vector_ring_ops = \<lparr>cb_new = vr_new, cb_contents = vr_contents,
     cb_capacity = (\<lambda>r. length (vr_slots r)),
     cb_set_capacity = vr_set_capacity, cb_insert_end = vr_insert_end,
     cb_push_back = vr_push_back, cb_erase_begin = vr_erase_begin,
     cb_clear = (\<lambda>r. vr_erase_begin r (vr_count r)),
     cb_array_one = (\<lambda>r. map the (take (vr_count r) (drop (vr_head r) (vr_slots r)))),
     cb_array_two = (\<lambda>r. map the (take (vr_count r - (length (vr_slots r) - vr_head r)) (vr_slots r)))\<rparr>"

lemma length_vr_contents [simp]: "length (vr_contents r) = vr_count r"
  by (simp add: vr_contents_def)

lemma length_vr_slots_of [simp]: "length xs \<le> n \<Longrightarrow> length (vr_slots (vr_of xs n)) = n"
  by (simp add: vr_of_def)

lemma vr_of_correct:
  assumes "length xs \<le> n"
  shows "vr_ok (vr_of xs n)" "vr_contents (vr_of xs n) = xs"
proof -
  have read: "ring_read (map Some xs @ replicate (n - length xs) None) 0 (length xs) = map Some xs"
  proof (cases "n = 0")
    case False
    then have "0 < length (map Some xs @ replicate (n - length xs) None)" using assms by auto
    then show ?thesis using assms ring_read_straight
      [of 0 "length xs" "map Some xs @ replicate (n - length xs) None"] by simp
  qed (use assms in auto)
  have "None \<notin> set (map Some xs)" by auto
  then show "vr_ok (vr_of xs n)" using assms by (simp add: vr_ok_def vr_of_def read)
  show "vr_contents (vr_of xs n) = xs" by (simp add: vr_contents_def vr_of_def read)
qed

lemma vr_insert_end_correct:
  assumes "vr_ok r" "vr_count r + length xs \<le> length (vr_slots r)"
  shows "vr_ok (vr_insert_end r xs) \<and> vr_contents (vr_insert_end r xs) = vr_contents r @ xs
    \<and> length (vr_slots (vr_insert_end r xs)) = length (vr_slots r)"
proof (cases "xs = []")
  case False
  let ?p = "(vr_head r + vr_count r) mod length (vr_slots r)"
  have ne: "0 < length (vr_slots r)" using assms(2) False by (cases xs) auto
  then have h: "vr_head r < length (vr_slots r)" using assms by (auto simp: vr_ok_def)
  from ne have p: "?p < length (vr_slots r)" by (intro mod_less_divisor)
  have "ring_read (ring_put (vr_slots r) ?p (map Some xs)) (vr_head r) (vr_count r + length xs)
      = ring_read (vr_slots r) (vr_head r) (vr_count r) @ map Some xs"
    using ring_read_ring_put [OF h, of "vr_count r" "map Some xs"] assms by simp
  moreover have "length (ring_put (vr_slots r) ?p (map Some xs)) = length (vr_slots r)"
    using assms p by simp
  ultimately show ?thesis using assms False
    by (simp add: vr_insert_end_def vr_ok_def vr_contents_def image_iff)
qed (use assms in \<open>simp add: vr_insert_end_def\<close>)

lemma vr_erase_begin_correct:
  assumes "vr_ok r" "n \<le> vr_count r"
  shows "vr_ok (vr_erase_begin r n) \<and> vr_contents (vr_erase_begin r n) = drop n (vr_contents r)
    \<and> length (vr_slots (vr_erase_begin r n)) = length (vr_slots r)"
proof (cases "vr_slots r = []")
  case False
  have "ring_read (vr_slots r) ((vr_head r + n) mod length (vr_slots r)) (vr_count r - n)
      = drop n (ring_read (vr_slots r) (vr_head r) (vr_count r))"
    using assms by (simp add: drop_ring_read)
  moreover have "(vr_head r + n) mod length (vr_slots r) < length (vr_slots r)"
    using False by simp
  ultimately show ?thesis using assms False
    by (auto simp: vr_erase_begin_def vr_ok_def vr_contents_def drop_map dest: in_set_dropD)
qed (use assms in \<open>auto simp: vr_erase_begin_def vr_ok_def vr_contents_def\<close>)

lemma vr_push_back_correct:
  assumes "vr_ok r"
  shows "vr_ok (vr_push_back r x)
    \<and> vr_contents (vr_push_back r x) =
        (if length (vr_slots r) = 0 then []
         else if vr_count r = length (vr_slots r) then tl (vr_contents r) @ [x]
         else vr_contents r @ [x])
    \<and> length (vr_slots (vr_push_back r x)) = length (vr_slots r)"
proof (cases "vr_slots r = []")
  case True
  then show ?thesis using assms by (auto simp: vr_push_back_def vr_ok_def vr_contents_def)
next
  case False
  show ?thesis
  proof (cases "vr_count r = length (vr_slots r)")
    case True
    let ?e = "vr_erase_begin r 1"
    have e: "vr_ok ?e" "vr_contents ?e = drop 1 (vr_contents r)"
      "length (vr_slots ?e) = length (vr_slots r)"
      using vr_erase_begin_correct [of r 1] assms False True
      by (simp_all add: Suc_le_eq)
    have "vr_count ?e = length (vr_slots r) - 1"
      using e(2) True by (metis length_vr_contents length_drop)
    then have "vr_count ?e + length [x] \<le> length (vr_slots ?e)" using e(3) False by simp
    from vr_insert_end_correct [OF e(1) this] show ?thesis
      using False True e by (simp add: vr_push_back_def drop_Suc)
  next
    case room: False
    have "vr_count r + length [x] \<le> length (vr_slots r)"
      using room assms by (simp add: vr_ok_def)
    from vr_insert_end_correct [OF assms this] show ?thesis
      using False room by (simp add: vr_push_back_def)
  qed
qed

lemma vr_arrays:
  assumes "vr_ok r"
  shows "take (vr_count r) (drop (vr_head r) (vr_slots r))
      @ take (vr_count r - (length (vr_slots r) - vr_head r)) (vr_slots r)
      = ring_read (vr_slots r) (vr_head r) (vr_count r)"
  using assms by (cases "vr_slots r = []") (auto simp: vr_ok_def ring_read_segments)

interpretation vector_ring: circular_buffer vector_ring_ops vr_ok
proof (unfold_locales, goal_cases)
  case 1 show ?case by (simp add: vector_ring_ops_def vr_new_def vr_ok_def)
next
  case (20 c)
  then show ?case by (simp add: vector_ring_ops_def vr_contents_def vr_arrays flip: map_append)
next
  case (21 c)
  then have "vr_count c \<noteq> 0" "vr_count c \<le> length (vr_slots c)"
    by (auto simp: vector_ring_ops_def vr_contents_def vr_ok_def)
  moreover from this have "vr_slots c \<noteq> []" by auto
  ultimately show ?case using 21 by (simp add: vector_ring_ops_def vr_ok_def)
qed (simp_all add: vector_ring_ops_def vr_new_def vr_contents_def [of "\<lparr>vr_slots = [], vr_head = 0, vr_count = 0\<rparr>"]
      vr_set_capacity_def vr_of_correct vr_insert_end_correct vr_erase_begin_correct
      vr_push_back_correct, simp_all add: vr_ok_def)

end
