(* ===== verification/Fifo.thy ===== *)
theory Fifo
  imports Prelude
begin

text \<open>
  The contract of a bounded byte queue, which the receive side
  (\<^verbatim>\<open>EventRingBuffer\<close>) and the send side (\<^verbatim>\<open>OutboundQueue\<close>) both promise: an append
  is all or nothing, a consume removes a prefix or nothing, and the bytes held never
  exceed the limit. \<open>fifo_run\<close> drives a queue through a sequence of operations and
  collects what was accepted and what was taken out; the locale shows once that the
  two streams agree.
\<close>

datatype 'a fifo_op = Put "'a list" | Get nat

fun fifo_run ::
  "('q \<Rightarrow> 'a list \<Rightarrow> error_code \<times> 'q) \<Rightarrow> ('q \<Rightarrow> nat \<Rightarrow> error_code \<times> 'q) \<Rightarrow> ('q \<Rightarrow> 'a list)
   \<Rightarrow> 'q \<Rightarrow> 'a fifo_op list \<Rightarrow> 'a list \<times> 'a list \<times> 'q" where
  "fifo_run put get held q [] = ([], [], q)"
| "fifo_run put get held q (Put xs # steps) =
     (let (e, q') = put q xs; (accepted, taken, q'') = fifo_run put get held q' steps
      in (if ec_fails e then accepted else xs @ accepted, taken, q''))"
| "fifo_run put get held q (Get n # steps) =
     (let (e, q') = get q n; (accepted, taken, q'') = fifo_run put get held q' steps
      in (accepted, if ec_fails e then taken else take n (held q) @ taken, q''))"

locale bounded_fifo =
  fixes put :: "'q \<Rightarrow> 'a list \<Rightarrow> error_code \<times> 'q"
    and get :: "'q \<Rightarrow> nat \<Rightarrow> error_code \<times> 'q"
    and held :: "'q \<Rightarrow> 'a list"
    and limit :: "'q \<Rightarrow> nat"
    and inv :: "'q \<Rightarrow> bool"
  assumes put_inv: "inv q \<Longrightarrow> put q xs = (e, q') \<Longrightarrow> inv q' \<and> limit q' = limit q"
    and put_held:
      "inv q \<Longrightarrow> put q xs = (e, q') \<Longrightarrow>
       held q' = (if ec_fails e then held q else held q @ xs)"
    and get_inv: "inv q \<Longrightarrow> get q n = (e, q') \<Longrightarrow> inv q' \<and> limit q' = limit q"
    and get_held:
      "inv q \<Longrightarrow> get q n = (e, q') \<Longrightarrow>
       held q' = (if ec_fails e then held q else drop n (held q))"
    and get_fails: "inv q \<Longrightarrow> get q n = (e, q') \<Longrightarrow> ec_fails e \<longleftrightarrow> length (held q) < n"
    and held_bound: "inv q \<Longrightarrow> length (held q) \<le> limit q"
begin

lemma run_inv:
  "inv q \<Longrightarrow> fifo_run put get held q steps = (accepted, taken, q') \<Longrightarrow>
   inv q' \<and> limit q' = limit q"
proof (induction steps arbitrary: q accepted taken q')
  case (Cons s steps)
  then show ?case
    by (cases s) (auto simp: Let_def split: prod.splits dest: put_inv get_inv)
qed simp

text \<open>Nothing is lost, duplicated or reordered between acceptance and consumption.\<close>

lemma run_stream:
  "inv q \<Longrightarrow> fifo_run put get held q steps = (accepted, taken, q') \<Longrightarrow>
   held q @ accepted = taken @ held q'"
proof (induction steps arbitrary: q accepted taken q')
  case (Cons s steps)
  show ?case
  proof (cases s)
    case (Put xs)
    obtain e q1 where put: "put q xs = (e, q1)" by fastforce
    obtain a t q2 where rest: "fifo_run put get held q1 steps = (a, t, q2)" by (cases "fifo_run put get held q1 steps")
    from Cons.IH [OF _ rest] put_inv [OF Cons.prems(1) put]
    have "held q1 @ a = t @ held q2" by blast
    with put_held [OF Cons.prems(1) put] Cons.prems(2) Put put rest show ?thesis
      by (auto split: if_splits)
  next
    case (Get n)
    obtain e q1 where get: "get q n = (e, q1)" by fastforce
    obtain a t q2 where rest: "fifo_run put get held q1 steps = (a, t, q2)" by (cases "fifo_run put get held q1 steps")
    from Cons.IH [OF _ rest] get_inv [OF Cons.prems(1) get]
    have "held q1 @ a = t @ held q2" by blast
    with get_held [OF Cons.prems(1) get] Cons.prems(2) Get get rest show ?thesis
      by (auto split: if_splits) (metis append_assoc append_take_drop_id)
  qed
qed simp

lemma run_bounded:
  "inv q \<Longrightarrow> fifo_run put get held q steps = (accepted, taken, q') \<Longrightarrow>
   length (held q') \<le> limit q"
  using run_inv held_bound by metis

end

end
