(* ===== verification/EventRing.thy ===== *)
theory EventRing
  imports Circular Fifo "HOL-Library.While_Combinator"
begin

text \<open>
  \<^verbatim>\<open>bbt/infra/net/detail/EventRingBuffer.hpp\<close>: the bounded elastic ring of received
  bytes and its independent snapshots. The storage is a \<^verbatim>\<open>boost::circular_buffer\<close>
  (the parameter \<open>ops\<close>). Operations that may grow the storage return \<open>None\<close> when
  the allocation throws; \<open>mem\<close> says whether it succeeds. Arguments are passed by
  value, so the copy the code makes of an input that aliases the storage is the
  identity here.
\<close>

section \<open>Snapshots\<close>

record EventSnapshot =
  snap_data :: "byte list"
  snap_cursor :: nat

definition snap_Remaining :: "EventSnapshot \<Rightarrow> nat" where
  "snap_Remaining s = size_sub (length (snap_data s)) (snap_cursor s)"

definition snap_Peek :: "EventSnapshot \<Rightarrow> byte list" where
  "snap_Peek s = take (snap_Remaining s) (drop (snap_cursor s) (snap_data s))"

definition snap_Discard :: "EventSnapshot \<Rightarrow> nat \<Rightarrow> error_code \<times> EventSnapshot" where
  "snap_Discard s n =
     (if n > snap_Remaining s then (make_errc result_out_of_range, s)
      else (no_error, s\<lparr>snap_cursor := snap_cursor s + n\<rparr>))"

definition snap_Consume ::
  "EventSnapshot \<Rightarrow> nat \<Rightarrow> byte list \<Rightarrow> error_code \<times> EventSnapshot \<times> byte list" where
  "snap_Consume s n out =
     (if n > snap_Remaining s then (make_errc result_out_of_range, s, out)
      else (no_error, s\<lparr>snap_cursor := snap_cursor s + n\<rparr>,
            out @ take n (drop (snap_cursor s) (snap_data s))))"

section \<open>The ring\<close>

record 'c EventRingBuffer =
  storage :: 'c
  max_bytes :: nat

definition kInitialCapacity :: nat where
  "kInitialCapacity = 1024"

definition erb_init :: "('c, byte) cb_ops \<Rightarrow> nat \<Rightarrow> 'c EventRingBuffer" where
  "erb_init ops n = \<lparr>storage = cb_new ops, max_bytes = n\<rparr>"

definition erb_bytes :: "('c, byte) cb_ops \<Rightarrow> 'c EventRingBuffer \<Rightarrow> byte list" where
  "erb_bytes ops b = cb_contents ops (storage b)"

definition erb_Size :: "('c, byte) cb_ops \<Rightarrow> 'c EventRingBuffer \<Rightarrow> nat" where
  "erb_Size ops b = length (cb_contents ops (storage b))"

definition erb_Capacity :: "('c, byte) cb_ops \<Rightarrow> 'c EventRingBuffer \<Rightarrow> nat" where
  "erb_Capacity ops b = cb_capacity ops (storage b)"

text \<open>The doubling loop of \<^verbatim>\<open>GrowTarget\<close>: \<open>grow_guard\<close> is the condition under which it doubles,
  and leaving it while \<open>t < need\<close> is the early return of \<^verbatim>\<open>max_bytes_\<close>.\<close>

definition grow_start :: "('c, byte) cb_ops \<Rightarrow> 'c EventRingBuffer \<Rightarrow> nat" where
  "grow_start ops b =
     (if erb_Capacity ops b = 0
      then (if max_bytes b < kInitialCapacity then max_bytes b else kInitialCapacity)
      else erb_Capacity ops b)"

definition grow_guard :: "nat \<Rightarrow> nat \<Rightarrow> nat \<Rightarrow> bool" where
  "grow_guard mx need t \<longleftrightarrow> t < need \<and> \<not> t > mx div 2"

definition GrowTarget :: "('c, byte) cb_ops \<Rightarrow> 'c EventRingBuffer \<Rightarrow> nat \<Rightarrow> nat" where
  "GrowTarget ops b need =
     (let t = while (grow_guard (max_bytes b) need) (\<lambda>t. t * 2) (grow_start ops b)
      in if t < need then max_bytes b else t)"

definition erb_grown ::
  "('c, byte) cb_ops \<Rightarrow> 'c EventRingBuffer \<Rightarrow> nat \<Rightarrow> 'c EventRingBuffer" where
  "erb_grown ops b need = b\<lparr>storage := cb_set_capacity ops (storage b) (GrowTarget ops b need)\<rparr>"

definition erb_Append ::
  "('c, byte) cb_ops \<Rightarrow> bool \<Rightarrow> 'c EventRingBuffer \<Rightarrow> byte list
   \<Rightarrow> (error_code \<times> 'c EventRingBuffer) option" where
  "erb_Append ops mem b data =
     (if data = [] then Some (no_error, b)
      else if length data > size_sub (max_bytes b) (erb_Size ops b)
        then Some (make_errc no_buffer_space, b)
      else
        let need = erb_Size ops b + length data in
        if need > erb_Capacity ops b \<and> \<not> mem then None
        else
          let b' = (if need > erb_Capacity ops b then erb_grown ops b need else b)
          in Some (no_error, b'\<lparr>storage := cb_insert_end ops (storage b') data\<rparr>))"

definition erb_Reserve ::
  "('c, byte) cb_ops \<Rightarrow> bool \<Rightarrow> 'c EventRingBuffer \<Rightarrow> nat
   \<Rightarrow> (error_code \<times> 'c EventRingBuffer) option" where
  "erb_Reserve ops mem b total_capacity =
     (if total_capacity \<le> erb_Capacity ops b then Some (no_error, b)
      else if total_capacity > max_bytes b then Some (make_errc no_buffer_space, b)
      else if \<not> mem then None
      else Some (no_error, erb_grown ops b total_capacity))"

definition erb_Peek :: "('c, byte) cb_ops \<Rightarrow> 'c EventRingBuffer \<Rightarrow> byte list" where
  "erb_Peek ops b = (if erb_Size ops b = 0 then [] else cb_array_one ops (storage b))"

definition erb_Discard ::
  "('c, byte) cb_ops \<Rightarrow> 'c EventRingBuffer \<Rightarrow> nat \<Rightarrow> error_code \<times> 'c EventRingBuffer" where
  "erb_Discard ops b n =
     (if n > erb_Size ops b then (make_errc result_out_of_range, b)
      else (no_error, b\<lparr>storage := cb_erase_begin ops (storage b) n\<rparr>))"

definition erb_Consume ::
  "('c, byte) cb_ops \<Rightarrow> 'c EventRingBuffer \<Rightarrow> nat \<Rightarrow> byte list
   \<Rightarrow> error_code \<times> 'c EventRingBuffer \<times> byte list" where
  "erb_Consume ops b n out =
     (if n > erb_Size ops b then (make_errc result_out_of_range, b, out)
      else if n = 0 then (no_error, b, out)
      else
        let one = cb_array_one ops (storage b);
            first = (if n < length one then n else length one);
            out1 = out @ take first one;
            out2 = (if n > first then out1 @ take (n - first) (cb_array_two ops (storage b)) else out1)
        in (no_error, b\<lparr>storage := cb_erase_begin ops (storage b) n\<rparr>, out2))"

definition erb_TakeSnapshot :: "('c, byte) cb_ops \<Rightarrow> 'c EventRingBuffer \<Rightarrow> EventSnapshot" where
  "erb_TakeSnapshot ops b =
     (let one = cb_array_one ops (storage b); two = cb_array_two ops (storage b)
      in \<lparr>snap_data = (if length one \<noteq> 0 then one else []) @ (if length two \<noteq> 0 then two else []),
          snap_cursor = 0\<rparr>)"

text \<open>The storage moves out; the ring keeps a moved-from (empty, capacity 0) buffer.\<close>

definition erb_TakeStorage ::
  "('c, byte) cb_ops \<Rightarrow> bool \<Rightarrow> 'c EventRingBuffer \<Rightarrow> ('c \<times> 'c EventRingBuffer) option" where
  "erb_TakeStorage ops mem b =
     (if mem then Some (storage b, b\<lparr>storage := cb_new ops\<rparr>) else None)"

definition erb_Clear :: "('c, byte) cb_ops \<Rightarrow> 'c EventRingBuffer \<Rightarrow> 'c EventRingBuffer" where
  "erb_Clear ops b = b\<lparr>storage := cb_clear ops (storage b)\<rparr>"

text \<open>The append as its callers see it, with the exception folded into an error code
  (the \<^verbatim>\<open>catch\<close> of \<^verbatim>\<open>ReceiveRing::TryAppend\<close>).\<close>

definition erb_append_caught ::
  "('c, byte) cb_ops \<Rightarrow> bool \<Rightarrow> 'c EventRingBuffer \<Rightarrow> byte list
   \<Rightarrow> error_code \<times> 'c EventRingBuffer" where
  "erb_append_caught ops mem b data =
     (case erb_Append ops mem b data of
        None \<Rightarrow> (make_errc not_enough_memory, b) | Some r \<Rightarrow> r)"

definition erb_inv :: "('c, byte) cb_ops \<Rightarrow> ('c \<Rightarrow> bool) \<Rightarrow> 'c EventRingBuffer \<Rightarrow> bool" where
  "erb_inv ops ok b \<longleftrightarrow> ok (storage b) \<and> erb_Capacity ops b \<le> max_bytes b"

section \<open>The growth loop\<close>

text \<open>From a positive start the loop stops: each round doubles a value that stays at most
  half the limit.\<close>

lemma grow_loop_stops: "0 < t \<Longrightarrow> \<exists>r. while_option (grow_guard mx need) (\<lambda>t. t * 2) t = Some r"
  by (rule measure_while_option_Some [where P = "\<lambda>t. 0 < t" and f = "\<lambda>t. mx - t"])
     (auto simp: grow_guard_def)

lemma grow_while:
  assumes "0 < t" "t \<le> mx"
  shows "\<not> grow_guard mx need (while (grow_guard mx need) (\<lambda>t. t * 2) t)
    \<and> 0 < while (grow_guard mx need) (\<lambda>t. t * 2) t
    \<and> while (grow_guard mx need) (\<lambda>t. t * 2) t \<le> mx"
  by (rule while_rule [where P = "\<lambda>t. 0 < t \<and> t \<le> mx" and r = "measure (\<lambda>t. mx - t)"])
     (use assms in \<open>auto simp: grow_guard_def\<close>)

text \<open>The storage of the ring: a circular buffer of bytes.\<close>

locale byte_ring = circular_buffer ops ok
  for ops :: "('c, byte) cb_ops" and ok :: "'c \<Rightarrow> bool"
begin

lemma grow_start_bounds:
  "erb_inv ops ok b \<Longrightarrow> 0 < max_bytes b \<Longrightarrow> 0 < grow_start ops b \<and> grow_start ops b \<le> max_bytes b"
  by (auto simp: grow_start_def erb_inv_def kInitialCapacity_def)

lemma GrowTarget_bounds:
  assumes "erb_inv ops ok b" "need \<le> max_bytes b" "erb_Capacity ops b < need"
  shows "need \<le> GrowTarget ops b need \<and> GrowTarget ops b need \<le> max_bytes b"
proof -
  have "0 < max_bytes b" using assms by simp
  from grow_while [of "grow_start ops b" "max_bytes b" need] grow_start_bounds [OF assms(1) this]
  show ?thesis using assms(2) by (auto simp: GrowTarget_def Let_def)
qed

lemma erb_grown_correct:
  assumes "erb_inv ops ok b" "need \<le> max_bytes b" "erb_Capacity ops b < need"
  shows "erb_inv ops ok (erb_grown ops b need) \<and> erb_bytes ops (erb_grown ops b need) = erb_bytes ops b
    \<and> need \<le> erb_Capacity ops (erb_grown ops b need)
    \<and> max_bytes (erb_grown ops b need) = max_bytes b"
proof -
  have "length (cb_contents ops (storage b)) \<le> GrowTarget ops b need"
    using GrowTarget_bounds [OF assms] size_le [of "storage b"] assms(1,3)
    by (auto simp: erb_inv_def erb_Capacity_def)
  then show ?thesis using assms GrowTarget_bounds [OF assms]
    by (simp add: erb_grown_def erb_inv_def erb_bytes_def erb_Capacity_def contents_set_capacity
        capacity_set_capacity ok_set_capacity)
qed

section \<open>Operations keep the invariant and act on the byte sequence\<close>

lemma erb_init_correct:
  "erb_inv ops ok (erb_init ops n)" "erb_bytes ops (erb_init ops n) = []"
  "max_bytes (erb_init ops n) = n"
  by (simp_all add: erb_inv_def erb_init_def erb_bytes_def erb_Capacity_def ok_new capacity_new
      contents_new)

lemma erb_size_bound: "erb_inv ops ok b \<Longrightarrow> erb_Size ops b \<le> max_bytes b"
  using size_le [of "storage b"] by (auto simp: erb_inv_def erb_Size_def erb_Capacity_def)

lemma erb_insert_correct:
  assumes "erb_inv ops ok b" "erb_Size ops b + length data \<le> erb_Capacity ops b"
  defines "b' \<equiv> b\<lparr>storage := cb_insert_end ops (storage b) data\<rparr>"
  shows "erb_inv ops ok b' \<and> erb_bytes ops b' = erb_bytes ops b @ data \<and> max_bytes b' = max_bytes b"
  using assms by (simp add: erb_inv_def erb_bytes_def erb_Size_def erb_Capacity_def
      ok_insert_end contents_insert_end capacity_insert_end)

lemma erb_Size_bytes: "erb_Size ops b = length (erb_bytes ops b)"
  by (simp add: erb_Size_def erb_bytes_def)

lemma erb_Append_cases:
  assumes inv: "erb_inv ops ok b"
  shows "erb_Append ops mem b data =
     (if data = [] then Some (no_error, b)
      else if max_bytes b < erb_Size ops b + length data then Some (make_errc no_buffer_space, b)
      else if erb_Capacity ops b < erb_Size ops b + length data \<and> \<not> mem then None
      else Some (no_error, snd (the (erb_Append ops mem b data))))"
  using erb_size_bound [OF inv]
  by (auto simp: erb_Append_def Let_def less_diff_conv)

lemma erb_Append_correct:
  assumes inv: "erb_inv ops ok b" and app: "erb_Append ops mem b data = Some (e, b')"
  shows "erb_inv ops ok b' \<and> max_bytes b' = max_bytes b
    \<and> (if ec_fails e then b' = b \<and> e = make_errc no_buffer_space \<and> max_bytes b < erb_Size ops b + length data
       else e = no_error \<and> erb_bytes ops b' = erb_bytes ops b @ data
         \<and> (data = [] \<or> erb_Size ops b + length data \<le> max_bytes b))"
proof (cases "data = [] \<or> max_bytes b < erb_Size ops b + length data")
  case True
  then show ?thesis using app inv erb_size_bound [OF inv]
    by (auto simp: erb_Append_def less_diff_conv erb_bytes_def split: if_splits)
next
  case False
  let ?need = "erb_Size ops b + length data"
  let ?g = "if ?need > erb_Capacity ops b then erb_grown ops b ?need else b"
  have g: "erb_inv ops ok ?g \<and> erb_bytes ops ?g = erb_bytes ops b \<and> ?need \<le> erb_Capacity ops ?g
      \<and> max_bytes ?g = max_bytes b"
    using erb_grown_correct [OF inv, of ?need] False inv by auto
  then have room: "erb_Size ops ?g + length data \<le> erb_Capacity ops ?g"
    by (simp add: erb_Size_bytes)
  have "e = no_error" "b' = ?g\<lparr>storage := cb_insert_end ops (storage ?g) data\<rparr>"
    using app False erb_size_bound [OF inv]
    by (auto simp: erb_Append_def Let_def less_diff_conv split: if_splits)
  with erb_insert_correct [of ?g data] g room False show ?thesis by auto
qed

lemma erb_append_caught_correct:
  assumes "erb_inv ops ok b" "erb_append_caught ops mem b data = (e, b')"
  shows "erb_inv ops ok b'" "max_bytes b' = max_bytes b"
    "erb_bytes ops b' = (if ec_fails e then erb_bytes ops b else erb_bytes ops b @ data)"
  using assms erb_Append_correct [OF assms(1), of mem data]
  by (auto simp: erb_append_caught_def split: option.splits if_splits)

lemma erb_Discard_correct:
  assumes "erb_inv ops ok b" "erb_Discard ops b n = (e, b')"
  shows "erb_inv ops ok b'" "max_bytes b' = max_bytes b" "ec_fails e \<longleftrightarrow> erb_Size ops b < n"
    "erb_bytes ops b' = (if ec_fails e then erb_bytes ops b else drop n (erb_bytes ops b))"
  using assms
  by (auto simp: erb_Discard_def erb_inv_def erb_bytes_def erb_Size_def erb_Capacity_def
      contents_erase_begin capacity_erase_begin ok_erase_begin split: if_splits)

lemma erb_Consume_correct:
  assumes inv: "erb_inv ops ok b"
  shows "erb_Consume ops b n out =
     (case erb_Discard ops b n of (e, b') \<Rightarrow>
        (e, if n = 0 then b else b', if ec_fails e then out else out @ take n (erb_bytes ops b)))"
proof -
  have "cb_array_one ops (storage b) @ cb_array_two ops (storage b) = erb_bytes ops b"
    using inv arrays by (simp add: erb_inv_def erb_bytes_def)
  from this [symmetric] show ?thesis
    by (auto simp: erb_Consume_def erb_Discard_def Let_def)
qed

lemma erb_TakeSnapshot_correct:
  "erb_inv ops ok b \<Longrightarrow> erb_TakeSnapshot ops b = \<lparr>snap_data = erb_bytes ops b, snap_cursor = 0\<rparr>"
  using arrays [of "storage b"]
  by (auto simp: erb_TakeSnapshot_def Let_def erb_inv_def erb_bytes_def)

lemma erb_TakeStorage_correct:
  assumes "erb_inv ops ok b" "erb_TakeStorage ops mem b = Some (c, b')"
  shows "cb_contents ops c = erb_bytes ops b" "erb_bytes ops b' = []" "erb_inv ops ok b'"
    "max_bytes b' = max_bytes b" "erb_Capacity ops b' = 0" "ok c"
  using assms by (auto simp: erb_TakeStorage_def erb_inv_def erb_bytes_def erb_Capacity_def
      contents_new capacity_new ok_new split: if_splits)

lemma erb_Reserve_correct:
  assumes "erb_inv ops ok b" "erb_Reserve ops mem b total_capacity = Some (e, b')"
  shows "erb_inv ops ok b'" "erb_bytes ops b' = erb_bytes ops b" "max_bytes b' = max_bytes b"
    "ec_fails e \<longleftrightarrow> max_bytes b < total_capacity" "\<not> ec_fails e \<Longrightarrow> total_capacity \<le> erb_Capacity ops b'"
  using assms erb_grown_correct [OF assms(1), of total_capacity]
  by (auto simp: erb_Reserve_def erb_inv_def split: if_splits)

lemma erb_Peek_correct:
  assumes "erb_inv ops ok b"
  shows "\<exists>rest. erb_bytes ops b = erb_Peek ops b @ rest"
    "erb_Peek ops b = [] \<longleftrightarrow> erb_bytes ops b = []"
  using assms arrays [of "storage b"] array_one_nonempty [of "storage b"]
  by (auto simp: erb_Peek_def erb_inv_def erb_bytes_def erb_Size_def) metis+

text \<open>Reserved capacity is capacity an append of that size uses without allocating.\<close>

lemma erb_Append_reserved:
  "erb_inv ops ok b \<Longrightarrow> erb_Size ops b + length data \<le> erb_Capacity ops b \<Longrightarrow>
   \<exists>b'. erb_Append ops mem b data = Some (no_error, b')"
  using erb_size_bound [of b] by (auto simp: erb_Append_def Let_def erb_inv_def)

end

sublocale byte_ring \<subseteq> event_ring: bounded_fifo "erb_append_caught ops mem"
  "erb_Discard ops" "erb_bytes ops" max_bytes "erb_inv ops ok" for mem
  by unfold_locales
     (auto dest: erb_append_caught_correct erb_Discard_correct simp: erb_size_bound simp flip: erb_Size_bytes)

context byte_ring
begin

lemma fifo_from_init:
  assumes "fifo_run (erb_append_caught ops mem) (erb_Discard ops) (erb_bytes ops) (erb_init ops n) steps
         = (accepted, taken, b)"
  shows "accepted = taken @ erb_bytes ops b \<and> erb_Size ops b \<le> n"
  using event_ring.run_stream [OF erb_init_correct(1) assms]
    event_ring.run_bounded [OF erb_init_correct(1) assms]
  by (simp add: erb_init_correct erb_Size_bytes)

end

interpretation vector_bytes: byte_ring vector_ring_ops vr_ok
  by unfold_locales

section \<open>Properties\<close>



text \<open>An append to the event ring is all or nothing. It throws only when the data fits the
  limit, the storage must grow and memory is short, leaving the ring as it was; it is
  refused with \<^verbatim>\<open>no_buffer_space\<close> and no change exactly when the data would pass the limit;
  otherwise it appends every byte.\<close>

theorem event_ring_append_all_or_nothing:
  assumes "byte_ring ops ok" and "erb_inv ops ok b" and "data \<noteq> []"
  shows "case erb_Append ops mem b data of
      None \<Rightarrow> \<not> mem \<and> erb_Capacity ops b < erb_Size ops b + length data
        \<and> erb_Size ops b + length data \<le> max_bytes b
    | Some (e, b') \<Rightarrow>
        (if max_bytes b < erb_Size ops b + length data
         then e = make_errc no_buffer_space \<and> b' = b
         else e = no_error \<and> erb_bytes ops b' = erb_bytes ops b @ data \<and> erb_inv ops ok b')"
  using byte_ring.erb_Append_cases [OF assms(1,2), of mem data] assms(3)
    byte_ring.erb_Append_correct [OF assms(1,2), of mem data]
  by (auto split: option.splits if_splits)

theorem event_ring_append_all_or_nothing_witness:
  "erb_Append vector_ring_ops True (erb_init vector_ring_ops 2) [1, 2, 3]
     = Some (make_errc no_buffer_space, erb_init vector_ring_ops 2)"
  using event_ring_append_all_or_nothing
    [OF vector_bytes.byte_ring_axioms vector_bytes.erb_init_correct(1), of "[1, 2, 3]" True 2]
  by (auto simp: erb_init_def erb_Size_def vector_ring.contents_new split: option.splits)

text \<open>The capacity loop of the event ring returns, for every request within the limit, and its
  result covers the request without passing the limit.\<close>

theorem GrowTarget_terminates_in_range:
  assumes "byte_ring ops ok" and "erb_inv ops ok b"
    and "erb_Capacity ops b < need" and "need \<le> max_bytes b"
  shows "(\<exists>t. while_option (grow_guard (max_bytes b) need) (\<lambda>t. t * 2) (grow_start ops b) = Some t)
    \<and> need \<le> GrowTarget ops b need \<and> GrowTarget ops b need \<le> max_bytes b"
proof -
  have "0 < max_bytes b" using assms by simp
  with byte_ring.grow_start_bounds [OF assms(1,2)] have "0 < grow_start ops b" by simp
  from grow_loop_stops [OF this] byte_ring.GrowTarget_bounds [OF assms(1,2,4,3)]
  show ?thesis by blast
qed

theorem GrowTarget_terminates_in_range_witness:
  "1500 \<le> GrowTarget vector_ring_ops (erb_init vector_ring_ops 5000) 1500
   \<and> GrowTarget vector_ring_ops (erb_init vector_ring_ops 5000) 1500 \<le> 5000"
  using GrowTarget_terminates_in_range
    [OF vector_bytes.byte_ring_axioms vector_bytes.erb_init_correct(1), of 5000 1500]
  by (simp add: erb_init_def erb_Capacity_def vector_ring.capacity_new)

end
