(* ===== verification/ReceiveRing.thy ===== *)
theory ReceiveRing
  imports EventRing
begin

text \<open>
  \<^verbatim>\<open>bbt/infra/net/detail/ReceiveRing.hpp\<close>: the receive side of a connection. Received bytes
  sit in three places, oldest first: the event ring, the deferred bytes
  (\<^verbatim>\<open>m_pending\<close>, stored when a reader holds the data lock) and the detached tail
  (\<^verbatim>\<open>m_detached\<close>, staged when the connection closes). The operations are one
  \<^verbatim>\<open>m_mutex\<close> critical section each; \<open>rr_locked\<close> says that another party holds that
  mutex, so the \<^verbatim>\<open>try_to_lock\<close> of the operation fails. Notifications (data hub, release
  hub, owner wake) are events appended to \<open>rr_events\<close> in the order they happen.
  Which allocations and callbacks fail in an operation is given by its \<open>ring_env\<close>;
  an operation that lets an exception out returns \<open>None\<close>. String capacities and the
  identity of backing stores are not modelled, so \<^verbatim>\<open>ReserveDeferred\<close>,
  \<^verbatim>\<open>ReserveDetached\<close> and \<^verbatim>\<open>EnsureTransferableStorage\<close> have no counterpart.
\<close>

section \<open>State\<close>

datatype ReadStatus = RsOk | RsBusy | RsWouldBlock | RsEof | RsError

record ReadResult =
  rr_status :: ReadStatus
  rr_bytes :: nat
  rr_failure :: error_code

record AppendGrant =
  ag_status :: ReadStatus
  ag_granted :: nat
  ag_error :: error_code

datatype ring_event = DataNotify | ReleaseNotify | OwnerWake

record ring_env =
  env_mem :: bool
  env_flush_mem :: bool
  env_detached_mem :: bool
  env_retry_notify_ok :: bool
  env_retry_wake_ok :: bool
  env_notify_ok :: bool
  env_wake_ok :: bool

record 'c ReceiveRing =
  rr_locked :: bool
  rr_ring :: "'c EventRingBuffer"
  rr_max_bytes :: nat
  rr_size :: nat
  rr_eof :: bool
  rr_closed :: bool
  rr_error :: u64
  rr_access_generation :: u64
  rr_raw_retry :: bool
  rr_owner_wake :: bool
  rr_notify_pending :: bool
  rr_wake_pending :: bool
  rr_pending :: "byte list"
  rr_pending_size :: nat
  rr_detached :: "byte list"
  rr_detached_size :: nat
  rr_events :: "ring_event list"

definition rr_init :: "('c, byte) cb_ops \<Rightarrow> nat \<Rightarrow> 'c ReceiveRing" where
  "rr_init ops n = \<lparr>rr_locked = False, rr_ring = erb_init ops n, rr_max_bytes = n, rr_size = 0,
     rr_eof = False, rr_closed = False, rr_error = 0, rr_access_generation = 0,
     rr_raw_retry = False, rr_owner_wake = False, rr_notify_pending = False,
     rr_wake_pending = False, rr_pending = [], rr_pending_size = 0, rr_detached = [],
     rr_detached_size = 0, rr_events = []\<rparr>"

definition rr_Size :: "'c ReceiveRing \<Rightarrow> nat" where
  "rr_Size r = rr_size r + rr_detached_size r"

definition rr_SetOwnerWake :: "'c ReceiveRing \<Rightarrow> 'c ReceiveRing" where
  "rr_SetOwnerWake r = r\<lparr>rr_owner_wake := True\<rparr>"

section \<open>Notification\<close>

definition rr_log :: "ring_event \<Rightarrow> 'c ReceiveRing \<Rightarrow> 'c ReceiveRing" where
  "rr_log e r = r\<lparr>rr_events := rr_events r @ [e]\<rparr>"

definition rr_WakeOwnerOnly :: "bool \<Rightarrow> 'c ReceiveRing \<Rightarrow> 'c ReceiveRing" where
  "rr_WakeOwnerOnly wake_ok r =
     (if rr_owner_wake r
      then (if wake_ok then rr_log OwnerWake r else r\<lparr>rr_wake_pending := True\<rparr>)
      else r)"

definition rr_notify_data :: "bool \<Rightarrow> 'c ReceiveRing \<Rightarrow> 'c ReceiveRing" where
  "rr_notify_data notify_ok r =
     (if notify_ok then rr_log DataNotify r else r\<lparr>rr_notify_pending := True\<rparr>)"

definition rr_RetryPendingNotification :: "ring_env \<Rightarrow> 'c ReceiveRing \<Rightarrow> 'c ReceiveRing" where
  "rr_RetryPendingNotification env r =
     (let r1 = (if rr_notify_pending r
                then rr_notify_data (env_retry_notify_ok env) (r\<lparr>rr_notify_pending := False\<rparr>) else r)
      in if rr_wake_pending r1
         then rr_WakeOwnerOnly (env_retry_wake_ok env) (r1\<lparr>rr_wake_pending := False\<rparr>) else r1)"

definition rr_NotifyRelease :: "'c ReceiveRing \<Rightarrow> 'c ReceiveRing" where
  "rr_NotifyRelease r =
     rr_log ReleaseNotify (r\<lparr>rr_access_generation := rr_access_generation r + 1\<rparr>)"

definition rr_NotifyDataChanged :: "ring_env \<Rightarrow> 'c ReceiveRing \<Rightarrow> 'c ReceiveRing" where
  "rr_NotifyDataChanged env r =
     rr_WakeOwnerOnly (env_wake_ok env) (rr_notify_data (env_notify_ok env) r)"

section \<open>Producer operations\<close>

definition rr_StageDetached :: "ring_env \<Rightarrow> 'c ReceiveRing \<Rightarrow> byte list \<Rightarrow> bool \<times> 'c ReceiveRing" where
  "rr_StageDetached env r data =
     (if data = [] then (True, r)
      else if \<not> env_mem env then (False, r)
      else let d = rr_detached r @ data
           in (True, rr_NotifyDataChanged env (r\<lparr>rr_detached := d, rr_detached_size := length d\<rparr>)))"

definition rr_TryReserveForAppend ::
  "('c, byte) cb_ops \<Rightarrow> ring_env \<Rightarrow> 'c ReceiveRing \<Rightarrow> nat \<Rightarrow> (AppendGrant \<times> 'c ReceiveRing) option" where
  "rr_TryReserveForAppend ops env r want =
     (if rr_locked r then Some (\<lparr>ag_status = RsBusy, ag_granted = 0, ag_error = no_error\<rparr>, r)
      else
        let used = erb_Size ops (rr_ring r) + length (rr_pending r) + rr_detached_size r;
            available = (if rr_max_bytes r > used then rr_max_bytes r - used else 0);
            granted = (if want < available then want else available);
            reserved = (if granted = 0 then Some (make_errc no_buffer_space, rr_ring r)
                        else erb_Reserve ops (env_mem env) (rr_ring r) (used + granted))
        in case reserved of
             None \<Rightarrow> None
           | Some (error, ring') \<Rightarrow>
               let r' = rr_NotifyRelease (r\<lparr>rr_ring := ring'\<rparr>)
               in Some (if granted = 0 \<or> ec_fails error
                        then \<lparr>ag_status = RsWouldBlock, ag_granted = 0,
                              ag_error = (if ec_fails error then error else make_errc no_buffer_space)\<rparr>
                        else \<lparr>ag_status = RsOk, ag_granted = granted, ag_error = no_error\<rparr>, r'))"

definition rr_TryAppend ::
  "('c, byte) cb_ops \<Rightarrow> ring_env \<Rightarrow> 'c ReceiveRing \<Rightarrow> byte list \<Rightarrow> ReadResult \<times> 'c ReceiveRing" where
  "rr_TryAppend ops env r data =
     (if data = [] then (\<lparr>rr_status = RsOk, rr_bytes = 0, rr_failure = no_error\<rparr>, r)
      else if rr_locked r then (\<lparr>rr_status = RsBusy, rr_bytes = 0, rr_failure = no_error\<rparr>, r)
      else
        let (error, ring') = erb_append_caught ops (env_mem env) (rr_ring r) data;
            r1 = r\<lparr>rr_ring := ring'\<rparr>;
            r2 = (if \<not> ec_fails error
                  then r1\<lparr>rr_size := erb_Size ops ring' + length (rr_pending r)\<rparr> else r1);
            r3 = rr_NotifyRelease r2
        in if ec_fails error then (\<lparr>rr_status = RsWouldBlock, rr_bytes = 0, rr_failure = error\<rparr>, r3)
           else (\<lparr>rr_status = RsOk, rr_bytes = length data, rr_failure = no_error\<rparr>,
                 rr_NotifyDataChanged env r3))"

definition rr_AppendDeferred ::
  "('c, byte) cb_ops \<Rightarrow> ring_env \<Rightarrow> 'c ReceiveRing \<Rightarrow> byte list \<Rightarrow> bool \<times> 'c ReceiveRing" where
  "rr_AppendDeferred ops env r data =
     (if data = [] then (True, r)
      else if rr_locked r then (False, r)
      else if \<not> env_mem env then (False, r)
      else let p = rr_pending r @ data
           in (True, rr_NotifyDataChanged env
                 (r\<lparr>rr_pending := p, rr_pending_size := length p,
                    rr_size := erb_Size ops (rr_ring r) + length p\<rparr>)))"

definition rr_MarkEof :: "ring_env \<Rightarrow> 'c ReceiveRing \<Rightarrow> 'c ReceiveRing" where
  "rr_MarkEof env r = rr_NotifyRelease (rr_NotifyDataChanged env (r\<lparr>rr_eof := True\<rparr>))"

text \<open>The error is published as one 64-bit value: its kind above bit 32, its value below.\<close>

definition rr_pack_error :: "error_code \<Rightarrow> u64" where
  "rr_pack_error e =
     (let kind = (if ec_category e = NetCategory then 2 else 1 :: u64)
      in or (push_bit 32 kind) (ucast (word_of_int (ec_value e) :: u32)))"

definition rr_MarkError :: "ring_env \<Rightarrow> 'c ReceiveRing \<Rightarrow> error_code \<Rightarrow> 'c ReceiveRing" where
  "rr_MarkError env r e =
     rr_NotifyRelease (rr_NotifyDataChanged env (r\<lparr>rr_error := rr_pack_error e\<rparr>))"

definition rr_MarkClosed :: "ring_env \<Rightarrow> 'c ReceiveRing \<Rightarrow> 'c ReceiveRing" where
  "rr_MarkClosed env r = rr_NotifyRelease (rr_NotifyDataChanged env (r\<lparr>rr_closed := True\<rparr>))"

section \<open>Reading\<close>

definition rr_ReadError :: "'c ReceiveRing \<Rightarrow> error_code" where
  "rr_ReadError r =
     (let kind = drop_bit 32 (rr_error r)
      in if kind = 0 then no_error
         else \<lparr>ec_category = (if kind = 2 then NetCategory else SystemCategory),
               ec_value = sint (ucast (rr_error r) :: u32)\<rparr>)"

definition rr_TerminalLocked :: "'c ReceiveRing \<Rightarrow> ReadResult" where
  "rr_TerminalLocked r =
     (if drop_bit 32 (rr_error r) \<noteq> 0
      then \<lparr>rr_status = RsError, rr_bytes = 0, rr_failure = rr_ReadError r\<rparr>
      else if rr_eof r \<or> rr_closed r
      then \<lparr>rr_status = RsEof, rr_bytes = 0, rr_failure = no_error\<rparr>
      else \<lparr>rr_status = RsWouldBlock, rr_bytes = 0, rr_failure = no_error\<rparr>)"

text \<open>Merging the deferred and the detached bytes; the first append is outside any
  \<^verbatim>\<open>try\<close>, the second inside one.\<close>

definition rr_flush_pending ::
  "('c, byte) cb_ops \<Rightarrow> bool \<Rightarrow> 'c ReceiveRing \<Rightarrow> 'c ReceiveRing option" where
  "rr_flush_pending ops mem r =
     (if rr_pending r = [] then Some r
      else case erb_Append ops mem (rr_ring r) (rr_pending r) of
             None \<Rightarrow> None
           | Some (error, ring') \<Rightarrow>
               Some (if ec_fails error then r\<lparr>rr_ring := ring'\<rparr>
                     else r\<lparr>rr_ring := ring', rr_pending := []\<rparr>))"

definition rr_flush_detached ::
  "('c, byte) cb_ops \<Rightarrow> bool \<Rightarrow> 'c ReceiveRing \<Rightarrow> 'c ReceiveRing" where
  "rr_flush_detached ops mem r =
     (if rr_detached_size r \<noteq> 0 \<and> rr_detached r \<noteq> []
      then case erb_Append ops mem (rr_ring r) (rr_detached r) of
             None \<Rightarrow> r
           | Some (error, ring') \<Rightarrow>
               (if ec_fails error then r\<lparr>rr_ring := ring'\<rparr>
                else r\<lparr>rr_ring := ring', rr_detached := [], rr_detached_size := 0\<rparr>)
      else r)"

definition rr_FlushPendingLocked ::
  "('c, byte) cb_ops \<Rightarrow> ring_env \<Rightarrow> 'c ReceiveRing \<Rightarrow> 'c ReceiveRing option" where
  "rr_FlushPendingLocked ops env r =
     (case rr_flush_pending ops (env_flush_mem env) r of
        None \<Rightarrow> None
      | Some r1 \<Rightarrow>
          let r2 = rr_flush_detached ops (env_detached_mem env) r1
          in Some (r2\<lparr>rr_pending_size := length (rr_pending r2),
                      rr_size := erb_Size ops (rr_ring r2) + length (rr_pending r2)\<rparr>))"

text \<open>Snapshot, append to the caller's string, discard: the exception, if any, comes before
  the first change. The result is the error, the ring, the string and the bytes consumed.\<close>

definition rr_CopyConsumeLocked ::
  "('c, byte) cb_ops \<Rightarrow> bool \<Rightarrow> 'c EventRingBuffer \<Rightarrow> byte list
   \<Rightarrow> (error_code \<times> 'c EventRingBuffer \<times> byte list \<times> nat) option" where
  "rr_CopyConsumeLocked ops mem b out =
     (if \<not> mem then None
      else
        let available = erb_Size ops b;
            view = snap_Peek (erb_TakeSnapshot ops b);
            (error, b') = erb_Discard ops b available
        in Some (error, b', out @ view, if ec_fails error then 0 else available))"

definition rr_caught_copy ::
  "('c, byte) cb_ops \<Rightarrow> bool \<Rightarrow> 'c EventRingBuffer \<Rightarrow> byte list
   \<Rightarrow> error_code \<times> 'c EventRingBuffer \<times> byte list \<times> nat" where
  "rr_caught_copy ops mem b out =
     (case rr_CopyConsumeLocked ops mem b out of
        None \<Rightarrow> (make_errc not_enough_memory, b, out, 0) | Some x \<Rightarrow> x)"

text \<open>What every unlocked exit of a read does: release, then data or owner notification.\<close>

definition rr_finish_read :: "ring_env \<Rightarrow> ReadStatus \<Rightarrow> 'c ReceiveRing \<Rightarrow> 'c ReceiveRing" where
  "rr_finish_read env status r =
     (let r1 = rr_NotifyRelease r
      in if status = RsOk then rr_NotifyDataChanged env r1 else rr_WakeOwnerOnly (env_wake_ok env) r1)"

definition rr_TryRead ::
  "('c, byte) cb_ops \<Rightarrow> ring_env \<Rightarrow> 'c ReceiveRing \<Rightarrow> byte list
   \<Rightarrow> (ReadResult \<times> byte list \<times> 'c ReceiveRing) option" where
  "rr_TryRead ops env r0 out =
     (let r = rr_RetryPendingNotification env r0
      in if rr_locked r
         then Some (\<lparr>rr_status = RsBusy, rr_bytes = 0, rr_failure = no_error\<rparr>, out, r\<lparr>rr_raw_retry := True\<rparr>)
         else case rr_FlushPendingLocked ops env r of
           None \<Rightarrow> None
         | Some r1 \<Rightarrow>
             if erb_Size ops (rr_ring r1) = 0
             then let result = rr_TerminalLocked r1
                  in Some (result, out, rr_finish_read env (rr_status result) r1)
             else
               let (error, ring', out', consumed) = rr_caught_copy ops (env_mem env) (rr_ring r1) out;
                   r2 = r1\<lparr>rr_ring := ring'\<rparr>
               in if ec_fails error
                  then Some (\<lparr>rr_status = RsError, rr_bytes = 0, rr_failure = error\<rparr>, out',
                             rr_finish_read env RsError r2)
                  else Some (\<lparr>rr_status = RsOk, rr_bytes = consumed, rr_failure = no_error\<rparr>, out',
                             rr_finish_read env RsOk
                               (r2\<lparr>rr_size := erb_Size ops ring' + rr_pending_size r2\<rparr>)))"

section \<open>Handing the storage over\<close>

record 'c PopAllTakeout =
  pt_ring :: "'c option"
  pt_pending :: "byte list"
  pt_detached :: "byte list"
  pt_segments :: "byte list list"

record 'c PopAllResult =
  pr_status :: ReadStatus
  pr_error :: error_code
  pr_takeout :: "'c PopAllTakeout option"

definition rr_BuildTakeoutLocked ::
  "('c, byte) cb_ops \<Rightarrow> bool \<Rightarrow> 'c ReceiveRing \<Rightarrow> ('c PopAllTakeout \<times> 'c ReceiveRing) option" where
  "rr_BuildTakeoutLocked ops mem r =
     (let taken = (if erb_Size ops (rr_ring r) \<noteq> 0
                   then map_option (\<lambda>(c, b). (Some c, b)) (erb_TakeStorage ops mem (rr_ring r))
                   else if mem then Some (None, rr_ring r) else None)
      in case taken of
           None \<Rightarrow> None
         | Some (c, ring') \<Rightarrow>
             let ring_segments = (case c of None \<Rightarrow> []
                   | Some s \<Rightarrow> (if length (cb_array_one ops s) \<noteq> 0 then [cb_array_one ops s] else [])
                            @ (if length (cb_array_two ops s) \<noteq> 0 then [cb_array_two ops s] else []));
                 pending_segments = (if rr_pending r \<noteq> [] then [rr_pending r] else []);
                 detached_segments = (if rr_detached r \<noteq> [] then [rr_detached r] else [])
             in Some (\<lparr>pt_ring = c, pt_pending = rr_pending r, pt_detached = rr_detached r,
                       pt_segments = ring_segments @ pending_segments @ detached_segments\<rparr>,
                      r\<lparr>rr_ring := ring', rr_pending := [], rr_detached := [],
                        rr_detached_size := (if rr_detached r \<noteq> [] then 0 else rr_detached_size r),
                        rr_pending_size := 0, rr_size := 0\<rparr>))"

definition rr_TryPopAll ::
  "('c, byte) cb_ops \<Rightarrow> ring_env \<Rightarrow> 'c ReceiveRing \<Rightarrow> 'c PopAllResult \<times> 'c ReceiveRing" where
  "rr_TryPopAll ops env r0 =
     (let r = rr_RetryPendingNotification env r0
      in if rr_locked r
         then (\<lparr>pr_status = RsBusy, pr_error = no_error, pr_takeout = None\<rparr>, r\<lparr>rr_raw_retry := True\<rparr>)
         else if erb_Size ops (rr_ring r) + length (rr_pending r) + rr_detached_size r = 0
         then let terminal = rr_TerminalLocked r
              in (\<lparr>pr_status = rr_status terminal, pr_error = rr_failure terminal, pr_takeout = None\<rparr>,
                  rr_finish_read env (rr_status terminal) r)
         else case rr_BuildTakeoutLocked ops (env_mem env) r of
             None \<Rightarrow> (\<lparr>pr_status = RsError, pr_error = make_errc not_enough_memory, pr_takeout = None\<rparr>,
                      rr_finish_read env RsError r)
           | Some (takeout, r1) \<Rightarrow>
               (\<lparr>pr_status = RsOk, pr_error = no_error, pr_takeout = Some takeout\<rparr>,
                rr_finish_read env RsOk r1))"

section \<open>Guarded access\<close>

text \<open>A successful attempt keeps the data lock; the caller must release it.\<close>

definition rr_TryAccessAttempt ::
  "('c, byte) cb_ops \<Rightarrow> ring_env \<Rightarrow> 'c ReceiveRing \<Rightarrow> ((ReadStatus \<times> error_code) \<times> 'c ReceiveRing) option" where
  "rr_TryAccessAttempt ops env r0 =
     (let r = rr_RetryPendingNotification env r0
      in if rr_locked r then Some ((RsBusy, no_error), r)
         else case rr_FlushPendingLocked ops env r of
           None \<Rightarrow> None
         | Some r1 \<Rightarrow>
             if erb_Size ops (rr_ring r1) = 0
             then let terminal = rr_TerminalLocked r1
                  in Some ((rr_status terminal, rr_failure terminal),
                           rr_WakeOwnerOnly (env_wake_ok env) (rr_NotifyRelease r1))
             else Some ((RsOk, no_error), r1\<lparr>rr_locked := True\<rparr>))"

definition rr_LockedDiscard ::
  "('c, byte) cb_ops \<Rightarrow> 'c ReceiveRing \<Rightarrow> nat \<Rightarrow> error_code \<times> 'c ReceiveRing" where
  "rr_LockedDiscard ops r count =
     (let (error, ring') = erb_Discard ops (rr_ring r) count;
          r1 = r\<lparr>rr_ring := ring'\<rparr>
      in (error, if \<not> ec_fails error
                 then r1\<lparr>rr_size := erb_Size ops ring' + rr_pending_size r\<rparr> else r1))"

definition rr_LockedCopyAll :: "('c, byte) cb_ops \<Rightarrow> 'c ReceiveRing \<Rightarrow> byte list \<Rightarrow> byte list" where
  "rr_LockedCopyAll ops r out = out @ snap_Peek (erb_TakeSnapshot ops (rr_ring r))"

definition rr_LockedConsumeInto ::
  "('c, byte) cb_ops \<Rightarrow> ring_env \<Rightarrow> 'c ReceiveRing \<Rightarrow> byte list \<Rightarrow> error_code \<times> byte list \<times> 'c ReceiveRing" where
  "rr_LockedConsumeInto ops env r out =
     (let (error, ring', out', consumed) = rr_caught_copy ops (env_mem env) (rr_ring r) out;
          r1 = r\<lparr>rr_ring := ring'\<rparr>
      in (error, out', if \<not> ec_fails error
            then r1\<lparr>rr_size := erb_Size ops ring' + rr_pending_size r\<rparr> else r1))"

definition rr_AfterProtectionRelease :: "ring_env \<Rightarrow> 'c ReceiveRing \<Rightarrow> bool \<Rightarrow> 'c ReceiveRing" where
  "rr_AfterProtectionRelease env r changed =
     rr_NotifyRelease (if changed then rr_NotifyDataChanged env r
                       else rr_WakeOwnerOnly (env_wake_ok env) r)"

definition rr_RequestRawRetry :: "'c ReceiveRing \<Rightarrow> 'c ReceiveRing" where
  "rr_RequestRawRetry r = r\<lparr>rr_raw_retry := True\<rparr>"

definition rr_TakeRawRetry :: "'c ReceiveRing \<Rightarrow> bool \<times> 'c ReceiveRing" where
  "rr_TakeRawRetry r = (rr_raw_retry r, r\<lparr>rr_raw_retry := False\<rparr>)"

text \<open>The public guard \<^verbatim>\<open>ReadAccess\<close>: \<open>owns\<close> is its lock, \<open>changed\<close> its dirty flag.\<close>

record ReadAccess =
  ra_owns :: bool
  ra_changed :: bool

definition ra_Release :: "ring_env \<Rightarrow> ReadAccess \<Rightarrow> 'c ReceiveRing \<Rightarrow> ReadAccess \<times> 'c ReceiveRing" where
  "ra_Release env a r =
     (\<lparr>ra_owns = False, ra_changed = False\<rparr>,
      if ra_owns a then rr_AfterProtectionRelease env (r\<lparr>rr_locked := False\<rparr>) (ra_changed a) else r)"

definition ra_Consume ::
  "('c, byte) cb_ops \<Rightarrow> ReadAccess \<Rightarrow> 'c ReceiveRing \<Rightarrow> nat \<Rightarrow> error_code \<times> ReadAccess \<times> 'c ReceiveRing" where
  "ra_Consume ops a r count =
     (if \<not> ra_owns a then (make_errc operation_not_permitted, a, r)
      else let (error, r') = rr_LockedDiscard ops r count
           in (error, if \<not> ec_fails error then a\<lparr>ra_changed := True\<rparr> else a, r'))"

definition ra_ConsumeInto ::
  "('c, byte) cb_ops \<Rightarrow> ring_env \<Rightarrow> ReadAccess \<Rightarrow> 'c ReceiveRing \<Rightarrow> byte list
   \<Rightarrow> error_code \<times> byte list \<times> ReadAccess \<times> 'c ReceiveRing" where
  "ra_ConsumeInto ops env a r out =
     (if \<not> ra_owns a then (make_errc operation_not_permitted, out, a, r)
      else let (error, out', r') = rr_LockedConsumeInto ops env r out
           in (error, out', if \<not> ec_fails error then a\<lparr>ra_changed := True\<rparr> else a, r'))"

section \<open>Logical content and invariant\<close>

definition rr_stream :: "('c, byte) cb_ops \<Rightarrow> 'c ReceiveRing \<Rightarrow> byte list" where
  "rr_stream ops r = erb_bytes ops (rr_ring r) @ rr_pending r @ rr_detached r"

definition rr_inv :: "('c, byte) cb_ops \<Rightarrow> ('c \<Rightarrow> bool) \<Rightarrow> 'c ReceiveRing \<Rightarrow> bool" where
  "rr_inv ops ok r \<longleftrightarrow> erb_inv ops ok (rr_ring r) \<and> max_bytes (rr_ring r) = rr_max_bytes r
     \<and> rr_pending_size r = length (rr_pending r) \<and> rr_detached_size r = length (rr_detached r)
     \<and> rr_size r = erb_Size ops (rr_ring r) + length (rr_pending r)"

section \<open>Notifications leave the data alone\<close>

lemma rr_log_frame [simp]:
  "rr_locked (rr_log e r) = rr_locked r" "rr_ring (rr_log e r) = rr_ring r"
  "rr_max_bytes (rr_log e r) = rr_max_bytes r" "rr_size (rr_log e r) = rr_size r"
  "rr_eof (rr_log e r) = rr_eof r" "rr_closed (rr_log e r) = rr_closed r"
  "rr_error (rr_log e r) = rr_error r" "rr_pending (rr_log e r) = rr_pending r"
  "rr_pending_size (rr_log e r) = rr_pending_size r" "rr_detached (rr_log e r) = rr_detached r"
  "rr_detached_size (rr_log e r) = rr_detached_size r"
  by (simp_all add: rr_log_def)

lemma rr_WakeOwnerOnly_frame [simp]:
  "rr_locked (rr_WakeOwnerOnly w r) = rr_locked r" "rr_ring (rr_WakeOwnerOnly w r) = rr_ring r"
  "rr_max_bytes (rr_WakeOwnerOnly w r) = rr_max_bytes r"
  "rr_size (rr_WakeOwnerOnly w r) = rr_size r" "rr_eof (rr_WakeOwnerOnly w r) = rr_eof r"
  "rr_closed (rr_WakeOwnerOnly w r) = rr_closed r" "rr_error (rr_WakeOwnerOnly w r) = rr_error r"
  "rr_pending (rr_WakeOwnerOnly w r) = rr_pending r"
  "rr_pending_size (rr_WakeOwnerOnly w r) = rr_pending_size r"
  "rr_detached (rr_WakeOwnerOnly w r) = rr_detached r"
  "rr_detached_size (rr_WakeOwnerOnly w r) = rr_detached_size r"
  by (simp_all add: rr_WakeOwnerOnly_def)

lemma rr_notify_data_frame [simp]:
  "rr_locked (rr_notify_data n r) = rr_locked r" "rr_ring (rr_notify_data n r) = rr_ring r"
  "rr_max_bytes (rr_notify_data n r) = rr_max_bytes r" "rr_size (rr_notify_data n r) = rr_size r"
  "rr_eof (rr_notify_data n r) = rr_eof r" "rr_closed (rr_notify_data n r) = rr_closed r"
  "rr_error (rr_notify_data n r) = rr_error r" "rr_pending (rr_notify_data n r) = rr_pending r"
  "rr_pending_size (rr_notify_data n r) = rr_pending_size r"
  "rr_detached (rr_notify_data n r) = rr_detached r"
  "rr_detached_size (rr_notify_data n r) = rr_detached_size r"
  by (simp_all add: rr_notify_data_def)

lemma rr_NotifyRelease_frame [simp]:
  "rr_locked (rr_NotifyRelease r) = rr_locked r" "rr_ring (rr_NotifyRelease r) = rr_ring r"
  "rr_max_bytes (rr_NotifyRelease r) = rr_max_bytes r" "rr_size (rr_NotifyRelease r) = rr_size r"
  "rr_eof (rr_NotifyRelease r) = rr_eof r" "rr_closed (rr_NotifyRelease r) = rr_closed r"
  "rr_error (rr_NotifyRelease r) = rr_error r" "rr_pending (rr_NotifyRelease r) = rr_pending r"
  "rr_pending_size (rr_NotifyRelease r) = rr_pending_size r"
  "rr_detached (rr_NotifyRelease r) = rr_detached r"
  "rr_detached_size (rr_NotifyRelease r) = rr_detached_size r"
  by (simp_all add: rr_NotifyRelease_def)

lemma rr_NotifyDataChanged_frame [simp]:
  "rr_locked (rr_NotifyDataChanged env r) = rr_locked r"
  "rr_ring (rr_NotifyDataChanged env r) = rr_ring r"
  "rr_max_bytes (rr_NotifyDataChanged env r) = rr_max_bytes r"
  "rr_size (rr_NotifyDataChanged env r) = rr_size r"
  "rr_eof (rr_NotifyDataChanged env r) = rr_eof r"
  "rr_closed (rr_NotifyDataChanged env r) = rr_closed r"
  "rr_error (rr_NotifyDataChanged env r) = rr_error r"
  "rr_pending (rr_NotifyDataChanged env r) = rr_pending r"
  "rr_pending_size (rr_NotifyDataChanged env r) = rr_pending_size r"
  "rr_detached (rr_NotifyDataChanged env r) = rr_detached r"
  "rr_detached_size (rr_NotifyDataChanged env r) = rr_detached_size r"
  by (simp_all add: rr_NotifyDataChanged_def)

lemma rr_RetryPendingNotification_frame [simp]:
  "rr_locked (rr_RetryPendingNotification env r) = rr_locked r"
  "rr_ring (rr_RetryPendingNotification env r) = rr_ring r"
  "rr_max_bytes (rr_RetryPendingNotification env r) = rr_max_bytes r"
  "rr_size (rr_RetryPendingNotification env r) = rr_size r"
  "rr_eof (rr_RetryPendingNotification env r) = rr_eof r"
  "rr_closed (rr_RetryPendingNotification env r) = rr_closed r"
  "rr_error (rr_RetryPendingNotification env r) = rr_error r"
  "rr_pending (rr_RetryPendingNotification env r) = rr_pending r"
  "rr_pending_size (rr_RetryPendingNotification env r) = rr_pending_size r"
  "rr_detached (rr_RetryPendingNotification env r) = rr_detached r"
  "rr_detached_size (rr_RetryPendingNotification env r) = rr_detached_size r"
  by (simp_all add: rr_RetryPendingNotification_def Let_def)

lemma rr_finish_read_frame [simp]:
  "rr_locked (rr_finish_read env s r) = rr_locked r"
  "rr_ring (rr_finish_read env s r) = rr_ring r"
  "rr_max_bytes (rr_finish_read env s r) = rr_max_bytes r"
  "rr_size (rr_finish_read env s r) = rr_size r" "rr_eof (rr_finish_read env s r) = rr_eof r"
  "rr_closed (rr_finish_read env s r) = rr_closed r"
  "rr_error (rr_finish_read env s r) = rr_error r"
  "rr_pending (rr_finish_read env s r) = rr_pending r"
  "rr_pending_size (rr_finish_read env s r) = rr_pending_size r"
  "rr_detached (rr_finish_read env s r) = rr_detached r"
  "rr_detached_size (rr_finish_read env s r) = rr_detached_size r"
  by (simp_all add: rr_finish_read_def Let_def)

lemma rr_stream_frame [simp]:
  "rr_stream ops (rr_NotifyRelease r) = rr_stream ops r"
  "rr_stream ops (rr_NotifyDataChanged env r) = rr_stream ops r"
  "rr_stream ops (rr_WakeOwnerOnly w r) = rr_stream ops r"
  "rr_stream ops (rr_RetryPendingNotification env r) = rr_stream ops r"
  "rr_stream ops (rr_finish_read env s r) = rr_stream ops r"
  by (simp_all add: rr_stream_def)

lemma rr_inv_frame [simp]:
  "rr_inv ops ok (rr_NotifyRelease r) = rr_inv ops ok r"
  "rr_inv ops ok (rr_NotifyDataChanged env r) = rr_inv ops ok r"
  "rr_inv ops ok (rr_WakeOwnerOnly w r) = rr_inv ops ok r"
  "rr_inv ops ok (rr_RetryPendingNotification env r) = rr_inv ops ok r"
  "rr_inv ops ok (rr_finish_read env s r) = rr_inv ops ok r"
  by (simp_all add: rr_inv_def)

text \<open>A data change is announced: the data hub is notified, or the debt is recorded.\<close>

definition rr_announced :: "'c ReceiveRing \<Rightarrow> 'c ReceiveRing \<Rightarrow> bool" where
  "rr_announced r r' \<longleftrightarrow> rr_notify_pending r'
     \<or> (\<exists>new. rr_events r' = rr_events r @ new \<and> DataNotify \<in> set new)"

lemma rr_NotifyDataChanged_announces:
  "rr_events r' = rr_events r @ xs \<Longrightarrow> rr_announced r (rr_NotifyDataChanged env r')"
  by (auto simp: rr_announced_def rr_NotifyDataChanged_def rr_notify_data_def rr_WakeOwnerOnly_def
      rr_log_def)

section \<open>Operations on the byte stream\<close>

context byte_ring
begin

lemma rr_init_correct: "rr_inv ops ok (rr_init ops n)" "rr_stream ops (rr_init ops n) = []"
  using erb_init_correct by (simp_all add: rr_inv_def rr_init_def rr_stream_def erb_Size_bytes)

lemma rr_Size_stream: "rr_inv ops ok r \<Longrightarrow> rr_Size r = length (rr_stream ops r)"
  by (simp add: rr_inv_def rr_Size_def rr_stream_def erb_Size_bytes)

lemma rr_StageDetached_correct:
  assumes "rr_inv ops ok r" "rr_StageDetached env r data = (done, r')"
  shows "rr_inv ops ok r'" "rr_max_bytes r' = rr_max_bytes r" "rr_locked r' = rr_locked r"
    "if done then rr_stream ops r' = rr_stream ops r @ data \<and> rr_pending r' = rr_pending r
       \<and> rr_detached r' = rr_detached r @ data
     else r' = r"
  using assms by (auto simp: rr_StageDetached_def Let_def rr_inv_def rr_stream_def split: if_splits)

lemma rr_TryReserveForAppend_correct:
  assumes inv: "rr_inv ops ok r" and res: "rr_TryReserveForAppend ops env r want = Some (g, r')"
  shows "rr_inv ops ok r'" "rr_stream ops r' = rr_stream ops r" "rr_pending r' = rr_pending r"
    "rr_detached r' = rr_detached r" "rr_locked r' = rr_locked r" "rr_max_bytes r' = rr_max_bytes r"
    "ag_granted g \<noteq> 0 \<Longrightarrow> ag_status g = RsOk \<and> \<not> rr_locked r \<and> ag_granted g \<le> want
       \<and> length (rr_stream ops r) + ag_granted g \<le> rr_max_bytes r
       \<and> length (rr_stream ops r) + ag_granted g \<le> erb_Capacity ops (rr_ring r')"
proof -
  let ?used = "length (rr_stream ops r)"
  let ?av = "if rr_max_bytes r > ?used then rr_max_bytes r - ?used else 0"
  let ?gr = "if want < ?av then want else ?av"
  have used: "erb_Size ops (rr_ring r) + length (rr_pending r) + rr_detached_size r = ?used"
    using inv by (simp add: rr_inv_def rr_stream_def erb_Size_bytes)
  have erb: "erb_inv ops ok (rr_ring r)" "max_bytes (rr_ring r) = rr_max_bytes r"
    using inv by (simp_all add: rr_inv_def)
  consider (busy) "rr_locked r" | (full) "\<not> rr_locked r" "?gr = 0"
    | (grant) e b where "\<not> rr_locked r" "?gr \<noteq> 0"
        "erb_Reserve ops (env_mem env) (rr_ring r) (?used + ?gr) = Some (e, b)"
        "r' = rr_NotifyRelease (r\<lparr>rr_ring := b\<rparr>)"
        "\<not> ec_fails e \<Longrightarrow> g = \<lparr>ag_status = RsOk, ag_granted = ?gr, ag_error = no_error\<rparr>"
        "ec_fails e \<Longrightarrow> ag_granted g = 0"
    using res unfolding rr_TryReserveForAppend_def used Let_def
    by (fastforce split: if_splits option.splits)
  then have "rr_inv ops ok r' \<and> rr_stream ops r' = rr_stream ops r \<and> rr_pending r' = rr_pending r
    \<and> rr_detached r' = rr_detached r \<and> rr_locked r' = rr_locked r \<and> rr_max_bytes r' = rr_max_bytes r
    \<and> (ag_granted g \<noteq> 0 \<longrightarrow> ag_status g = RsOk \<and> \<not> rr_locked r \<and> ag_granted g \<le> want
       \<and> ?used + ag_granted g \<le> rr_max_bytes r \<and> ?used + ag_granted g \<le> erb_Capacity ops (rr_ring r'))"
  proof cases
    case busy
    then show ?thesis using res inv by (auto simp: rr_TryReserveForAppend_def)
  next
    case full
    then show ?thesis using res inv unfolding rr_TryReserveForAppend_def used Let_def
      by (auto simp: rr_inv_def rr_stream_def)
  next
    case grant
    note rsv = erb_Reserve_correct [OF erb(1) grant(3)]
    have "?used + ?gr \<le> rr_max_bytes r" using grant(2) by auto
    then show ?thesis using rsv grant inv erb
      by (auto simp: rr_inv_def rr_stream_def erb_Size_bytes)
  qed
  then show "rr_inv ops ok r'" "rr_stream ops r' = rr_stream ops r" "rr_pending r' = rr_pending r"
    "rr_detached r' = rr_detached r" "rr_locked r' = rr_locked r" "rr_max_bytes r' = rr_max_bytes r"
    "ag_granted g \<noteq> 0 \<Longrightarrow> ag_status g = RsOk \<and> \<not> rr_locked r \<and> ag_granted g \<le> want
       \<and> length (rr_stream ops r) + ag_granted g \<le> rr_max_bytes r
       \<and> length (rr_stream ops r) + ag_granted g \<le> erb_Capacity ops (rr_ring r')" by auto
qed

text \<open>An append lands behind the ring bytes; behind the whole stream when nothing is deferred
  or detached, which is the owner's discipline.\<close>

lemma rr_TryAppend_correct:
  assumes inv: "rr_inv ops ok r" and app: "rr_TryAppend ops env r data = (res, r')" and "data \<noteq> []"
  shows "rr_inv ops ok r'" "rr_locked r' = rr_locked r" "rr_max_bytes r' = rr_max_bytes r"
    "rr_pending r' = rr_pending r" "rr_detached r' = rr_detached r"
    "rr_status res = RsBusy \<longleftrightarrow> rr_locked r"
    "rr_status res = RsOk \<Longrightarrow> \<not> ec_fails (rr_failure res) \<and> rr_bytes res = length data
       \<and> erb_bytes ops (rr_ring r') = erb_bytes ops (rr_ring r) @ data"
    "rr_status res \<noteq> RsOk \<Longrightarrow> rr_stream ops r' = rr_stream ops r"
    "rr_status res \<noteq> RsOk \<Longrightarrow> rr_status res \<noteq> RsBusy \<Longrightarrow> ec_fails (rr_failure res)"
proof -
  obtain e b where ap: "erb_append_caught ops (env_mem env) (rr_ring r) data = (e, b)" by fastforce
  have erb: "erb_inv ops ok (rr_ring r)" using inv by (simp add: rr_inv_def)
  note c = erb_append_caught_correct [OF erb ap]
  show "rr_inv ops ok r'" "rr_locked r' = rr_locked r" "rr_max_bytes r' = rr_max_bytes r"
    "rr_pending r' = rr_pending r" "rr_detached r' = rr_detached r"
    "rr_status res = RsBusy \<longleftrightarrow> rr_locked r"
    "rr_status res = RsOk \<Longrightarrow> \<not> ec_fails (rr_failure res) \<and> rr_bytes res = length data
       \<and> erb_bytes ops (rr_ring r') = erb_bytes ops (rr_ring r) @ data"
    "rr_status res \<noteq> RsOk \<Longrightarrow> rr_stream ops r' = rr_stream ops r"
    "rr_status res \<noteq> RsOk \<Longrightarrow> rr_status res \<noteq> RsBusy \<Longrightarrow> ec_fails (rr_failure res)"
    using app inv ap c assms(3)
    by (auto simp: rr_TryAppend_def Let_def rr_inv_def rr_stream_def erb_Size_bytes split: if_splits)
qed

lemma rr_AppendDeferred_correct:
  assumes "rr_inv ops ok r" "rr_AppendDeferred ops env r data = (done, r')"
  shows "rr_inv ops ok r'" "rr_locked r' = rr_locked r" "rr_max_bytes r' = rr_max_bytes r"
    "rr_detached r' = rr_detached r" "erb_bytes ops (rr_ring r') = erb_bytes ops (rr_ring r)"
    "rr_pending r' = (if done then rr_pending r @ data else rr_pending r)"
  using assms by (auto simp: rr_AppendDeferred_def Let_def rr_inv_def split: if_splits)

lemma rr_flush_pending_correct:
  assumes inv: "rr_inv ops ok r" and bound: "length (rr_stream ops r) \<le> rr_max_bytes r"
    and fl: "rr_flush_pending ops mem r = Some r'"
  shows "\<exists>b. r' = r\<lparr>rr_ring := b, rr_pending := []\<rparr> \<and> erb_inv ops ok b \<and> max_bytes b = rr_max_bytes r
    \<and> erb_bytes ops b = erb_bytes ops (rr_ring r) @ rr_pending r"
proof (cases "rr_pending r = []")
  case True
  then have "r' = r\<lparr>rr_ring := rr_ring r, rr_pending := []\<rparr>"
    using fl by (simp add: rr_flush_pending_def)
  then show ?thesis using True inv by (intro exI [of _ "rr_ring r"]) (simp add: rr_inv_def)
next
  case False
  obtain e b where ap: "erb_Append ops mem (rr_ring r) (rr_pending r) = Some (e, b)"
    using fl False by (auto simp: rr_flush_pending_def split: option.splits)
  have erb: "erb_inv ops ok (rr_ring r)" using inv by (simp add: rr_inv_def)
  have fits: "\<not> max_bytes (rr_ring r) < erb_Size ops (rr_ring r) + length (rr_pending r)"
    using bound inv by (simp add: rr_stream_def rr_inv_def erb_Size_bytes)
  from erb_Append_correct [OF erb ap] fits
  show ?thesis using fl False ap inv by (auto simp: rr_flush_pending_def rr_inv_def split: if_splits)
qed

lemma rr_flush_detached_correct:
  assumes "erb_inv ops ok (rr_ring r)" "rr_detached_size r = length (rr_detached r)"
    and "rr_pending r = []" and "r' = rr_flush_detached ops mem r"
  shows "\<exists>b d. r' = r\<lparr>rr_ring := b, rr_detached := d, rr_detached_size := length d\<rparr> \<and> erb_inv ops ok b
    \<and> max_bytes b = max_bytes (rr_ring r)
    \<and> erb_bytes ops b @ d = erb_bytes ops (rr_ring r) @ rr_detached r
    \<and> (length (rr_stream ops r) \<le> max_bytes (rr_ring r) \<longrightarrow> mem \<longrightarrow> d = [])"
proof (cases "\<exists>e b. rr_detached r \<noteq> [] \<and> erb_Append ops mem (rr_ring r) (rr_detached r) = Some (e, b)")
  case True
  then obtain e b where t: "rr_detached r \<noteq> []"
    "erb_Append ops mem (rr_ring r) (rr_detached r) = Some (e, b)" by blast
  note c = erb_Append_correct [OF assms(1) t(2)]
  show ?thesis
  proof (cases "ec_fails e")
    case True
    then have "r' = r" using t assms c by (simp add: rr_flush_detached_def)
    then show ?thesis using assms True c t
      by (intro exI [of _ "rr_ring r"] exI [of _ "rr_detached r"])
        (auto simp: rr_stream_def erb_Size_bytes)
  next
    case False
    then show ?thesis using t assms c
      by (intro exI [of _ b] exI [of _ "[]"]) (simp add: rr_flush_detached_def)
  qed
next
  case False
  then have "r' = r" using assms by (auto simp: rr_flush_detached_def split: option.splits)
  moreover have "rr_detached r = [] \<or> \<not> mem"
    using False erb_Append_cases [OF assms(1), of mem "rr_detached r"] by (auto split: if_splits)
  ultimately show ?thesis using assms
    by (intro exI [of _ "rr_ring r"] exI [of _ "rr_detached r"]) auto
qed

text \<open>While the stream fits the limit, a flush moves the deferred bytes, and with memory the
  detached ones, into the ring and changes nothing else.\<close>

lemma rr_FlushPendingLocked_correct:
  assumes inv: "rr_inv ops ok r" and bound: "length (rr_stream ops r) \<le> rr_max_bytes r"
    and fl: "rr_FlushPendingLocked ops env r = Some r'"
  shows "rr_inv ops ok r'" "rr_stream ops r' = rr_stream ops r" "rr_pending r' = []"
    "rr_max_bytes r' = rr_max_bytes r" "rr_locked r' = rr_locked r"
    "rr_TerminalLocked r' = rr_TerminalLocked r" "rr_events r' = rr_events r"
    "env_detached_mem env \<Longrightarrow> rr_detached r' = []"
    "rr_detached r' = [] \<or> rr_detached r' = rr_detached r"
proof -
  obtain r1 where r1: "rr_flush_pending ops (env_flush_mem env) r = Some r1"
    "r' = (let r2 = rr_flush_detached ops (env_detached_mem env) r1
           in r2\<lparr>rr_pending_size := length (rr_pending r2),
                 rr_size := erb_Size ops (rr_ring r2) + length (rr_pending r2)\<rparr>)"
    using fl by (auto simp: rr_FlushPendingLocked_def Let_def split: option.splits)
  obtain b where b: "r1 = r\<lparr>rr_ring := b, rr_pending := []\<rparr>" "erb_inv ops ok b"
    "max_bytes b = rr_max_bytes r" "erb_bytes ops b = erb_bytes ops (rr_ring r) @ rr_pending r"
    using rr_flush_pending_correct [OF inv bound r1(1)] by blast
  have ds: "rr_detached_size r = length (rr_detached r)" using inv by (simp add: rr_inv_def)
  obtain c d where c: "rr_flush_detached ops (env_detached_mem env) r1
      = r1\<lparr>rr_ring := c, rr_detached := d, rr_detached_size := length d\<rparr>"
    "erb_inv ops ok c" "max_bytes c = max_bytes b" "erb_bytes ops c @ d = erb_bytes ops b @ rr_detached r"
    "length (rr_stream ops r1) \<le> max_bytes b \<longrightarrow> env_detached_mem env \<longrightarrow> d = []"
    using rr_flush_detached_correct [where r = r1 and mem = "env_detached_mem env", OF _ _ _ refl] b ds by auto
  have "d = [] \<or> d = rr_detached r"
    using c(1) b(1) by (auto simp: rr_flush_detached_def split: if_splits option.splits
        dest!: arg_cong [where f = rr_detached])
  moreover have r': "r' = r\<lparr>rr_ring := c, rr_pending := [], rr_detached := d,
      rr_detached_size := length d, rr_pending_size := 0, rr_size := erb_Size ops c\<rparr>"
    using r1(2) c(1) b(1) by (simp add: Let_def)
  moreover have "length (rr_stream ops r1) = length (rr_stream ops r)"
    using b by (simp add: rr_stream_def)
  ultimately show "rr_inv ops ok r'" "rr_stream ops r' = rr_stream ops r" "rr_pending r' = []"
    "rr_max_bytes r' = rr_max_bytes r" "rr_locked r' = rr_locked r"
    "rr_TerminalLocked r' = rr_TerminalLocked r" "rr_events r' = rr_events r"
    "env_detached_mem env \<Longrightarrow> rr_detached r' = []"
    "rr_detached r' = [] \<or> rr_detached r' = rr_detached r"
    using c b bound by (simp_all add: rr_inv_def rr_stream_def rr_TerminalLocked_def rr_ReadError_def)
qed

lemma rr_TerminalLocked_retry [simp]:
  "rr_TerminalLocked (rr_RetryPendingNotification env r) = rr_TerminalLocked r"
  by (simp add: rr_TerminalLocked_def rr_ReadError_def)

lemma rr_TerminalLocked_not_Ok [simp]:
  "rr_status (rr_TerminalLocked r) \<noteq> RsOk" "rr_status (rr_TerminalLocked r) \<noteq> RsBusy"
  by (simp_all add: rr_TerminalLocked_def)

lemma rr_caught_copy_correct:
  assumes inv: "erb_inv ops ok b" and cc: "rr_caught_copy ops mem b out = (e, b', out', n)"
  shows "erb_inv ops ok b'" "max_bytes b' = max_bytes b" "ec_fails e \<longleftrightarrow> \<not> mem"
    "if ec_fails e then b' = b \<and> out' = out
     else erb_bytes ops b' = [] \<and> out' = out @ erb_bytes ops b \<and> n = length (erb_bytes ops b)"
proof -
  obtain e1 b1 where d: "erb_Discard ops b (erb_Size ops b) = (e1, b1)" by fastforce
  note dc = erb_Discard_correct [OF inv d]
  have peek: "snap_Peek (erb_TakeSnapshot ops b) = erb_bytes ops b"
    by (simp add: erb_TakeSnapshot_correct [OF inv] snap_Peek_def snap_Remaining_def)
  show "erb_inv ops ok b'" "max_bytes b' = max_bytes b" "ec_fails e \<longleftrightarrow> \<not> mem"
    "if ec_fails e then b' = b \<and> out' = out
     else erb_bytes ops b' = [] \<and> out' = out @ erb_bytes ops b \<and> n = length (erb_bytes ops b)"
    using cc inv d dc peek
    by (auto simp: rr_caught_copy_def rr_CopyConsumeLocked_def Let_def erb_Size_bytes split: if_splits)
qed

lemma rr_TryRead_cases:
  assumes inv: "rr_inv ops ok r" and bound: "length (rr_stream ops r) \<le> rr_max_bytes r"
    and rd: "rr_TryRead ops env r out = Some (res, out', r')"
  obtains
    (busy) "rr_locked r" "rr_status res = RsBusy" "out' = out" "rr_stream ops r' = rr_stream ops r"
      "rr_pending r' = rr_pending r" "rr_detached r' = rr_detached r"
  | (terminal) "\<not> rr_locked r" "res = rr_TerminalLocked r" "out' = out"
      "rr_stream ops r' = rr_stream ops r" "rr_stream ops r = rr_detached r"
      "env_detached_mem env \<Longrightarrow> rr_stream ops r = []" "rr_pending r' = []"
      "rr_detached r' = rr_detached r"
  | (fault) "\<not> rr_locked r" "rr_status res = RsError" "out' = out" "\<not> env_mem env"
      "rr_stream ops r' = rr_stream ops r" "rr_pending r' = []"
      "rr_detached r' = [] \<or> rr_detached r' = rr_detached r"
  | (read) got where "\<not> rr_locked r" "rr_status res = RsOk" "got \<noteq> []" "out' = out @ got"
      "rr_bytes res = length got" "rr_stream ops r = got @ rr_stream ops r'"
      "env_detached_mem env \<Longrightarrow> rr_stream ops r' = []" "rr_pending r' = []"
      "rr_detached r' = [] \<or> rr_detached r' = rr_detached r"
proof -
  let ?r = "rr_RetryPendingNotification env r"
  show thesis
  proof (cases "rr_locked r")
    case True
    then show ?thesis using rd by (intro busy) (auto simp: rr_TryRead_def Let_def rr_stream_def)
  next
    case unlocked: False
    then obtain r1 where r1: "rr_FlushPendingLocked ops env ?r = Some r1"
      using rd by (auto simp: rr_TryRead_def Let_def split: option.splits)
    have "rr_inv ops ok ?r" "length (rr_stream ops ?r) \<le> rr_max_bytes ?r" using inv bound by simp_all
    note fl = rr_FlushPendingLocked_correct [OF this r1]
    show ?thesis
    proof (cases "erb_Size ops (rr_ring r1) = 0")
      case True
      then have s: "rr_stream ops r = rr_detached r1"
        using fl(2,3) by (simp add: rr_stream_def erb_Size_bytes)
      moreover have "rr_detached r1 = rr_detached r"
        using fl(2,9) s by (auto simp: rr_stream_def)
      ultimately show ?thesis using terminal True unlocked rd r1 fl
        by (auto simp: rr_TryRead_def Let_def)
    next
      case False
      obtain e b o1 n where cc: "rr_caught_copy ops (env_mem env) (rr_ring r1) out = (e, b, o1, n)"
        by (cases "rr_caught_copy ops (env_mem env) (rr_ring r1) out") auto
      have "erb_inv ops ok (rr_ring r1)" using fl(1) by (simp add: rr_inv_def)
      note cp = rr_caught_copy_correct [OF this cc]
      show ?thesis
      proof (cases "ec_fails e")
        case True
        then have "r' = rr_finish_read env RsError (r1\<lparr>rr_ring := rr_ring r1\<rparr>)" "rr_status res = RsError"
          "out' = out" using rd unlocked r1 False cc cp by (auto simp: rr_TryRead_def Let_def)
        then show ?thesis using fault unlocked True fl cp by simp
      next
        case ok: False
        then have "r' = rr_finish_read env RsOk (r1\<lparr>rr_ring := b, rr_size := erb_Size ops b + rr_pending_size r1\<rparr>)"
          "rr_status res = RsOk" "rr_bytes res = n" "out' = o1"
          using rd unlocked r1 False cc by (auto simp: rr_TryRead_def Let_def)
        then show ?thesis using read [of "erb_bytes ops (rr_ring r1)"] unlocked ok fl cp False
          by (auto simp: rr_stream_def erb_Size_bytes)
      qed
    qed
  qed
qed

lemma rr_TryRead_inv:
  assumes inv: "rr_inv ops ok r" and bound: "length (rr_stream ops r) \<le> rr_max_bytes r"
    and rd: "rr_TryRead ops env r out = Some (res, out', r')"
  shows "rr_inv ops ok r'" "rr_max_bytes r' = rr_max_bytes r" "rr_locked r' = rr_locked r"
proof -
  let ?r = "rr_RetryPendingNotification env r"
  have "rr_inv ops ok r' \<and> rr_max_bytes r' = rr_max_bytes r \<and> rr_locked r' = rr_locked r"
  proof (cases "rr_locked r")
    case True
    then show ?thesis using rd inv by (auto simp: rr_TryRead_def Let_def rr_inv_def)
  next
    case unlocked: False
    then obtain r1 where r1: "rr_FlushPendingLocked ops env ?r = Some r1"
      using rd by (auto simp: rr_TryRead_def Let_def split: option.splits)
    have "rr_inv ops ok ?r" "length (rr_stream ops ?r) \<le> rr_max_bytes ?r" using inv bound by simp_all
    note fl = rr_FlushPendingLocked_correct [OF this r1]
    obtain e b o1 n where cc: "rr_caught_copy ops (env_mem env) (rr_ring r1) out = (e, b, o1, n)"
      by (cases "rr_caught_copy ops (env_mem env) (rr_ring r1) out") auto
    have "erb_inv ops ok (rr_ring r1)" using fl(1) by (simp add: rr_inv_def)
    note cp = rr_caught_copy_correct [OF this cc]
    show ?thesis using rd unlocked r1 fl cc cp
      by (auto simp: rr_TryRead_def Let_def rr_inv_def split: if_splits)
  qed
  then show "rr_inv ops ok r'" "rr_max_bytes r' = rr_max_bytes r" "rr_locked r' = rr_locked r" by auto
qed

lemma rr_BuildTakeoutLocked_correct:
  assumes inv: "rr_inv ops ok r" and bt: "rr_BuildTakeoutLocked ops mem r = Some (t, r')"
  shows "rr_inv ops ok r'" "rr_stream ops r' = []" "concat (pt_segments t) = rr_stream ops r"
    "[] \<notin> set (pt_segments t)" "length (pt_segments t) \<le> 4"
    "rr_max_bytes r' = rr_max_bytes r" "rr_locked r' = rr_locked r" "rr_events r' = rr_events r"
    "rr_pending r' = []" "rr_detached r' = []"
proof -
  have erb: "erb_inv ops ok (rr_ring r)" using inv by (simp add: rr_inv_def)
  obtain c b where cb: "(erb_bytes ops (rr_ring r) = [] \<and> c = None \<and> b = rr_ring r) \<or>
      (\<exists>s. erb_bytes ops (rr_ring r) \<noteq> [] \<and> c = Some s \<and> erb_TakeStorage ops mem (rr_ring r) = Some (s, b))"
    and r': "r' = r\<lparr>rr_ring := b, rr_pending := [], rr_detached := [],
        rr_detached_size := (if rr_detached r \<noteq> [] then 0 else rr_detached_size r),
        rr_pending_size := 0, rr_size := 0\<rparr>"
    and t: "pt_segments t = (case c of None \<Rightarrow> []
          | Some s \<Rightarrow> (if length (cb_array_one ops s) \<noteq> 0 then [cb_array_one ops s] else [])
                   @ (if length (cb_array_two ops s) \<noteq> 0 then [cb_array_two ops s] else []))
        @ (if rr_pending r \<noteq> [] then [rr_pending r] else []) @ (if rr_detached r \<noteq> [] then [rr_detached r] else [])"
    using bt by (auto simp: rr_BuildTakeoutLocked_def Let_def erb_Size_bytes split: option.splits if_splits)
  have bb: "erb_inv ops ok b \<and> max_bytes b = max_bytes (rr_ring r) \<and> erb_bytes ops b = []"
    using cb erb_TakeStorage_correct [OF erb, of mem] erb by auto
  have segs: "c = Some s \<Longrightarrow> cb_array_one ops s @ cb_array_two ops s = erb_bytes ops (rr_ring r)" for s
    using cb erb_TakeStorage_correct [OF erb, of mem s b] arrays [of s] by auto
  have none: "c = None \<Longrightarrow> erb_bytes ops (rr_ring r) = []" using cb by auto
  show "concat (pt_segments t) = rr_stream ops r"
    using t segs none by (cases c) (auto simp: rr_stream_def)
  show "[] \<notin> set (pt_segments t)" "length (pt_segments t) \<le> 4"
    using t by (auto split: option.splits)
  show "rr_inv ops ok r'" "rr_stream ops r' = []" "rr_pending r' = []" "rr_detached r' = []"
    "rr_max_bytes r' = rr_max_bytes r" "rr_locked r' = rr_locked r" "rr_events r' = rr_events r"
    using r' bb inv by (auto simp: rr_inv_def rr_stream_def erb_Size_bytes)
qed

text \<open>A pop hands over the whole stream, or changes nothing of it.\<close>

lemma rr_TryPopAll_correct:
  assumes inv: "rr_inv ops ok r" and pop: "rr_TryPopAll ops env r = (res, r')"
  shows "rr_inv ops ok r'" "rr_max_bytes r' = rr_max_bytes r" "rr_locked r' = rr_locked r"
    "case pr_takeout res of
       Some t \<Rightarrow> pr_status res = RsOk \<and> concat (pt_segments t) = rr_stream ops r \<and> rr_stream ops r \<noteq> []
         \<and> [] \<notin> set (pt_segments t) \<and> length (pt_segments t) \<le> 4 \<and> rr_stream ops r' = []
         \<and> rr_pending r' = [] \<and> rr_detached r' = []
     | None \<Rightarrow> pr_status res \<noteq> RsOk \<and> rr_stream ops r' = rr_stream ops r
         \<and> rr_pending r' = rr_pending r \<and> rr_detached r' = rr_detached r
         \<and> (pr_status res = RsEof \<longrightarrow> rr_stream ops r = [])"
proof -
  let ?r = "rr_RetryPendingNotification env r"
  have inv1: "rr_inv ops ok ?r" using inv by simp
  have tot: "erb_Size ops (rr_ring ?r) + length (rr_pending ?r) + rr_detached_size ?r
      = length (rr_stream ops r)"
    using inv by (simp add: rr_inv_def rr_stream_def erb_Size_bytes)
  consider (busy) "rr_locked r" "res = \<lparr>pr_status = RsBusy, pr_error = no_error, pr_takeout = None\<rparr>"
      "r' = ?r\<lparr>rr_raw_retry := True\<rparr>"
    | (terminal) "rr_stream ops r = []" "pr_takeout res = None" "pr_status res \<noteq> RsOk"
      "r' = rr_finish_read env (rr_status (rr_TerminalLocked ?r)) ?r"
    | (fault) "pr_takeout res = None" "pr_status res = RsError" "r' = rr_finish_read env RsError ?r"
    | (ok) t r1 where "rr_BuildTakeoutLocked ops (env_mem env) ?r = Some (t, r1)" "rr_stream ops r \<noteq> []"
      "pr_status res = RsOk" "pr_takeout res = Some t" "r' = rr_finish_read env RsOk r1"
    using pop unfolding rr_TryPopAll_def Let_def tot by (auto split: if_splits option.splits prod.splits)
  then have "rr_inv ops ok r' \<and> rr_max_bytes r' = rr_max_bytes r \<and> rr_locked r' = rr_locked r \<and>
    (case pr_takeout res of
       Some t \<Rightarrow> pr_status res = RsOk \<and> concat (pt_segments t) = rr_stream ops r \<and> rr_stream ops r \<noteq> []
         \<and> [] \<notin> set (pt_segments t) \<and> length (pt_segments t) \<le> 4 \<and> rr_stream ops r' = []
         \<and> rr_pending r' = [] \<and> rr_detached r' = []
     | None \<Rightarrow> pr_status res \<noteq> RsOk \<and> rr_stream ops r' = rr_stream ops r
         \<and> rr_pending r' = rr_pending r \<and> rr_detached r' = rr_detached r
         \<and> (pr_status res = RsEof \<longrightarrow> rr_stream ops r = []))"
  proof cases
    case busy
    then show ?thesis using inv by (simp add: rr_inv_def rr_stream_def)
  next
    case ok
    from rr_BuildTakeoutLocked_correct [OF inv1 ok(1)] ok show ?thesis by simp
  qed (use inv in simp_all)
  then show "rr_inv ops ok r'" "rr_max_bytes r' = rr_max_bytes r" "rr_locked r' = rr_locked r"
    "case pr_takeout res of
       Some t \<Rightarrow> pr_status res = RsOk \<and> concat (pt_segments t) = rr_stream ops r \<and> rr_stream ops r \<noteq> []
         \<and> [] \<notin> set (pt_segments t) \<and> length (pt_segments t) \<le> 4 \<and> rr_stream ops r' = []
         \<and> rr_pending r' = [] \<and> rr_detached r' = []
     | None \<Rightarrow> pr_status res \<noteq> RsOk \<and> rr_stream ops r' = rr_stream ops r
         \<and> rr_pending r' = rr_pending r \<and> rr_detached r' = rr_detached r
         \<and> (pr_status res = RsEof \<longrightarrow> rr_stream ops r = [])" by blast+
qed

lemma rr_TryAccessAttempt_correct:
  assumes inv: "rr_inv ops ok r" and bound: "length (rr_stream ops r) \<le> rr_max_bytes r"
    and acc: "rr_TryAccessAttempt ops env r = Some ((st, e), r')"
  shows "rr_inv ops ok r'" "rr_max_bytes r' = rr_max_bytes r" "rr_stream ops r' = rr_stream ops r"
    "rr_pending r' = [] \<or> rr_pending r' = rr_pending r"
    "rr_detached r' = [] \<or> rr_detached r' = rr_detached r"
    "st = RsOk \<longleftrightarrow> \<not> rr_locked r \<and> rr_locked r'" "rr_locked r \<Longrightarrow> rr_locked r'"
    "st = RsOk \<Longrightarrow> erb_bytes ops (rr_ring r') \<noteq> []"
proof -
  let ?r = "rr_RetryPendingNotification env r"
  have "rr_inv ops ok r' \<and> rr_max_bytes r' = rr_max_bytes r \<and> rr_stream ops r' = rr_stream ops r
    \<and> (rr_pending r' = [] \<or> rr_pending r' = rr_pending r)
    \<and> (rr_detached r' = [] \<or> rr_detached r' = rr_detached r)
    \<and> (st = RsOk \<longleftrightarrow> \<not> rr_locked r \<and> rr_locked r') \<and> (rr_locked r \<longrightarrow> rr_locked r')
    \<and> (st = RsOk \<longrightarrow> erb_bytes ops (rr_ring r') \<noteq> [])"
  proof (cases "rr_locked r")
    case True
    then show ?thesis using acc inv by (auto simp: rr_TryAccessAttempt_def Let_def)
  next
    case unlocked: False
    then obtain r1 where r1: "rr_FlushPendingLocked ops env ?r = Some r1"
      using acc by (auto simp: rr_TryAccessAttempt_def Let_def split: option.splits)
    have "rr_inv ops ok ?r" "length (rr_stream ops ?r) \<le> rr_max_bytes ?r" using inv bound by simp_all
    note fl = rr_FlushPendingLocked_correct [OF this r1]
    show ?thesis using acc unlocked r1 fl
      by (auto simp: rr_TryAccessAttempt_def Let_def rr_inv_def rr_stream_def erb_Size_bytes
          split: if_splits)
  qed
  then show "rr_inv ops ok r'" "rr_max_bytes r' = rr_max_bytes r" "rr_stream ops r' = rr_stream ops r"
    "rr_pending r' = [] \<or> rr_pending r' = rr_pending r"
    "rr_detached r' = [] \<or> rr_detached r' = rr_detached r"
    "st = RsOk \<longleftrightarrow> \<not> rr_locked r \<and> rr_locked r'" "rr_locked r \<Longrightarrow> rr_locked r'"
    "st = RsOk \<Longrightarrow> erb_bytes ops (rr_ring r') \<noteq> []" by auto
qed

lemma ra_Consume_correct:
  assumes inv: "rr_inv ops ok r" and con: "ra_Consume ops a r n = (e, a', r')"
  shows "rr_inv ops ok r'" "rr_max_bytes r' = rr_max_bytes r" "rr_locked r' = rr_locked r"
    "rr_pending r' = rr_pending r" "rr_detached r' = rr_detached r" "ra_owns a' = ra_owns a"
    "ec_fails e \<longleftrightarrow> \<not> ra_owns a \<or> erb_Size ops (rr_ring r) < n"
    "rr_stream ops r' = (if ec_fails e then rr_stream ops r else drop n (rr_stream ops r))"
    "\<not> ec_fails e \<Longrightarrow> ra_changed a'"
proof -
  obtain e1 b where d: "erb_Discard ops (rr_ring r) n = (e1, b)" by fastforce
  have "erb_inv ops ok (rr_ring r)" using inv by (simp add: rr_inv_def)
  note dc = erb_Discard_correct [OF this d]
  show "rr_inv ops ok r'" "rr_max_bytes r' = rr_max_bytes r" "rr_locked r' = rr_locked r"
    "rr_pending r' = rr_pending r" "rr_detached r' = rr_detached r" "ra_owns a' = ra_owns a"
    "ec_fails e \<longleftrightarrow> \<not> ra_owns a \<or> erb_Size ops (rr_ring r) < n"
    "rr_stream ops r' = (if ec_fails e then rr_stream ops r else drop n (rr_stream ops r))"
    "\<not> ec_fails e \<Longrightarrow> ra_changed a'"
    using con d dc inv
    by (auto simp: ra_Consume_def rr_LockedDiscard_def Let_def rr_inv_def rr_stream_def erb_Size_bytes
        split: if_splits)
qed

lemma ra_ConsumeInto_correct:
  assumes inv: "rr_inv ops ok r" and con: "ra_ConsumeInto ops env a r out = (e, out', a', r')"
  shows "rr_inv ops ok r'" "rr_max_bytes r' = rr_max_bytes r" "rr_locked r' = rr_locked r"
    "rr_pending r' = rr_pending r" "rr_detached r' = rr_detached r" "ra_owns a' = ra_owns a"
    "\<exists>got. out' = out @ got \<and> rr_stream ops r = got @ rr_stream ops r' \<and> (ec_fails e \<longrightarrow> got = [])"
proof -
  obtain e1 b o1 n where cc: "rr_caught_copy ops (env_mem env) (rr_ring r) out = (e1, b, o1, n)"
    by (cases "rr_caught_copy ops (env_mem env) (rr_ring r) out") auto
  have "erb_inv ops ok (rr_ring r)" using inv by (simp add: rr_inv_def)
  note cp = rr_caught_copy_correct [OF this cc]
  show "rr_inv ops ok r'" "rr_max_bytes r' = rr_max_bytes r" "rr_locked r' = rr_locked r"
    "rr_pending r' = rr_pending r" "rr_detached r' = rr_detached r" "ra_owns a' = ra_owns a"
    "\<exists>got. out' = out @ got \<and> rr_stream ops r = got @ rr_stream ops r' \<and> (ec_fails e \<longrightarrow> got = [])"
    using con cc cp inv
    by (auto simp: ra_ConsumeInto_def rr_LockedConsumeInto_def Let_def rr_inv_def rr_stream_def
        split: if_splits)
qed

lemma ra_Release_correct:
  assumes "ra_Release env a r = (a', r')"
  shows "rr_inv ops ok r' = rr_inv ops ok r" "rr_stream ops r' = rr_stream ops r"
    "rr_max_bytes r' = rr_max_bytes r" "rr_pending r' = rr_pending r" "rr_detached r' = rr_detached r"
    "\<not> ra_owns a'" "ra_owns a \<Longrightarrow> \<not> rr_locked r'" "\<not> ra_owns a \<Longrightarrow> r' = r"
  using assms
  by (cases "ra_owns a"; cases "ra_changed a";
      force simp: ra_Release_def rr_AfterProtectionRelease_def rr_inv_def rr_stream_def)+

end

section \<open>The published error\<close>

lemma drop_bit_low_half: "drop_bit 32 (ucast (w :: u32) :: u64) = 0"
  by (rule bit_word_eqI) (auto simp: bit_drop_bit_eq bit_ucast_iff dest: bit_imp_le_length)

lemma rr_pack_kind: "drop_bit 32 (rr_pack_error e) = (if ec_category e = NetCategory then 2 else 1)"
  by (simp add: rr_pack_error_def drop_bit_low_half)

lemma ucast_low_half: "(ucast (or (push_bit 32 (k :: u64)) (ucast w)) :: u32) = w"
  by (rule bit_word_eqI) (auto simp: bit_ucast_iff bit_or_iff bit_push_bit_iff)

lemma rr_pack_low: "(ucast (rr_pack_error e) :: u32) = word_of_int (ec_value e)"
  unfolding rr_pack_error_def Let_def by (rule ucast_low_half)

lemma sint_u32_id: "- (2 ^ 31) \<le> v \<Longrightarrow> v < 2 ^ 31 \<Longrightarrow> sint (word_of_int v :: u32) = v"
  by (simp add: int_word_sint)

section \<open>Properties\<close>

text \<open>What a reader gets from \<^verbatim>\<open>TryRead\<close>, as long as the stored bytes respect the limit of the
  ring. A successful read appends to the caller's string a non-empty prefix of the
  received stream (ring, deferred and detached bytes, in this order) and leaves exactly the
  rest; with memory it takes everything. Any other result leaves the string and the
  stream untouched; a terminal result reports the terminal state, and, with memory, only when
  every received byte has been read.\<close>

theorem receive_ring_try_read:
  assumes "byte_ring ops ok" and "rr_inv ops ok r"
    and "length (rr_stream ops r) \<le> rr_max_bytes r"
    and "rr_TryRead ops env r out = Some (res, out', r')"
  shows "rr_inv ops ok r' \<and>
    (if rr_status res = RsOk
     then \<exists>got. got \<noteq> [] \<and> out' = out @ got \<and> rr_bytes res = length got
            \<and> rr_stream ops r = got @ rr_stream ops r'
            \<and> (env_detached_mem env \<longrightarrow> rr_stream ops r' = [])
     else out' = out \<and> rr_stream ops r' = rr_stream ops r
        \<and> (rr_status res = RsBusy \<longleftrightarrow> rr_locked r)
        \<and> (rr_status res \<in> {RsEof, RsWouldBlock} \<longrightarrow> res = rr_TerminalLocked r
             \<and> (env_detached_mem env \<longrightarrow> rr_stream ops r = [])))"
proof -
  have "rr_inv ops ok r'" using byte_ring.rr_TryRead_inv [OF assms] by blast
  with byte_ring.rr_TryRead_cases [OF assms] show ?thesis
    by (cases rule: byte_ring.rr_TryRead_cases [OF assms]) auto
qed

definition calm_env :: ring_env where
  "calm_env = \<lparr>env_mem = True, env_flush_mem = True, env_detached_mem = True,
     env_retry_notify_ok = True, env_retry_wake_ok = True, env_notify_ok = True, env_wake_ok = True\<rparr>"

definition starved_env :: ring_env where
  "starved_env = calm_env\<lparr>env_mem := False, env_flush_mem := False, env_detached_mem := False\<rparr>"

definition sample_ring :: "byte vector_ring ReceiveRing" where
  "sample_ring = snd (rr_StageDetached calm_env (snd (rr_AppendDeferred vector_ring_ops calm_env
     (snd (rr_TryAppend vector_ring_ops calm_env (rr_init vector_ring_ops 8) [1, 2])) [3, 4])) [5])"

lemma sample_ring_inv: "rr_inv vector_ring_ops vr_ok sample_ring" "rr_max_bytes sample_ring = 8"
  "rr_stream vector_ring_ops sample_ring = [1, 2, 3, 4, 5]"
proof -
  obtain s1 r1 where r1: "rr_TryAppend vector_ring_ops calm_env (rr_init vector_ring_ops 8) [1, 2] = (s1, r1)"
    by fastforce
  obtain s2 r2 where r2: "rr_AppendDeferred vector_ring_ops calm_env r1 [3, 4] = (s2, r2)" by fastforce
  obtain s3 r3 where r3: "rr_StageDetached calm_env r2 [5] = (s3, r3)" by fastforce
  have "rr_inv vector_ring_ops vr_ok r1" using vector_bytes.rr_TryAppend_correct(1)
      [OF vector_bytes.rr_init_correct(1) r1] by simp
  from vector_bytes.rr_AppendDeferred_correct(1) [OF this r2]
  have "rr_inv vector_ring_ops vr_ok r2" .
  from vector_bytes.rr_StageDetached_correct(1) [OF this r3]
  show "rr_inv vector_ring_ops vr_ok sample_ring" by (simp add: sample_ring_def r1 r2 r3)
  show "rr_max_bytes sample_ring = 8" "rr_stream vector_ring_ops sample_ring = [1, 2, 3, 4, 5]"
    by code_simp+
qed

theorem receive_ring_try_read_witness:
  "\<exists>res r'. rr_TryRead vector_ring_ops calm_env sample_ring [9] = Some (res, [9, 1, 2, 3, 4, 5], r')
     \<and> rr_inv vector_ring_ops vr_ok r' \<and> rr_stream vector_ring_ops r' = []"
proof -
  have "(case rr_TryRead vector_ring_ops calm_env sample_ring [9] of None \<Rightarrow> False
     | Some (res, out, r') \<Rightarrow> rr_status res = RsOk \<and> out = [9, 1, 2, 3, 4, 5])" by code_simp
  then obtain res r' where rd: "rr_TryRead vector_ring_ops calm_env sample_ring [9]
      = Some (res, [9, 1, 2, 3, 4, 5], r')" "rr_status res = RsOk" by (auto split: option.splits)
  from receive_ring_try_read [OF vector_bytes.byte_ring_axioms sample_ring_inv(1) _ rd(1)] rd
  show ?thesis by (auto simp: sample_ring_inv calm_env_def)
qed

text \<open>\<^verbatim>\<open>TryPopAll\<close> hands over the whole received stream as at most four non-empty segments whose
  concatenation is the stream in order and leaves the ring empty, or hands over nothing and
  leaves the stream as it was; end of stream is reported only when nothing is left.\<close>

theorem receive_ring_pop_all:
  assumes "byte_ring ops ok" and "rr_inv ops ok r" and "rr_TryPopAll ops env r = (res, r')"
  shows "rr_inv ops ok r' \<and>
    (case pr_takeout res of
       Some t \<Rightarrow> pr_status res = RsOk \<and> concat (pt_segments t) = rr_stream ops r
         \<and> [] \<notin> set (pt_segments t) \<and> length (pt_segments t) \<le> 4 \<and> rr_stream ops r' = []
     | None \<Rightarrow> pr_status res \<noteq> RsOk \<and> rr_stream ops r' = rr_stream ops r
         \<and> (pr_status res = RsEof \<longrightarrow> rr_stream ops r = []))"
  using byte_ring.rr_TryPopAll_correct [OF assms] by (auto split: option.splits)

theorem receive_ring_pop_all_witness:
  "\<exists>res t r'. rr_TryPopAll vector_ring_ops calm_env sample_ring = (res, r')
     \<and> pr_takeout res = Some t \<and> pt_segments t = [[1, 2], [3, 4], [5]]
     \<and> concat (pt_segments t) = rr_stream vector_ring_ops sample_ring
     \<and> rr_stream vector_ring_ops r' = []"
proof -
  obtain res r' where pop: "rr_TryPopAll vector_ring_ops calm_env sample_ring = (res, r')" by fastforce
  have "map_option pt_segments (pr_takeout (fst (rr_TryPopAll vector_ring_ops calm_env sample_ring)))
      = Some [[1, 2], [3, 4], [5]]" by code_simp
  then obtain t where "pr_takeout res = Some t" "pt_segments t = [[1, 2], [3, 4], [5]]"
    by (auto simp: pop)
  with pop receive_ring_pop_all [OF vector_bytes.byte_ring_axioms sample_ring_inv(1) pop]
  show ?thesis by auto
qed

text \<open>An append grant is real: when the owner is granted bytes, no reader holds the data lock,
  the grant stays within the request and the limit of the ring, nothing already stored moves, and
  appending up to the granted number of bytes to the ring succeeds without any allocation.\<close>

theorem receive_ring_grant_is_real:
  assumes "byte_ring ops ok" and "rr_inv ops ok r"
    and "rr_TryReserveForAppend ops env r want = Some (g, r')" and "ag_granted g \<noteq> 0"
    and "length data \<le> ag_granted g"
  shows "\<not> rr_locked r \<and> ag_granted g \<le> want
    \<and> length (rr_stream ops r) + ag_granted g \<le> rr_max_bytes r \<and> rr_stream ops r' = rr_stream ops r
    \<and> (\<exists>b. erb_Append ops False (rr_ring r') data = Some (no_error, b)
         \<and> erb_bytes ops b = erb_bytes ops (rr_ring r') @ data)"
proof -
  note g = byte_ring.rr_TryReserveForAppend_correct [OF assms(1-3)]
  have inv: "erb_inv ops ok (rr_ring r')" using g(1) by (simp add: rr_inv_def)
  have "erb_Size ops (rr_ring r') \<le> length (rr_stream ops r')"
    using byte_ring.erb_Size_bytes [OF assms(1)] by (simp add: rr_stream_def)
  then have "erb_Size ops (rr_ring r') + length data \<le> erb_Capacity ops (rr_ring r')"
    using g(2) g(7) [OF assms(4)] assms(5) by simp
  from byte_ring.erb_Append_reserved [OF assms(1) inv this, of False]
  obtain b where b: "erb_Append ops False (rr_ring r') data = Some (no_error, b)" by blast
  with byte_ring.erb_Append_correct [OF assms(1) inv b] g(2) g(7) [OF assms(4)] show ?thesis by simp
qed

theorem receive_ring_grant_is_real_witness:
  "\<exists>r' b. rr_TryReserveForAppend vector_ring_ops calm_env (rr_init vector_ring_ops 8) 100
       = Some (\<lparr>ag_status = RsOk, ag_granted = 8, ag_error = no_error\<rparr>, r')
     \<and> erb_Append vector_ring_ops False (rr_ring r') [1, 2, 3] = Some (no_error, b)"
proof -
  have "(case rr_TryReserveForAppend vector_ring_ops calm_env (rr_init vector_ring_ops 8) 100 of
      None \<Rightarrow> False | Some (g, r') \<Rightarrow> g = \<lparr>ag_status = RsOk, ag_granted = 8, ag_error = no_error\<rparr>)"
    by code_simp
  then obtain r' where g: "rr_TryReserveForAppend vector_ring_ops calm_env (rr_init vector_ring_ops 8) 100
       = Some (\<lparr>ag_status = RsOk, ag_granted = 8, ag_error = no_error\<rparr>, r')"
    by (auto split: option.splits)
  from receive_ring_grant_is_real [OF vector_bytes.byte_ring_axioms
      vector_bytes.rr_init_correct(1) g, of "[1, 2, 3]"] g show ?thesis by auto
qed

text \<open>A network error published by the owner is the one the readers see once the stream is drained;
  any other error comes back with its value, but in the system category.\<close>

theorem receive_ring_error_roundtrip:
  assumes "- (2 ^ 31) \<le> ec_value e" and "ec_value e < 2 ^ 31"
  shows "rr_ReadError (rr_MarkError env r e)
    = (if ec_category e = NetCategory then e else e\<lparr>ec_category := SystemCategory\<rparr>)
    \<and> rr_TerminalLocked (rr_MarkError env r e)
    = \<lparr>rr_status = RsError, rr_bytes = 0, rr_failure = rr_ReadError (rr_MarkError env r e)\<rparr>"
  using rr_pack_kind [of e] rr_pack_low [of e] sint_u32_id [OF assms]
  by (cases "ec_category e")
    (simp_all add: rr_ReadError_def rr_MarkError_def rr_TerminalLocked_def Let_def)

theorem receive_ring_error_roundtrip_witness:
  "rr_ReadError (rr_MarkError calm_env (rr_init vector_ring_ops 8) (make_error_code NetRejected))
     = make_error_code NetRejected
   \<and> rr_ReadError (rr_MarkError calm_env (rr_init vector_ring_ops 8) (make_errc timed_out))
     = \<lparr>ec_category = SystemCategory, ec_value = 110\<rparr>"
  using receive_ring_error_roundtrip [of "make_error_code NetRejected" calm_env "rr_init vector_ring_ops 8"]
    receive_ring_error_roundtrip [of "make_errc timed_out" calm_env "rr_init vector_ring_ops 8"]
  by (simp add: make_error_code_def make_errc_def)

text \<open>Without memory to merge them, the detached bytes stay behind while the terminal state is
  already reported: a reader of a closed connection is told end of stream although received bytes
  are still stored.\<close>

theorem receive_ring_early_eof:
  "\<exists>r res. rr_inv vector_ring_ops vr_ok r \<and> rr_stream vector_ring_ops r = [5]
     \<and> (\<exists>r'. rr_TryRead vector_ring_ops starved_env r [] = Some (res, [], r')
         \<and> rr_stream vector_ring_ops r' = [5]) \<and> rr_status res = RsEof"
proof -
  let ?r = "rr_MarkClosed calm_env (snd (rr_StageDetached calm_env (rr_init vector_ring_ops 8) [5]))"
  have "case rr_TryRead vector_ring_ops starved_env ?r [] of None \<Rightarrow> False
    | Some (res, out, r') \<Rightarrow> rr_status res = RsEof \<and> out = [] \<and> rr_stream vector_ring_ops r' = [5]"
    by code_simp
  moreover have "rr_stream vector_ring_ops ?r = [5]" by code_simp
  moreover have "rr_inv vector_ring_ops vr_ok ?r"
    using vector_bytes.rr_StageDetached_correct(1) [OF vector_bytes.rr_init_correct(1) [of 8] prod.collapse [symmetric], of calm_env "[5]"]
    by (simp add: rr_MarkClosed_def rr_inv_def)
  ultimately show ?thesis by (fastforce split: option.splits)
qed

end
