(* ===== verification/ReadPump.thy ===== *)
theory ReadPump
  imports ReceiveRing
begin

text \<open>
  The owner's read pump of a connection (\<^verbatim>\<open>ConnCore\<close> in \<^verbatim>\<open>bbt/infra/net/Engine.cc\<close>):
  \<^verbatim>\<open>DoReadsOwner\<close>, \<^verbatim>\<open>SubmitReceivedOwner\<close>, \<^verbatim>\<open>StageHoldToRing\<close> and the read side of
  \<^verbatim>\<open>ShutdownOwner\<close>, run against readers on other threads. Each critical section of the
  receive ring is one step, so the program counter \<open>owner_pc\<close> names the points between them
  where a reader can interleave. Readers use \<^verbatim>\<open>TryRead\<close>, \<^verbatim>\<open>TryPopAll\<close> or a
  \<^verbatim>\<open>ReadAccess\<close> guard. The ghost fields \<open>cp_received\<close> and \<open>cp_delivered\<close> record the bytes taken
  from the kernel and the bytes handed to readers. The step relation is proved to keep an
  invariant that makes the two streams agree.
\<close>

definition kReadChunk :: nat where
  "kReadChunk = 16 * 1024"

definition kReadBudget :: nat where
  "kReadBudget = 8"

section \<open>State\<close>

datatype submit_from = FromHold | FromLoop nat

datatype owner_pc =
    OwnerIdle
  | OwnerLoop nat
  | OwnerGranted nat nat
  | OwnerAppend submit_from nat
  | OwnerDefer submit_from nat

datatype recv_outcome = RecvBytes "byte list" | RecvEof | RecvAgain | RecvIntr | RecvError int

record 'c ConnPump =
  cp_ring :: "'c ReceiveRing"
  cp_buf :: "byte list"
  cp_hold :: nat
  cp_pc :: owner_pc
  cp_read_paused :: bool
  cp_read_stopped :: bool
  cp_backend_closed :: bool
  cp_ring_closed :: bool
  cp_closed :: bool
  cp_guard :: ReadAccess
  cp_received :: "byte list"
  cp_delivered :: "byte list"

definition cp_init :: "('c, byte) cb_ops \<Rightarrow> nat \<Rightarrow> 'c ConnPump" where
  "cp_init ops n = \<lparr>cp_ring = rr_init ops n, cp_buf = [], cp_hold = 0, cp_pc = OwnerIdle,
     cp_read_paused = False, cp_read_stopped = False, cp_backend_closed = False,
     cp_ring_closed = False, cp_closed = False,
     cp_guard = \<lparr>ra_owns = False, ra_changed = False\<rparr>, cp_received = [], cp_delivered = []\<rparr>"

section \<open>The owner\<close>

text \<open>The resume branch of \<^verbatim>\<open>PumpOwner\<close>: a paused pump restarts below the low-water mark.\<close>

definition owner_resume :: "nat \<Rightarrow> 'c ConnPump \<Rightarrow> 'c ConnPump" where
  "owner_resume low_water s =
     (if cp_read_paused s \<and> rr_Size (cp_ring s) < low_water then s\<lparr>cp_read_paused := False\<rparr> else s)"

text \<open>The check between a resubmitted hold and the loop: deferred bytes must be merged first.\<close>

definition owner_enter_loop :: "'c ConnPump \<Rightarrow> 'c ConnPump" where
  "owner_enter_loop s =
     (if rr_pending_size (cp_ring s) \<noteq> 0 then s\<lparr>cp_pc := OwnerIdle\<rparr> else s\<lparr>cp_pc := OwnerLoop 0\<rparr>)"

definition owner_begin :: "'c ConnPump \<Rightarrow> 'c ConnPump" where
  "owner_begin s =
     (if cp_closed s \<or> cp_read_paused s \<or> cp_read_stopped s then s
      else if cp_hold s > 0 then s\<lparr>cp_pc := OwnerAppend FromHold (cp_hold s)\<rparr>
      else owner_enter_loop s)"

definition owner_loop :: "('c, byte) cb_ops \<Rightarrow> ring_env \<Rightarrow> nat \<Rightarrow> 'c ConnPump \<Rightarrow> 'c ConnPump" where
  "owner_loop ops env i s =
     (if i \<ge> kReadBudget then s\<lparr>cp_pc := OwnerIdle\<rparr>
      else
        let used = rr_Size (cp_ring s);
            available = (if rr_max_bytes (cp_ring s) > used then rr_max_bytes (cp_ring s) - used else 0)
        in if available = 0 then s\<lparr>cp_pc := OwnerIdle, cp_read_paused := True\<rparr>
           else case rr_TryReserveForAppend ops env (cp_ring s) (min kReadChunk available) of
             None \<Rightarrow> s\<lparr>cp_pc := OwnerIdle\<rparr>
           | Some (grant, ring') \<Rightarrow>
               (if ag_status grant = RsBusy then s\<lparr>cp_ring := ring', cp_pc := OwnerIdle\<rparr>
                else if ag_granted grant = 0
                then s\<lparr>cp_ring := ring', cp_pc := OwnerIdle, cp_read_paused := True\<rparr>
                else s\<lparr>cp_ring := ring', cp_pc := OwnerGranted i (ag_granted grant)\<rparr>))"

definition owner_recv :: "ring_env \<Rightarrow> nat \<Rightarrow> recv_outcome \<Rightarrow> 'c ConnPump \<Rightarrow> 'c ConnPump" where
  "owner_recv env i outcome s =
     (case outcome of
        RecvBytes xs \<Rightarrow> s\<lparr>cp_buf := xs, cp_pc := OwnerAppend (FromLoop i) (length xs),
                          cp_received := cp_received s @ xs\<rparr>
      | RecvEof \<Rightarrow> s\<lparr>cp_pc := OwnerIdle, cp_read_stopped := True, cp_ring := rr_MarkEof env (cp_ring s)\<rparr>
      | RecvAgain \<Rightarrow> s\<lparr>cp_pc := OwnerIdle\<rparr>
      | RecvIntr \<Rightarrow> s\<lparr>cp_pc := OwnerLoop (i + 1)\<rparr>
      | RecvError e \<Rightarrow> s\<lparr>cp_pc := OwnerIdle, cp_read_stopped := True,
          cp_ring := rr_MarkError env (cp_ring s) \<lparr>ec_category = SystemCategory, ec_value = e\<rparr>\<rparr>)"

text \<open>What \<^verbatim>\<open>SubmitReceivedOwner\<close> leaves: the bytes stored, or held for the next attempt.\<close>

definition owner_submitted :: "submit_from \<Rightarrow> 'c ConnPump \<Rightarrow> 'c ConnPump" where
  "owner_submitted from s =
     (let s1 = s\<lparr>cp_hold := 0\<rparr>
      in case from of
           FromHold \<Rightarrow> owner_enter_loop s1
         | FromLoop i \<Rightarrow>
             (if rr_pending_size (cp_ring s1) \<noteq> 0
              then s1\<lparr>cp_read_paused := True, cp_pc := OwnerIdle\<rparr>
              else s1\<lparr>cp_pc := OwnerLoop (i + 1)\<rparr>))"

definition owner_held :: "nat \<Rightarrow> 'c ConnPump \<Rightarrow> 'c ConnPump" where
  "owner_held count s = s\<lparr>cp_hold := count, cp_pc := OwnerIdle\<rparr>"

definition owner_append ::
  "('c, byte) cb_ops \<Rightarrow> ring_env \<Rightarrow> submit_from \<Rightarrow> nat \<Rightarrow> 'c ConnPump \<Rightarrow> 'c ConnPump" where
  "owner_append ops env from count s =
     (let (appended, ring') = rr_TryAppend ops env (cp_ring s) (take count (cp_buf s));
          s1 = s\<lparr>cp_ring := ring'\<rparr>
      in if rr_status appended = RsBusy then s1\<lparr>cp_pc := OwnerDefer from count\<rparr>
         else if ec_fails (rr_failure appended) then owner_held count s1
         else owner_submitted from s1)"

definition owner_defer ::
  "('c, byte) cb_ops \<Rightarrow> ring_env \<Rightarrow> submit_from \<Rightarrow> nat \<Rightarrow> 'c ConnPump \<Rightarrow> 'c ConnPump" where
  "owner_defer ops env from count s =
     (let (stored, ring') = rr_AppendDeferred ops env (cp_ring s) (take count (cp_buf s));
          s1 = s\<lparr>cp_ring := ring'\<rparr>
      in if stored then owner_submitted from s1 else owner_held count s1)"

fun owner_step :: "('c, byte) cb_ops \<Rightarrow> ring_env \<Rightarrow> recv_outcome \<Rightarrow> owner_pc \<Rightarrow> 'c ConnPump \<Rightarrow> 'c ConnPump" where
  "owner_step ops env outcome OwnerIdle s = owner_begin s"
| "owner_step ops env outcome (OwnerLoop i) s = owner_loop ops env i s"
| "owner_step ops env outcome (OwnerGranted i n) s = owner_recv env i outcome s"
| "owner_step ops env outcome (OwnerAppend from count) s = owner_append ops env from count s"
| "owner_step ops env outcome (OwnerDefer from count) s = owner_defer ops env from count s"

text \<open>What the kernel can answer: at most the granted bytes, and none once the descriptor is
  closed.\<close>

fun recv_valid :: "'c ConnPump \<Rightarrow> owner_pc \<Rightarrow> recv_outcome \<Rightarrow> bool" where
  "recv_valid s (OwnerGranted i n) (RecvBytes xs) \<longleftrightarrow> xs \<noteq> [] \<and> length xs \<le> n \<and> \<not> cp_backend_closed s"
| "recv_valid s pc outcome \<longleftrightarrow> True"

definition StageHoldToRing :: "ring_env \<Rightarrow> 'c ConnPump \<Rightarrow> bool \<times> 'c ConnPump" where
  "StageHoldToRing env s =
     (if cp_hold s = 0 then (True, s)
      else let (staged, ring') = rr_StageDetached env (cp_ring s) (take (cp_hold s) (cp_buf s))
           in if \<not> staged then (False, s\<lparr>cp_ring := ring'\<rparr>)
              else (True, s\<lparr>cp_ring := ring', cp_hold := 0\<rparr>))"

text \<open>The read side of \<^verbatim>\<open>ShutdownOwner\<close> and \<^verbatim>\<open>CancelControl\<close>: stage the hold, close the
  descriptor, then publish the end of the stream.\<close>

definition owner_shutdown :: "ring_env \<Rightarrow> ring_env \<Rightarrow> 'c ConnPump \<Rightarrow> 'c ConnPump" where
  "owner_shutdown env1 env2 s =
     (if cp_closed s then s
      else let (staged, s1) = (if cp_backend_closed s then (True, s) else StageHoldToRing env1 s)
           in if \<not> staged then s1
              else let s2 = s1\<lparr>cp_backend_closed := True\<rparr>;
                       s3 = (if cp_ring_closed s2 then s2
                             else s2\<lparr>cp_ring := rr_MarkClosed env2 (cp_ring s2), cp_ring_closed := True\<rparr>)
                   in s3\<lparr>cp_closed := True\<rparr>)"

section \<open>Readers\<close>

datatype reader_action = RdRead | RdPopAll | RdAccess | RdConsume nat | RdConsumeInto | RdRelease

definition cp_deliver :: "'c ReceiveRing \<Rightarrow> byte list \<Rightarrow> 'c ConnPump \<Rightarrow> 'c ConnPump" where
  "cp_deliver r got s = s\<lparr>cp_ring := r, cp_delivered := cp_delivered s @ got\<rparr>"

text \<open>An exception out of the flush changes the notifications only.\<close>

fun reader_step :: "('c, byte) cb_ops \<Rightarrow> ring_env \<Rightarrow> reader_action \<Rightarrow> 'c ConnPump \<Rightarrow> 'c ConnPump" where
  "reader_step ops env RdRead s =
     (case rr_TryRead ops env (cp_ring s) [] of
        None \<Rightarrow> s\<lparr>cp_ring := rr_RetryPendingNotification env (cp_ring s)\<rparr>
      | Some (res, out, r') \<Rightarrow> cp_deliver r' out s)"
| "reader_step ops env RdPopAll s =
     (let (res, r') = rr_TryPopAll ops env (cp_ring s)
      in cp_deliver r' (case pr_takeout res of None \<Rightarrow> [] | Some t \<Rightarrow> concat (pt_segments t)) s)"
| "reader_step ops env RdAccess s =
     (case rr_TryAccessAttempt ops env (cp_ring s) of
        None \<Rightarrow> s\<lparr>cp_ring := rr_RetryPendingNotification env (cp_ring s)\<rparr>
      | Some ((st, e), r') \<Rightarrow>
          (if st = RsOk then s\<lparr>cp_ring := r', cp_guard := \<lparr>ra_owns = True, ra_changed = False\<rparr>\<rparr>
           else s\<lparr>cp_ring := r'\<rparr>))"
| "reader_step ops env (RdConsume n) s =
     (let (e, a, r') = ra_Consume ops (cp_guard s) (cp_ring s) n
      in (cp_deliver r' (if ec_fails e then [] else take n (erb_bytes ops (rr_ring (cp_ring s)))) s)
           \<lparr>cp_guard := a\<rparr>)"
| "reader_step ops env RdConsumeInto s =
     (let (e, out, a, r') = ra_ConsumeInto ops env (cp_guard s) (cp_ring s) []
      in (cp_deliver r' out s)\<lparr>cp_guard := a\<rparr>)"
| "reader_step ops env RdRelease s =
     (let (a, r') = ra_Release env (cp_guard s) (cp_ring s) in s\<lparr>cp_ring := r', cp_guard := a\<rparr>)"

section \<open>Steps\<close>

inductive pump_step :: "('c, byte) cb_ops \<Rightarrow> 'c ConnPump \<Rightarrow> 'c ConnPump \<Rightarrow> bool" for ops where
  resume: "cp_pc s = OwnerIdle \<Longrightarrow> pump_step ops s (owner_resume low_water s)"
| owner: "recv_valid s (cp_pc s) outcome \<Longrightarrow> pump_step ops s (owner_step ops env outcome (cp_pc s) s)"
| shutdown: "cp_pc s = OwnerIdle \<Longrightarrow> pump_step ops s (owner_shutdown env1 env2 s)"
| reader: "pump_step ops s (reader_step ops env action s)"

inductive_cases pump_stepE: "pump_step ops s t"

section \<open>Invariant\<close>

text \<open>The bytes taken from the kernel that only the owner's buffer holds.\<close>

fun cp_inflight :: "owner_pc \<Rightarrow> 'c ConnPump \<Rightarrow> byte list" where
  "cp_inflight (OwnerAppend from count) s = take count (cp_buf s)"
| "cp_inflight (OwnerDefer from count) s = take count (cp_buf s)"
| "cp_inflight pc s = take (cp_hold s) (cp_buf s)"

definition cp_own :: "'c ConnPump \<Rightarrow> byte list" where
  "cp_own s = cp_inflight (cp_pc s) s"

fun pc_inv :: "owner_pc \<Rightarrow> 'c ConnPump \<Rightarrow> nat \<Rightarrow> bool" where
  "pc_inv OwnerIdle s room \<longleftrightarrow> True"
| "pc_inv (OwnerLoop i) s room \<longleftrightarrow> cp_hold s = 0 \<and> rr_pending (cp_ring s) = []"
| "pc_inv (OwnerGranted i n) s room \<longleftrightarrow> cp_hold s = 0 \<and> rr_pending (cp_ring s) = [] \<and> n \<le> room"
| "pc_inv (OwnerAppend from n) s room \<longleftrightarrow> 0 < n \<and> n \<le> length (cp_buf s)"
| "pc_inv (OwnerDefer from n) s room \<longleftrightarrow> 0 < n \<and> n \<le> length (cp_buf s)"

definition cp_inv :: "('c, byte) cb_ops \<Rightarrow> ('c \<Rightarrow> bool) \<Rightarrow> nat \<Rightarrow> 'c ConnPump \<Rightarrow> bool" where
  "cp_inv ops ok limit s \<longleftrightarrow> rr_inv ops ok (cp_ring s) \<and> rr_max_bytes (cp_ring s) = limit
     \<and> cp_hold s \<le> length (cp_buf s)
     \<and> length (rr_stream ops (cp_ring s)) + length (cp_own s) \<le> limit
     \<and> pc_inv (cp_pc s) s (limit - length (rr_stream ops (cp_ring s)))
     \<and> (cp_own s \<noteq> [] \<longrightarrow> rr_pending (cp_ring s) = [] \<and> \<not> cp_backend_closed s)
     \<and> (rr_detached (cp_ring s) \<noteq> [] \<longrightarrow> cp_backend_closed s)
     \<and> (cp_closed s \<longrightarrow> cp_backend_closed s)
     \<and> cp_received s = cp_delivered s @ rr_stream ops (cp_ring s) @ cp_own s"

lemmas cp_inv_simps = cp_inv_def cp_own_def

text \<open>A step of the readers only moves a prefix of the stream to the delivered bytes and
  never adds deferred or detached bytes.\<close>

lemma cp_inv_reader:
  assumes "cp_inv ops ok limit s" "rr_inv ops ok r" "rr_max_bytes r = rr_max_bytes (cp_ring s)"
    and "rr_stream ops (cp_ring s) = got @ rr_stream ops r"
    and "rr_pending r = [] \<or> rr_pending r = rr_pending (cp_ring s)"
    and "rr_detached r = [] \<or> rr_detached r = rr_detached (cp_ring s)"
  shows "cp_inv ops ok limit (cp_deliver r got s)"
proof -
  have own: "cp_own (cp_deliver r got s) = cp_own s"
    by (cases "cp_pc s") (simp_all add: cp_own_def cp_deliver_def)
  have frame: "cp_ring (cp_deliver r got s) = r" "cp_hold (cp_deliver r got s) = cp_hold s"
    "cp_buf (cp_deliver r got s) = cp_buf s" "cp_pc (cp_deliver r got s) = cp_pc s"
    "cp_backend_closed (cp_deliver r got s) = cp_backend_closed s"
    "cp_closed (cp_deliver r got s) = cp_closed s" "cp_received (cp_deliver r got s) = cp_received s"
    "cp_delivered (cp_deliver r got s) = cp_delivered s @ got"
    by (simp_all add: cp_deliver_def)
  have pc: "pc_inv (cp_pc s) (cp_deliver r got s) (limit - length (rr_stream ops r))"
    using assms(1,4,5) by (cases "cp_pc s") (auto simp: cp_inv_def frame)
  have len: "length (rr_stream ops r) \<le> length (rr_stream ops (cp_ring s))" by (simp add: assms(4))
  have own_inv: "cp_own s \<noteq> [] \<Longrightarrow> rr_pending r = [] \<and> \<not> cp_backend_closed s"
    and det: "rr_detached r \<noteq> [] \<Longrightarrow> cp_backend_closed s"
    using assms(1,5,6) unfolding cp_inv_def by metis+
  have "cp_received s = (cp_delivered s @ got) @ rr_stream ops r @ cp_own s"
    using assms(1,4) by (simp add: cp_inv_def)
  with assms(1,2,3) own_inv det len pc show ?thesis unfolding cp_inv_def own frame by linarith
qed

lemma cp_inv_guard [simp]: "cp_inv ops ok limit (s\<lparr>cp_guard := a\<rparr>) = cp_inv ops ok limit s"
  by (cases "cp_pc s") (simp_all add: cp_inv_simps)

lemma cp_deliver_Nil: "cp_deliver r [] s = s\<lparr>cp_ring := r\<rparr>"
  by (simp add: cp_deliver_def)

context byte_ring
begin

lemma reader_step_inv:
  assumes inv: "cp_inv ops ok limit s"
  shows "cp_inv ops ok limit (reader_step ops env act s)"
proof -
  have r: "rr_inv ops ok (cp_ring s)" and b: "length (rr_stream ops (cp_ring s)) \<le> rr_max_bytes (cp_ring s)"
    using inv by (auto simp: cp_inv_def)
  have retry: "cp_inv ops ok limit (s\<lparr>cp_ring := rr_RetryPendingNotification env (cp_ring s)\<rparr>)"
    unfolding cp_deliver_Nil [symmetric] using inv r by (intro cp_inv_reader) simp_all
  show ?thesis
  proof (cases act)
    case RdRead
    show ?thesis
    proof (cases "rr_TryRead ops env (cp_ring s) []")
      case None
      then show ?thesis using RdRead retry by simp
    next
      case (Some x)
      obtain res out r' where rd: "rr_TryRead ops env (cp_ring s) [] = Some (res, out, r')"
        using Some by (cases x) auto
      note i = rr_TryRead_inv [OF r b rd]
      from r b rd have "rr_stream ops (cp_ring s) = out @ rr_stream ops r'
          \<and> (rr_pending r' = [] \<or> rr_pending r' = rr_pending (cp_ring s))
          \<and> (rr_detached r' = [] \<or> rr_detached r' = rr_detached (cp_ring s))"
        by (cases rule: rr_TryRead_cases) auto
      then show ?thesis using RdRead rd cp_inv_reader [OF inv i(1) i(2)] by simp
    qed
  next
    case RdPopAll
    obtain res r' where pop: "rr_TryPopAll ops env (cp_ring s) = (res, r')" by fastforce
    show ?thesis using rr_TryPopAll_correct [OF r pop] RdPopAll pop
      by (auto intro!: cp_inv_reader [OF inv] split: option.splits)
  next
    case RdAccess
    show ?thesis
    proof (cases "rr_TryAccessAttempt ops env (cp_ring s)")
      case None
      then show ?thesis using RdAccess retry by simp
    next
      case (Some x)
      obtain st e r' where acc: "rr_TryAccessAttempt ops env (cp_ring s) = Some ((st, e), r')"
        using Some by (cases x) auto
      note a = rr_TryAccessAttempt_correct [OF r b acc]
      have "cp_inv ops ok limit (s\<lparr>cp_ring := r'\<rparr>)"
        unfolding cp_deliver_Nil [symmetric] using a by (intro cp_inv_reader [OF inv]) simp_all
      then show ?thesis
        using RdAccess acc cp_inv_guard [where s = "s\<lparr>cp_ring := r'\<rparr>"] by simp
    qed
  next
    case (RdConsume n)
    obtain e a r' where con: "ra_Consume ops (cp_guard s) (cp_ring s) n = (e, a, r')"
      by (cases "ra_Consume ops (cp_guard s) (cp_ring s) n") auto
    note c = ra_Consume_correct [OF r con]
    have "rr_stream ops (cp_ring s)
        = (if ec_fails e then [] else take n (erb_bytes ops (rr_ring (cp_ring s)))) @ rr_stream ops r'"
      using c(7,8) by (auto simp: rr_stream_def erb_Size_bytes)
    then show ?thesis using RdConsume con c by (auto intro!: cp_inv_reader [OF inv])
  next
    case RdConsumeInto
    obtain e out a r' where con: "ra_ConsumeInto ops env (cp_guard s) (cp_ring s) [] = (e, out, a, r')"
      by (cases "ra_ConsumeInto ops env (cp_guard s) (cp_ring s) []") auto
    note c = ra_ConsumeInto_correct [OF r con]
    then show ?thesis using RdConsumeInto con by (auto intro!: cp_inv_reader [OF inv])
  next
    case RdRelease
    obtain a r' where rel: "ra_Release env (cp_guard s) (cp_ring s) = (a, r')" by fastforce
    have "cp_inv ops ok limit (s\<lparr>cp_ring := r'\<rparr>)"
      unfolding cp_deliver_Nil [symmetric] using ra_Release_correct [OF rel] r
      by (intro cp_inv_reader [OF inv]) simp_all
    then show ?thesis
      using RdRelease rel cp_inv_guard [where s = "s\<lparr>cp_ring := r'\<rparr>"] by simp
  qed
qed

lemma owner_enter_loop_inv:
  assumes "cp_inv ops ok limit s" "cp_hold s = 0" "cp_own s = []"
  shows "cp_inv ops ok limit (owner_enter_loop s)"
  using assms by (simp add: cp_inv_simps owner_enter_loop_def rr_inv_def)

lemma owner_begin_inv:
  assumes "cp_inv ops ok limit s" "cp_pc s = OwnerIdle"
  shows "cp_inv ops ok limit (owner_begin s)"
proof (cases "cp_hold s > 0 \<and> \<not> (cp_closed s \<or> cp_read_paused s \<or> cp_read_stopped s)")
  case True
  have "length (cp_own s) = cp_hold s" using assms by (simp add: cp_inv_simps)
  then have "length (rr_stream ops (cp_ring s)) + cp_hold s \<le> limit"
    using assms(1) by (simp add: cp_inv_def)
  then show ?thesis using assms True by (simp add: cp_inv_simps owner_begin_def)
next
  case False
  then show ?thesis using assms owner_enter_loop_inv [OF assms(1)]
    by (auto simp: owner_begin_def cp_own_def)
qed

lemma owner_loop_inv:
  assumes inv: "cp_inv ops ok limit s" and pc: "cp_pc s = OwnerLoop i"
  shows "cp_inv ops ok limit (owner_loop ops env i s)"
proof -
  have hold: "cp_hold s = 0" "cp_own s = []" using inv pc by (simp_all add: cp_inv_simps)
  have idle: "cp_inv ops ok limit (s\<lparr>cp_pc := OwnerIdle\<rparr>)"
    "cp_inv ops ok limit (s\<lparr>cp_pc := OwnerIdle, cp_read_paused := True\<rparr>)"
    using inv pc hold by (simp_all add: cp_inv_simps)
  show ?thesis
  proof (cases "rr_TryReserveForAppend ops env (cp_ring s)
      (min kReadChunk (rr_max_bytes (cp_ring s) - rr_Size (cp_ring s)))")
    case None
    then show ?thesis using idle by (simp add: owner_loop_def Let_def)
  next
    case (Some x)
    obtain g r' where g: "rr_TryReserveForAppend ops env (cp_ring s)
        (min kReadChunk (rr_max_bytes (cp_ring s) - rr_Size (cp_ring s))) = Some (g, r')"
      using Some by (cases x) auto
    have r: "rr_inv ops ok (cp_ring s)" using inv by (simp add: cp_inv_def)
    note c = rr_TryReserveForAppend_correct [OF r g]
    have "ag_granted g \<noteq> 0 \<Longrightarrow> ag_granted g \<le> limit - length (rr_stream ops (cp_ring s))"
      using c(7) inv by (auto simp: cp_inv_def)
    then show ?thesis using inv pc hold idle g c
      by (simp add: owner_loop_def Let_def) (simp add: cp_inv_simps)
  qed
qed

lemma owner_recv_inv:
  assumes inv: "cp_inv ops ok limit s" and pc: "cp_pc s = OwnerGranted i n"
    and v: "recv_valid s (OwnerGranted i n) outcome"
  shows "cp_inv ops ok limit (owner_recv env i outcome s)"
proof (cases outcome)
  case (RecvBytes xs)
  have "n \<le> limit - length (rr_stream ops (cp_ring s))" "length xs \<le> n" "xs \<noteq> []"
    "length (rr_stream ops (cp_ring s)) \<le> limit"
    using inv pc v RecvBytes unfolding cp_inv_def by simp_all
  then have "length (rr_stream ops (cp_ring s)) + length xs \<le> limit" "xs \<noteq> []" by simp_all
  then show ?thesis using inv pc v RecvBytes by (simp add: owner_recv_def cp_inv_simps)
qed (use inv pc in \<open>simp_all add: owner_recv_def cp_inv_simps rr_MarkEof_def rr_MarkError_def
  rr_inv_def rr_stream_def\<close>)

text \<open>After a successful submission the owner holds nothing.\<close>

lemma owner_submitted_inv:
  assumes "rr_inv ops ok (cp_ring s)" "rr_max_bytes (cp_ring s) = limit"
    and "length (rr_stream ops (cp_ring s)) \<le> limit"
    and "rr_detached (cp_ring s) \<noteq> [] \<longrightarrow> cp_backend_closed s" "cp_closed s \<longrightarrow> cp_backend_closed s"
    and "cp_received s = cp_delivered s @ rr_stream ops (cp_ring s)"
  shows "cp_inv ops ok limit (owner_submitted from s)"
  using assms
  by (cases "from"; cases "rr_pending (cp_ring s) = []")
    (simp_all add: owner_submitted_def owner_enter_loop_def cp_inv_simps rr_inv_def Let_def)

lemma owner_held_inv:
  assumes "cp_inv ops ok limit s" "cp_own s = take count (cp_buf s)" "count \<le> length (cp_buf s)"
  shows "cp_inv ops ok limit (owner_held count s)"
  using assms by (simp add: owner_held_def cp_inv_simps)

lemma owner_append_inv:
  assumes inv: "cp_inv ops ok limit s" and pc: "cp_pc s = OwnerAppend from count"
  shows "cp_inv ops ok limit (owner_append ops env from count s)"
proof -
  let ?data = "take count (cp_buf s)"
  obtain res r' where app: "rr_TryAppend ops env (cp_ring s) ?data = (res, r')" by fastforce
  have r: "rr_inv ops ok (cp_ring s)" using inv by (simp add: cp_inv_def)
  have n: "0 < count" "count \<le> length (cp_buf s)" and own: "cp_own s = ?data"
    using inv pc by (simp_all add: cp_inv_simps)
  then have ne: "?data \<noteq> []" by auto
  then have empty: "rr_pending (cp_ring s) = []" "rr_detached (cp_ring s) = []"
    using inv own by (auto simp: cp_inv_def)
  note c = rr_TryAppend_correct [OF r app ne]
  show ?thesis
  proof (cases "rr_status res = RsOk")
    case True
    have st: "rr_stream ops r' = rr_stream ops (cp_ring s) @ ?data"
      using c(4,5,7) True empty by (simp add: rr_stream_def)
    have "cp_inv ops ok limit (owner_submitted from (s\<lparr>cp_ring := r'\<rparr>))"
      using inv c own st n by (intro owner_submitted_inv) (simp_all add: cp_inv_def)
    then show ?thesis using app True c(7) [OF True] by (simp add: owner_append_def)
  next
    case False
    have same: "cp_inv ops ok limit (s\<lparr>cp_ring := r'\<rparr>)"
      using inv pc c(1,3,4,5) c(8) [OF False] by (simp add: cp_inv_simps del: length_take)
    then have "cp_inv ops ok limit (owner_held count (s\<lparr>cp_ring := r'\<rparr>))"
      using pc n by (intro owner_held_inv) (simp_all add: cp_own_def)
    moreover have "cp_inv ops ok limit (s\<lparr>cp_ring := r', cp_pc := OwnerDefer from count\<rparr>)"
      using same pc by (simp add: cp_inv_simps del: length_take)
    ultimately show ?thesis using app c(9) [OF False] by (simp add: owner_append_def Let_def)
  qed
qed

lemma owner_defer_inv:
  assumes inv: "cp_inv ops ok limit s" and pc: "cp_pc s = OwnerDefer from count"
  shows "cp_inv ops ok limit (owner_defer ops env from count s)"
proof -
  let ?data = "take count (cp_buf s)"
  obtain st r' where app: "rr_AppendDeferred ops env (cp_ring s) ?data = (st, r')" by fastforce
  have r: "rr_inv ops ok (cp_ring s)" using inv by (simp add: cp_inv_def)
  have n: "0 < count" "count \<le> length (cp_buf s)" and own: "cp_own s = ?data"
    using inv pc by (simp_all add: cp_inv_simps)
  then have "?data \<noteq> []" by auto
  then have empty: "rr_detached (cp_ring s) = []" using inv own by (auto simp: cp_inv_def)
  note c = rr_AppendDeferred_correct [OF r app]
  show ?thesis
  proof (cases st)
    case True
    have str: "rr_stream ops r' = rr_stream ops (cp_ring s) @ ?data"
      using c(4,5,6) True empty by (simp add: rr_stream_def)
    have "cp_inv ops ok limit (owner_submitted from (s\<lparr>cp_ring := r'\<rparr>))"
      using inv c(1,3,4) own str n by (intro owner_submitted_inv) (simp_all add: cp_inv_def)
    then show ?thesis using app True by (simp add: owner_defer_def)
  next
    case False
    have "cp_inv ops ok limit (s\<lparr>cp_ring := r'\<rparr>)"
      using inv pc c False by (simp add: cp_inv_simps rr_stream_def del: length_take)
    then have "cp_inv ops ok limit (owner_held count (s\<lparr>cp_ring := r'\<rparr>))"
      using pc n by (intro owner_held_inv) (simp_all add: cp_own_def)
    then show ?thesis using app False by (simp add: owner_defer_def)
  qed
qed

lemma StageHoldToRing_inv:
  assumes inv: "cp_inv ops ok limit s" and pc: "cp_pc s = OwnerIdle" and nb: "\<not> cp_backend_closed s"
    and st: "StageHoldToRing env s = (staged, s')"
  shows "if staged then cp_inv ops ok limit (s'\<lparr>cp_backend_closed := True\<rparr>) \<and> cp_own s' = []
      \<and> cp_pc s' = OwnerIdle else cp_inv ops ok limit s'"
proof (cases "cp_hold s = 0")
  case True
  then show ?thesis using inv pc st by (auto simp: StageHoldToRing_def cp_inv_simps)
next
  case False
  let ?data = "take (cp_hold s) (cp_buf s)"
  obtain ok1 r' where sd: "rr_StageDetached env (cp_ring s) ?data = (ok1, r')" by fastforce
  have r: "rr_inv ops ok (cp_ring s)" using inv by (simp add: cp_inv_def)
  note c = rr_StageDetached_correct [OF r sd]
  have "cp_own s = ?data" using pc by (simp add: cp_own_def)
  with False inv have "rr_pending (cp_ring s) = []" by (auto simp: cp_inv_def)
  then show ?thesis using inv pc st False sd c
    by (auto simp: StageHoldToRing_def cp_inv_simps split: if_splits)
qed

lemma owner_shutdown_inv:
  assumes inv: "cp_inv ops ok limit s" and pc: "cp_pc s = OwnerIdle"
  shows "cp_inv ops ok limit (owner_shutdown env1 env2 s)"
proof -
  have close: "cp_inv ops ok limit (t\<lparr>cp_backend_closed := True\<rparr>) \<Longrightarrow> cp_pc t = OwnerIdle \<Longrightarrow>
      cp_inv ops ok limit (t\<lparr>cp_backend_closed := True, cp_closed := True\<rparr>)
      \<and> cp_inv ops ok limit (t\<lparr>cp_backend_closed := True, cp_ring := rr_MarkClosed env2 (cp_ring t),
          cp_ring_closed := True, cp_closed := True\<rparr>)" for t
    by (simp add: cp_inv_simps rr_MarkClosed_def rr_inv_def rr_stream_def del: length_take)
  show ?thesis
  proof (cases "cp_closed s \<or> cp_backend_closed s")
    case True
    have "cp_backend_closed s \<Longrightarrow> s\<lparr>cp_backend_closed := True\<rparr> = s" by simp
    with inv have "cp_backend_closed s \<Longrightarrow> cp_inv ops ok limit (s\<lparr>cp_backend_closed := True\<rparr>)"
      by presburger
    note close [OF this pc]
    then show ?thesis using True inv by (auto simp: owner_shutdown_def Let_def)
  next
    case False
    obtain st s' where sh: "StageHoldToRing env1 s = (st, s')" by fastforce
    from StageHoldToRing_inv [OF inv pc _ sh] False close [of s'] show ?thesis
      by (auto simp: owner_shutdown_def Let_def sh split: if_splits)
  qed
qed

lemma pump_step_inv: "pump_step ops s t \<Longrightarrow> cp_inv ops ok limit s \<Longrightarrow> cp_inv ops ok limit t"
proof (induction rule: pump_step.induct)
  case (resume s low_water)
  then show ?case by (simp add: owner_resume_def cp_inv_simps del: length_take)
next
  case (owner s outcome env)
  then show ?case
    by (cases "cp_pc s") (simp_all add: owner_begin_inv owner_loop_inv owner_recv_inv
        owner_append_inv owner_defer_inv)
next
  case (shutdown s env1 env2)
  then show ?case by (simp add: owner_shutdown_inv)
next
  case (reader s env act)
  then show ?case by (simp add: reader_step_inv)
qed

lemma cp_init_inv: "cp_inv ops ok limit (cp_init ops limit)"
  using rr_init_correct by (simp add: cp_init_def cp_inv_simps) (simp add: rr_init_def)

lemma pump_reachable_inv: "(pump_step ops)\<^sup>*\<^sup>* (cp_init ops limit) s \<Longrightarrow> cp_inv ops ok limit s"
  by (induction rule: rtranclp_induct) (simp_all add: cp_init_inv pump_step_inv)

end

section \<open>Properties\<close>

text \<open>C1: End-to-end delivery of a connection's byte stream. In every state the owner's read pump,
  the readers and the shutdown can reach in any interleaving, with any failing allocation or
  notification, the bytes received from the kernel are exactly the bytes delivered to readers,
  then the bytes stored in the ring, then the bytes the owner still holds, in this order;
  what is stored and held never exceeds the limit of the ring; once the connection is closed the
  owner holds nothing.\<close>

theorem read_pump_stream:
  assumes "byte_ring ops ok" and "(pump_step ops)\<^sup>*\<^sup>* (cp_init ops limit) s"
  shows "cp_received s = cp_delivered s @ rr_stream ops (cp_ring s) @ cp_own s
    \<and> length (rr_stream ops (cp_ring s)) + length (cp_own s) \<le> limit
    \<and> (cp_closed s \<longrightarrow> cp_own s = [])"
  using byte_ring.pump_reachable_inv [OF assms] by (auto simp: cp_inv_def)

text \<open>Concrete runs: a schedule of the owner, the readers and the shutdown.\<close>

datatype pump_action = DoOwner recv_outcome | DoReader reader_action | DoShutdown

fun pump_exec :: "('c, byte) cb_ops \<Rightarrow> pump_action list \<Rightarrow> 'c ConnPump \<Rightarrow> 'c ConnPump option" where
  "pump_exec ops [] s = Some s"
| "pump_exec ops (DoOwner outcome # as) s =
     (if recv_valid s (cp_pc s) outcome
      then pump_exec ops as (owner_step ops calm_env outcome (cp_pc s) s) else None)"
| "pump_exec ops (DoReader a # as) s = pump_exec ops as (reader_step ops calm_env a s)"
| "pump_exec ops (DoShutdown # as) s =
     (if cp_pc s = OwnerIdle then pump_exec ops as (owner_shutdown calm_env calm_env s) else None)"

lemma pump_step_then: "pump_step ops s t \<Longrightarrow> (pump_step ops)\<^sup>*\<^sup>* t u \<Longrightarrow> (pump_step ops)\<^sup>*\<^sup>* s u"
  by (rule converse_rtranclp_into_rtranclp)

lemma pump_exec_reachable: "pump_exec ops as s = Some t \<Longrightarrow> (pump_step ops)\<^sup>*\<^sup>* s t"
proof (induction ops as s rule: pump_exec.induct)
  case (2 ops outcome as s)
  then show ?case by (auto split: if_splits intro: pump_step_then [OF pump_step.owner])
next
  case (4 ops as s)
  then show ?case by (auto split: if_splits intro: pump_step_then [OF pump_step.shutdown])
qed (auto intro: pump_step_then [OF pump_step.reader])

text \<open>A reader's guard makes both submissions of the second chunk fail, the connection is shut
  down, and the readers still get every byte.\<close>

definition busy_schedule :: "pump_action list" where
  "busy_schedule = [DoOwner RecvAgain, DoOwner RecvAgain, DoOwner (RecvBytes [1, 2]), DoOwner RecvAgain,
     DoOwner RecvAgain, DoOwner (RecvBytes [3]), DoReader RdAccess, DoOwner RecvAgain,
     DoOwner RecvAgain, DoShutdown, DoReader (RdConsume 1), DoReader RdRelease, DoReader RdRead]"

theorem read_pump_stream_witness:
  "\<exists>s. pump_exec vector_ring_ops busy_schedule (cp_init vector_ring_ops 8) = Some s
   \<and> cp_received s = [1, 2, 3] \<and> cp_delivered s = [1, 2, 3] \<and> cp_closed s
   \<and> rr_stream vector_ring_ops (cp_ring s) = [] \<and> cp_own s = []"
proof -
  have "case pump_exec vector_ring_ops busy_schedule (cp_init vector_ring_ops 8) of None \<Rightarrow> False
     | Some s \<Rightarrow> cp_received s = [1, 2, 3] \<and> cp_delivered s = [1, 2, 3] \<and> cp_closed s" by code_simp
  then obtain s where s: "pump_exec vector_ring_ops busy_schedule (cp_init vector_ring_ops 8) = Some s"
    "cp_received s = [1, 2, 3]" "cp_delivered s = [1, 2, 3]" "cp_closed s" by (auto split: option.splits)
  with read_pump_stream [OF vector_bytes.byte_ring_axioms pump_exec_reachable [OF s(1)]] show ?thesis by simp
qed



end
