(* ===== verification/Outbound.thy ===== *)
theory Outbound
  imports Fifo
begin

text \<open>
  \<^verbatim>\<open>bbt/infra/net/detail/OutboundQueue.hpp\<close>: the bounded queue of bytes waiting to be
  sent, a static ring followed by overflow segments. \<open>oq_Append\<close> returns \<open>None\<close> when the
  allocation of its overflow part throws (\<open>mem\<close> says whether it succeeds).
\<close>

record OutboundQueue =
  ring :: "byte list"
  ring_head :: nat
  ring_size :: nat
  spill :: "byte list list"
  list_bytes :: nat
  max_total_bytes :: nat
  max_segments :: nat
  geometry_valid :: bool

definition kMaxMergedSegmentBytes :: nat where
  "kMaxMergedSegmentBytes = 4096"

definition oq_init :: "nat \<Rightarrow> nat \<Rightarrow> nat \<Rightarrow> OutboundQueue" where
  "oq_init ring_bytes max_total max_segs =
     (let valid = (ring_bytes \<noteq> 0 \<and> max_total \<noteq> 0 \<and> max_segs \<noteq> 0 \<and> ring_bytes \<le> max_total)
      in \<lparr>ring = (if valid then replicate ring_bytes 0 else []), ring_head = 0, ring_size = 0,
          spill = [], list_bytes = 0, max_total_bytes = max_total, max_segments = max_segs,
          geometry_valid = valid\<rparr>)"

definition oq_emptied :: "OutboundQueue \<Rightarrow> OutboundQueue" where
  "oq_emptied q = q\<lparr>ring := [], ring_head := 0, ring_size := 0, spill := [], list_bytes := 0\<rparr>"

text \<open>Move construction: the pair is the new queue and what is left in the source.\<close>

definition oq_move_construct :: "OutboundQueue \<Rightarrow> OutboundQueue \<times> OutboundQueue" where
  "oq_move_construct other = (other, oq_emptied other)"

definition oq_TotalBytes :: "OutboundQueue \<Rightarrow> nat" where
  "oq_TotalBytes q = ring_size q + list_bytes q"

definition oq_SegmentCount :: "OutboundQueue \<Rightarrow> nat" where
  "oq_SegmentCount q = (if ring_size q \<noteq> 0 then 1 else 0) + length (spill q)"

text \<open>The two steps of an accepted append: the overflow part into the last segment or a
  new one, then the ring part copied in at most two runs.\<close>

definition oq_commit_spill :: "OutboundQueue \<Rightarrow> byte list \<Rightarrow> bool \<Rightarrow> OutboundQueue" where
  "oq_commit_spill q part can_merge =
     (if part = [] then q
      else q\<lparr>spill := (if can_merge then butlast (spill q) @ [last (spill q) @ part]
                       else spill q @ [part]),
             list_bytes := list_bytes q + length part\<rparr>)"

definition oq_commit_ring :: "OutboundQueue \<Rightarrow> byte list \<Rightarrow> nat \<Rightarrow> OutboundQueue" where
  "oq_commit_ring q data to_ring =
     (if to_ring = 0 then q
      else
        let write_pos = (ring_head q + ring_size q) mod length (ring q);
            tail_space = length (ring q) - write_pos;
            first = (if to_ring < tail_space then to_ring else tail_space);
            ring1 = memcpy (ring q) write_pos (take first data);
            ring2 = (if to_ring > first then memcpy ring1 0 (take (to_ring - first) (drop first data))
                     else ring1)
        in q\<lparr>ring := ring2, ring_size := ring_size q + to_ring\<rparr>)"

definition oq_Append ::
  "bool \<Rightarrow> OutboundQueue \<Rightarrow> byte list \<Rightarrow> (error_code \<times> OutboundQueue) option" where
  "oq_Append mem q data =
     (if data = [] then Some (no_error, q)
      else if \<not> geometry_valid q then Some (make_errc no_buffer_space, q)
      else if length data > size_sub (max_total_bytes q) (oq_TotalBytes q)
        then Some (make_errc no_buffer_space, q)
      else
        let ring_space = (if spill q = [] then size_sub (length (ring q)) (ring_size q) else 0);
            to_ring = (if length data < ring_space then length data else ring_space);
            spill_part = drop to_ring data;
            can_merge = (spill_part \<noteq> [] \<and> spill q \<noteq> []
              \<and> length (last (spill q)) + length spill_part \<le> kMaxMergedSegmentBytes)
        in if spill_part \<noteq> [] \<and> \<not> can_merge \<and> length (spill q) \<ge> max_segments q
             then Some (make_errc no_buffer_space, q)
           else if spill_part \<noteq> [] \<and> \<not> mem then None
           else Some (no_error, oq_commit_ring (oq_commit_spill q spill_part can_merge) data to_ring))"

fun gather_spill :: "nat \<Rightarrow> nat \<Rightarrow> byte list list \<Rightarrow> byte list list" where
  "gather_spill filled max_views [] = []"
| "gather_spill filled max_views (segment # rest) =
     (if filled \<ge> max_views then [] else segment # gather_spill (Suc filled) max_views rest)"

definition oq_contiguous :: "OutboundQueue \<Rightarrow> nat" where
  "oq_contiguous q =
     (if ring_size q < length (ring q) - ring_head q then ring_size q
      else length (ring q) - ring_head q)"

definition oq_GatherViews :: "OutboundQueue \<Rightarrow> nat \<Rightarrow> byte list list" where
  "oq_GatherViews q max_views =
     (let views = (if ring_size q \<noteq> 0 \<and> 0 < max_views
                   then take (oq_contiguous q) (drop (ring_head q) (ring q))
                     # (if ring_size q > oq_contiguous q \<and> 1 < max_views
                        then [take (ring_size q - oq_contiguous q) (ring q)] else [])
                   else [])
      in views @ gather_spill (length views) max_views (spill q))"

text \<open>
  Consuming: the straight run of the ring, its wrapped run, then the segments. The
  segment loop reads the front segment; running out of segments with bytes left to
  consume cannot happen below the total the guard compares with.
\<close>

fun consume_spill :: "nat \<Rightarrow> byte list list \<Rightarrow> nat \<Rightarrow> byte list list \<times> nat" where
  "consume_spill n [] listed = ([], listed)"
| "consume_spill n (segment # rest) listed =
     (if n = 0 then (segment # rest, listed)
      else
        let taken = (if n < length segment then n else length segment);
            segment' = drop taken segment
        in if segment' = [] then consume_spill (n - taken) rest (listed - taken)
           else (segment' # rest, listed - taken))"

definition oq_ring_step :: "OutboundQueue \<Rightarrow> nat \<Rightarrow> nat \<Rightarrow> OutboundQueue \<times> nat" where
  "oq_ring_step q n run =
     (if n \<noteq> 0 \<and> ring_size q \<noteq> 0
      then let k = (if n < run then n else run)
           in (q\<lparr>ring_head := (ring_head q + k) mod length (ring q), ring_size := ring_size q - k\<rparr>, n - k)
      else (q, n))"

definition oq_ConsumeSent :: "OutboundQueue \<Rightarrow> nat \<Rightarrow> error_code \<times> OutboundQueue" where
  "oq_ConsumeSent q n =
     (if n > oq_TotalBytes q then (make_errc result_out_of_range, q)
      else
        let (q1, n1) = oq_ring_step q n (oq_contiguous q);
            (q2, n2) = oq_ring_step q1 n1 (ring_size q1);
            (spill', listed) = consume_spill n2 (spill q2) (list_bytes q2)
        in (no_error, q2\<lparr>spill := spill', list_bytes := listed\<rparr>))"

definition oq_append_caught :: "bool \<Rightarrow> OutboundQueue \<Rightarrow> byte list \<Rightarrow> error_code \<times> OutboundQueue" where
  "oq_append_caught mem q data =
     (case oq_Append mem q data of None \<Rightarrow> (make_errc not_enough_memory, q) | Some r \<Rightarrow> r)"

text \<open>The queue as a byte sequence, and the invariant of its fields.\<close>

definition oq_bytes :: "OutboundQueue \<Rightarrow> byte list" where
  "oq_bytes q = ring_read (ring q) (ring_head q) (ring_size q) @ concat (spill q)"

definition oq_inv :: "OutboundQueue \<Rightarrow> bool" where
  "oq_inv q \<longleftrightarrow> ring_size q \<le> length (ring q) \<and> ring_head q < max 1 (length (ring q))
     \<and> list_bytes q = length (concat (spill q)) \<and> [] \<notin> set (spill q)
     \<and> length (spill q) \<le> max_segments q \<and> oq_TotalBytes q \<le> max_total_bytes q"

section \<open>Appending\<close>

lemma oq_init_correct [simp]:
  "oq_inv (oq_init r t s)" "oq_bytes (oq_init r t s) = []"
  "max_total_bytes (oq_init r t s) = t" "max_segments (oq_init r t s) = s"
  by (auto simp: oq_init_def oq_inv_def oq_bytes_def oq_TotalBytes_def Let_def)

lemma oq_emptied_correct [simp]: "oq_inv (oq_emptied q)" "oq_bytes (oq_emptied q) = []"
  by (simp_all add: oq_emptied_def oq_inv_def oq_bytes_def oq_TotalBytes_def)

lemma oq_TotalBytes_bytes: "oq_inv q \<Longrightarrow> oq_TotalBytes q = length (oq_bytes q)"
  by (simp add: oq_inv_def oq_TotalBytes_def oq_bytes_def)

lemma oq_commit_spill_correct:
  assumes "oq_inv q" "can_merge \<Longrightarrow> spill q \<noteq> []"
    "part \<noteq> [] \<Longrightarrow> \<not> can_merge \<Longrightarrow> length (spill q) < max_segments q"
    "oq_TotalBytes q + length part \<le> max_total_bytes q"
  shows "oq_inv (oq_commit_spill q part can_merge)
    \<and> concat (spill (oq_commit_spill q part can_merge)) = concat (spill q) @ part
    \<and> oq_TotalBytes (oq_commit_spill q part can_merge) = oq_TotalBytes q + length part"
proof (cases "part \<noteq> [] \<and> can_merge")
  case True
  then obtain ss s where "spill q = ss @ [s]" using assms(2) by (metis append_butlast_last_id)
  then show ?thesis using True assms
    by (auto simp: oq_commit_spill_def oq_inv_def oq_TotalBytes_def)
next
  case False
  then show ?thesis using assms
    by (auto simp: oq_commit_spill_def oq_inv_def oq_TotalBytes_def)
qed

lemma oq_commit_spill_frame [simp]:
  "ring (oq_commit_spill q part m) = ring q" "ring_head (oq_commit_spill q part m) = ring_head q"
  "ring_size (oq_commit_spill q part m) = ring_size q"
  "max_total_bytes (oq_commit_spill q part m) = max_total_bytes q"
  "max_segments (oq_commit_spill q part m) = max_segments q"
  "geometry_valid (oq_commit_spill q part m) = geometry_valid q"
  by (simp_all add: oq_commit_spill_def)

text \<open>The two copies of the ring commit are one circular write.\<close>

lemma oq_commit_ring_put:
  assumes "0 < to_ring" "to_ring \<le> length data"
  shows "oq_commit_ring q data to_ring =
    q\<lparr>ring := ring_put (ring q) ((ring_head q + ring_size q) mod length (ring q)) (take to_ring data),
      ring_size := ring_size q + to_ring\<rparr>"
proof -
  have "memcpy xs 0 [] = xs" for xs :: "byte list" by (simp add: memcpy_def)
  then show ?thesis using assms
    by (auto simp: oq_commit_ring_def ring_put_def Let_def min_def drop_take)
qed

lemma oq_commit_ring_correct:
  assumes "oq_inv q" "to_ring \<le> length data" "to_ring \<le> length (ring q) - ring_size q"
    "oq_TotalBytes q + to_ring \<le> max_total_bytes q"
  shows "oq_inv (oq_commit_ring q data to_ring)
    \<and> ring_read (ring (oq_commit_ring q data to_ring)) (ring_head q) (ring_size q + to_ring)
      = ring_read (ring q) (ring_head q) (ring_size q) @ take to_ring data
    \<and> ring_head (oq_commit_ring q data to_ring) = ring_head q
    \<and> ring_size (oq_commit_ring q data to_ring) = ring_size q + to_ring
    \<and> spill (oq_commit_ring q data to_ring) = spill q
    \<and> max_total_bytes (oq_commit_ring q data to_ring) = max_total_bytes q"
proof (cases "to_ring = 0")
  case True
  then show ?thesis using assms by (simp add: oq_commit_ring_def)
next
  case False
  have c: "0 < length (ring q)" using False assms by linarith
  then have h: "ring_head q < length (ring q)" using assms(1) by (simp add: oq_inv_def)
  have "oq_commit_ring q data to_ring =
    q\<lparr>ring := ring_put (ring q) ((ring_head q + ring_size q) mod length (ring q)) (take to_ring data),
      ring_size := ring_size q + to_ring\<rparr>"
    using oq_commit_ring_put [of to_ring data] False assms(2) by simp
  moreover have "length (ring_put (ring q) ((ring_head q + ring_size q) mod length (ring q)) (take to_ring data))
      = length (ring q)" using c assms by simp
  ultimately show ?thesis
    using ring_read_ring_put [OF h, of "ring_size q" "take to_ring data"] assms False
    by (simp add: oq_inv_def oq_TotalBytes_def)
qed

lemma oq_Append_correct:
  assumes inv: "oq_inv q" and app: "oq_Append mem q data = Some (e, q')"
  shows "oq_inv q' \<and> max_total_bytes q' = max_total_bytes q
    \<and> (if ec_fails e then q' = q \<and> e = make_errc no_buffer_space
       else e = no_error \<and> oq_bytes q' = oq_bytes q @ data)"
proof (cases "e = no_error \<and> data \<noteq> []")
  case False
  then show ?thesis using inv app by (auto simp: oq_Append_def Let_def split: if_splits)
next
  case True
  define space where "space = (if spill q = [] then size_sub (length (ring q)) (ring_size q) else 0)"
  define k where "k = (if length data < space then length data else space)"
  define m where "m = (drop k data \<noteq> [] \<and> spill q \<noteq> []
     \<and> length (last (spill q)) + length (drop k data) \<le> kMaxMergedSegmentBytes)"
  have space: "space \<le> length (ring q) - ring_size q" using inv by (simp add: space_def oq_inv_def)
  have k: "k \<le> length data" "k \<le> length (ring q) - ring_size q" using space by (auto simp: k_def)
  have fits: "oq_TotalBytes q + length data \<le> max_total_bytes q"
    and segs: "drop k data \<noteq> [] \<Longrightarrow> \<not> m \<Longrightarrow> length (spill q) < max_segments q"
    and q': "q' = oq_commit_ring (oq_commit_spill q (drop k data) m) data k"
    using True app inv
    by (auto simp: oq_Append_def Let_def space_def k_def m_def oq_inv_def split: if_splits)
  let ?s = "oq_commit_spill q (drop k data) m"
  have s: "oq_inv ?s \<and> concat (spill ?s) = concat (spill q) @ drop k data
      \<and> oq_TotalBytes ?s = oq_TotalBytes q + length (drop k data)"
    by (rule oq_commit_spill_correct) (use inv segs fits in \<open>auto simp: m_def\<close>)
  have r: "oq_inv q' \<and> ring_read (ring q') (ring_head q) (ring_size q + k)
      = ring_read (ring q) (ring_head q) (ring_size q) @ take k data
      \<and> ring_head q' = ring_head q \<and> ring_size q' = ring_size q + k \<and> spill q' = spill ?s
      \<and> max_total_bytes q' = max_total_bytes q"
    using oq_commit_ring_correct [of ?s k data] s k fits unfolding q' by simp
  have "spill q \<noteq> [] \<Longrightarrow> k = 0" by (simp add: k_def space_def)
  then have "oq_bytes q' = oq_bytes q @ data"
    using r s by (cases "spill q = []") (simp_all add: oq_bytes_def)
  with r True show ?thesis by simp
qed

text \<open>When an append is refused: the geometry is invalid, the total would be passed, or the
  overflow part needs a segment the limit does not allow.\<close>

lemma oq_Append_accepts:
  assumes "oq_inv q" "geometry_valid q" "oq_TotalBytes q + length data \<le> max_total_bytes q"
    "length (spill q) < max_segments q"
  shows "\<exists>q'. oq_Append True q data = Some (no_error, q')"
  using assms by (auto simp: oq_Append_def Let_def oq_inv_def)

section \<open>Gathering\<close>

lemma gather_spill_take: "gather_spill k m segs = take (m - k) segs"
  by (induction k m segs rule: gather_spill.induct) (auto simp: take_Cons' Suc_diff_le)

lemma oq_ring_views:
  assumes "oq_inv q" "ring_size q \<noteq> 0"
  shows "take (oq_contiguous q) (drop (ring_head q) (ring q)) @ take (ring_size q - oq_contiguous q) (ring q)
      = ring_read (ring q) (ring_head q) (ring_size q)"
proof -
  have h: "ring_head q < length (ring q)" using assms by (auto simp: oq_inv_def)
  show ?thesis using assms h
    by (subst ring_read_segments) (auto simp: oq_inv_def oq_contiguous_def)
qed

lemma oq_GatherViews_prefix:
  assumes "oq_inv q"
  shows "\<exists>rest. oq_bytes q = concat (oq_GatherViews q m) @ rest"
proof (cases "ring_size q \<noteq> 0")
  case False
  then show ?thesis using concat_take_prefix
    by (simp add: oq_GatherViews_def gather_spill_take oq_bytes_def)
next
  case True
  note ring = oq_ring_views [OF assms True, symmetric]
  show ?thesis
  proof (cases "1 < m \<or> ring_size q \<le> oq_contiguous q")
    case False
    then show ?thesis using True ring
      by (cases m) (auto simp: oq_GatherViews_def gather_spill_take oq_bytes_def Let_def)
  next
    case two: True
    then show ?thesis using True ring concat_take_prefix [of "spill q"]
      by (cases "0 < m") (auto simp: oq_GatherViews_def gather_spill_take oq_bytes_def Let_def)
  qed
qed

lemma oq_GatherViews_all:
  assumes "oq_inv q" "length (spill q) + 2 \<le> m"
  shows "concat (oq_GatherViews q m) = oq_bytes q"
  using assms oq_ring_views [OF assms(1)]
  by (auto simp: oq_GatherViews_def gather_spill_take oq_bytes_def Let_def oq_contiguous_def)

lemma oq_GatherViews_progress:
  assumes "oq_inv q" "oq_bytes q \<noteq> []" "0 < m"
  shows "concat (oq_GatherViews q m) \<noteq> []"
proof (cases "ring_size q = 0")
  case True
  then obtain s ss where "spill q = s # ss" "s \<noteq> []"
    using assms by (cases "spill q") (auto simp: oq_bytes_def oq_inv_def)
  then show ?thesis using True assms(3) by (simp add: oq_GatherViews_def)
next
  case False
  have "ring_head q < length (ring q)" using assms(1) False by (auto simp: oq_inv_def)
  then show ?thesis using False assms by (auto simp: oq_GatherViews_def Let_def oq_contiguous_def)
qed

section \<open>Consuming\<close>

lemma consume_spill_correct:
  assumes "n \<le> length (concat segs)" "listed = length (concat segs)" "[] \<notin> set segs"
    "consume_spill n segs listed = (segs', listed')"
  shows "concat segs' = drop n (concat segs) \<and> listed' = length (concat segs')
    \<and> [] \<notin> set segs' \<and> length segs' \<le> length segs"
  using assms
proof (induction n segs listed rule: consume_spill.induct)
  case (2 n s rest listed)
  show ?case
  proof (cases "n < length s")
    case True
    then show ?thesis using 2 by (auto simp: Let_def split: if_splits)
  next
    case False
    have s: "s \<noteq> []" using "2.prems"(3) by auto
    then have "0 < length s" by simp
    with False have n: "n \<noteq> 0" by linarith
    then have "consume_spill (n - length s) rest (listed - length s) = (segs', listed')"
      using "2.prems"(4) False n by (simp add: Let_def)
    with "2.IH" [of "length s" "[]"] "2.prems"(1-3) False n
    have "concat segs' = drop (n - length s) (concat rest) \<and> listed' = length (concat segs')
      \<and> [] \<notin> set segs' \<and> length segs' \<le> length rest" by auto
    then show ?thesis using False by auto
  qed
qed auto

lemma oq_ring_step_correct:
  assumes "oq_inv q" "run \<le> ring_size q" "oq_ring_step q n run = (q', n')"
  defines "k \<equiv> min n run"
  shows "oq_inv q' \<and> ring_read (ring q') (ring_head q') (ring_size q')
      = drop k (ring_read (ring q) (ring_head q) (ring_size q))
    \<and> ring_size q' = ring_size q - k \<and> n' = n - k \<and> spill q' = spill q
    \<and> list_bytes q' = list_bytes q \<and> max_total_bytes q' = max_total_bytes q"
proof (cases "n \<noteq> 0 \<and> ring_size q \<noteq> 0")
  case True
  then have ne: "ring q \<noteq> []" using assms(1) by (auto simp: oq_inv_def)
  have "q' = q\<lparr>ring_head := (ring_head q + k) mod length (ring q), ring_size := ring_size q - k\<rparr>"
    "n' = n - k" using True assms(3) by (auto simp: oq_ring_step_def k_def min_def Let_def split: if_splits)
  then show ?thesis using True assms ne
    by (auto simp: oq_inv_def oq_TotalBytes_def drop_ring_read)
next
  case False
  then show ?thesis using assms by (auto simp: oq_ring_step_def k_def)
qed

lemma oq_contiguous_le: "oq_contiguous q \<le> ring_size q"
  by (auto simp: oq_contiguous_def)

text \<open>After the straight run, either nothing is left to consume or what is left of the ring is
  the wrapped run: the two ring steps together consume \<open>min n (ring_size q)\<close>.\<close>

lemma oq_ring_steps_correct:
  assumes inv: "oq_inv q" and s1: "oq_ring_step q n (oq_contiguous q) = (q1, n1)"
    and s2: "oq_ring_step q1 n1 (ring_size q1) = (q2, n2)"
  shows "oq_inv q2" "n2 = n - min n (ring_size q)" "ring_size q2 = ring_size q - min n (ring_size q)"
    "ring_read (ring q2) (ring_head q2) (ring_size q2)
      = drop (min n (ring_size q)) (ring_read (ring q) (ring_head q) (ring_size q))"
    "spill q2 = spill q" "list_bytes q2 = list_bytes q" "max_total_bytes q2 = max_total_bytes q"
proof -
  note c1 = oq_ring_step_correct [OF inv oq_contiguous_le s1]
  note c2 = oq_ring_step_correct [OF conjunct1 [OF c1] le_refl s2]
  have n1: "n1 = n - min n (oq_contiguous q)" "ring_size q1 = ring_size q - min n (oq_contiguous q)"
    using c1 by simp_all
  then have m: "min n1 (ring_size q1) + min n (oq_contiguous q) = min n (ring_size q)"
    using oq_contiguous_le [of q] by (auto simp: min_def)
  show "oq_inv q2" using c2 by blast
  have "n2 = n1 - min n1 (ring_size q1)" using c2 by blast
  with n1(1) show "n2 = n - min n (ring_size q)" using m by linarith
  have "ring_size q2 = ring_size q1 - min n1 (ring_size q1)" using c2 by blast
  with n1(2) show "ring_size q2 = ring_size q - min n (ring_size q)" using m by linarith
  have r: "ring_read (ring q2) (ring_head q2) (ring_size q2)
      = drop (min n1 (ring_size q1)) (ring_read (ring q1) (ring_head q1) (ring_size q1))"
    "ring_read (ring q1) (ring_head q1) (ring_size q1)
      = drop (min n (oq_contiguous q)) (ring_read (ring q) (ring_head q) (ring_size q))"
    using c1 c2 by blast+
  show "ring_read (ring q2) (ring_head q2) (ring_size q2)
      = drop (min n (ring_size q)) (ring_read (ring q) (ring_head q) (ring_size q))"
    by (simp only: r drop_drop m)
  show "spill q2 = spill q" "list_bytes q2 = list_bytes q" "max_total_bytes q2 = max_total_bytes q"
    using c1 c2 by simp_all
qed

lemma oq_ConsumeSent_correct:
  assumes inv: "oq_inv q" and con: "oq_ConsumeSent q n = (e, q')"
  shows "oq_inv q' \<and> max_total_bytes q' = max_total_bytes q
    \<and> (ec_fails e \<longleftrightarrow> length (oq_bytes q) < n)
    \<and> oq_bytes q' = (if ec_fails e then oq_bytes q else drop n (oq_bytes q))"
proof (cases "n > oq_TotalBytes q")
  case True
  then show ?thesis using con inv by (auto simp: oq_ConsumeSent_def oq_TotalBytes_bytes)
next
  case False
  obtain q1 n1 where s1: "oq_ring_step q n (oq_contiguous q) = (q1, n1)" by fastforce
  obtain q2 n2 where s2: "oq_ring_step q1 n1 (ring_size q1) = (q2, n2)" by fastforce
  obtain segs listed where s3: "consume_spill n2 (spill q2) (list_bytes q2) = (segs, listed)" by fastforce
  note r = oq_ring_steps_correct [OF inv s1 s2]
  have le: "n \<le> ring_size q + length (concat (spill q))"
    using False inv by (simp add: oq_inv_def oq_TotalBytes_def)
  have c3: "concat segs = drop n2 (concat (spill q2)) \<and> listed = length (concat segs)
    \<and> [] \<notin> set segs \<and> length segs \<le> length (spill q2)"
    by (rule consume_spill_correct [OF _ _ _ s3])
       (use r(1) le r(2,5) in \<open>auto simp: oq_inv_def min_def\<close>)
  have q': "q' = q2\<lparr>spill := segs, list_bytes := listed\<rparr>" and e: "e = no_error"
    using con False s1 s2 s3 by (auto simp: oq_ConsumeSent_def)
  have bytes: "oq_bytes q' = drop n (oq_bytes q)"
  proof -
    have "oq_bytes q' = ring_read (ring q2) (ring_head q2) (ring_size q2) @ concat segs"
      by (simp add: q' oq_bytes_def)
    also have "\<dots> = drop (min n (ring_size q)) (ring_read (ring q) (ring_head q) (ring_size q))
        @ drop (n - min n (ring_size q)) (concat (spill q))"
      using c3 by (simp only: r(2,4,5))
    also have "\<dots> = drop n (oq_bytes q)" by (simp add: oq_bytes_def min_def)
    finally show ?thesis .
  qed
  have "length (concat segs) \<le> length (concat (spill q2))" using c3 by simp
  then have "oq_inv q'"
    using r(1) c3 by (auto simp: q' oq_inv_def oq_TotalBytes_def)
  with bytes e r(7) False oq_TotalBytes_bytes [OF inv] show ?thesis by (simp add: q')
qed

interpretation outbound: bounded_fifo "oq_append_caught mem" oq_ConsumeSent oq_bytes
  max_total_bytes oq_inv for mem
proof (unfold_locales, goal_cases)
  case (1 q xs e q') then show ?case
    using oq_Append_correct [of q mem xs] by (auto simp: oq_append_caught_def split: option.splits)
next
  case (2 q xs e q') then show ?case
    using oq_Append_correct [of q mem xs]
    by (auto simp: oq_append_caught_def split: option.splits if_splits)
next
  case (6 q) then show ?case by (simp add: oq_inv_def flip: oq_TotalBytes_bytes)
qed (auto dest: oq_ConsumeSent_correct)

section \<open>Properties\<close>

text \<open>C26: The outbound queue is a bounded FIFO: whatever mix of appends and partial sends it goes
  through, from any valid state, the bytes held before followed by the accepted bytes
  are the sent bytes followed by the bytes still held, and the total stays within the limit.\<close>

theorem outbound_fifo:
  assumes "oq_inv q"
    and "fifo_run (oq_append_caught mem) oq_ConsumeSent oq_bytes q steps = (accepted, sent, q')"
  shows "oq_bytes q @ accepted = sent @ oq_bytes q' \<and> oq_inv q'
    \<and> length (oq_bytes q') \<le> max_total_bytes q"
  using outbound.run_stream [OF assms] outbound.run_inv [OF assms] outbound.run_bounded [OF assms]
  by simp

theorem outbound_fifo_witness:
  "\<exists>q'. fifo_run (oq_append_caught True) oq_ConsumeSent oq_bytes (oq_init 4 8 2)
      [Put [1, 2, 3, 4, 5], Get 3, Put [6], Put [7, 8, 9, 10, 11]] = ([1, 2, 3, 4, 5, 6, 7, 8, 9, 10, 11], [1, 2, 3], q')
    \<and> oq_bytes q' = [4, 5, 6, 7, 8, 9, 10, 11]"
proof -
  let ?run = "fifo_run (oq_append_caught True) oq_ConsumeSent oq_bytes (oq_init 4 8 2)
      [Put [1, 2, 3, 4, 5], Get 3, Put [6], Put [7, 8, 9, 10, 11]]"
  obtain a t q' where run: "?run = (a, t, q')" by (cases ?run)
  have "(case ?run of (a, t, q') \<Rightarrow> a = [1, 2, 3, 4, 5, 6, 7, 8, 9, 10, 11] \<and> t = [1, 2, 3])"
    by code_simp
  with run have at: "a = [1, 2, 3, 4, 5, 6, 7, 8, 9, 10, 11]" "t = [1, 2, 3]" by simp_all
  from outbound_fifo [OF oq_init_correct(1) run] at
  have "oq_bytes q' = [4, 5, 6, 7, 8, 9, 10, 11]" by simp
  with run at show ?thesis by blast
qed

text \<open>A refused append leaves the outbound queue exactly as it was, and an append is refused
  only for its geometry, its total, or a missing segment slot: with a valid geometry,
  room in the total and a free segment it is accepted.\<close>

theorem outbound_append_refusals:
  assumes "oq_inv q" and "oq_Append True q data = Some (e, q')"
  shows "(ec_fails e \<longrightarrow> q' = q \<and> e = make_errc no_buffer_space
           \<and> (\<not> geometry_valid q \<or> max_total_bytes q < oq_TotalBytes q + length data
              \<or> length (spill q) = max_segments q))
    \<and> (\<not> ec_fails e \<longrightarrow> oq_bytes q' = oq_bytes q @ data)"
proof -
  have "ec_fails e \<Longrightarrow> geometry_valid q \<Longrightarrow> oq_TotalBytes q + length data \<le> max_total_bytes q
      \<Longrightarrow> length (spill q) = max_segments q"
    using oq_Append_accepts [OF assms(1), of data] assms by (fastforce simp: oq_inv_def)
  with oq_Append_correct [OF assms] show ?thesis
    by (meson not_less)
qed

theorem outbound_append_refusals_witness:
  "oq_Append True (oq_init 4 8 2) (replicate 9 1) = Some (make_errc no_buffer_space, oq_init 4 8 2)"
proof -
  have "oq_Append True (oq_init 4 8 2) (replicate 9 1)
      = Some (make_errc no_buffer_space, snd (the (oq_Append True (oq_init 4 8 2) (replicate 9 1))))"
    by code_simp
  with outbound_append_refusals [OF oq_init_correct(1), of 4 8 2 "replicate 9 1"] show ?thesis
    by (metis ec_fails_make_errc)
qed

text \<open>The views handed to a vectored send are a prefix of the queued bytes in sending order,
  they are not all empty while bytes are queued, and with two views more than there are
  overflow segments they are the whole queue.\<close>

theorem outbound_gather_views:
  assumes "oq_inv q" and "0 < m"
  shows "(\<exists>rest. oq_bytes q = concat (oq_GatherViews q m) @ rest)
    \<and> (oq_bytes q \<noteq> [] \<longrightarrow> concat (oq_GatherViews q m) \<noteq> [])
    \<and> (length (spill q) + 2 \<le> m \<longrightarrow> concat (oq_GatherViews q m) = oq_bytes q)
    \<and> length (oq_GatherViews q m) \<le> m"
proof -
  have "length (oq_GatherViews q m) \<le> m"
    using assms(2) by (auto simp: oq_GatherViews_def gather_spill_take Let_def)
  then show ?thesis
    using assms oq_GatherViews_prefix oq_GatherViews_progress oq_GatherViews_all by blast
qed

theorem outbound_gather_views_witness:
  "concat (oq_GatherViews \<lparr>ring = [5, 2, 3, 4], ring_head = 2, ring_size = 3, spill = [[6, 7]],
     list_bytes = 2, max_total_bytes = 9, max_segments = 2, geometry_valid = True\<rparr> 4) = [3, 4, 5, 6, 7]"
proof -
  let ?q = "\<lparr>ring = [5, 2, 3, 4], ring_head = 2, ring_size = 3, spill = [[6, 7]],
     list_bytes = 2, max_total_bytes = 9, max_segments = 2, geometry_valid = True\<rparr> :: OutboundQueue"
  have "oq_inv ?q" by (simp add: oq_inv_def oq_TotalBytes_def)
  from outbound_gather_views [OF this, of 4] show ?thesis
    by (simp add: oq_bytes_def ring_read_def upt_rec)
qed

end
