(* ===== verification/ConnState.thy ===== *)
theory ConnState
  imports Outbound ReceiveRing
begin

text \<open>
  \<^verbatim>\<open>bbt/infra/net/detail/ConnectionState.hpp\<close>: the shared state of a connection, with the
  bookkeeping of accepted writes. An accepted write is a \<^verbatim>\<open>WriteOpRecord\<close> in \<^verbatim>\<open>m_ops\<close> until
  it settles (all bytes sent, I/O error, close); settling makes its record terminal and queues one
  \<^verbatim>\<open>CompletedWrite\<close> for the owner to report. Each operation is one \<^verbatim>\<open>m_write_mutex\<close>
  critical section. Ghost state: \<open>wo_data\<close> is the data of a write, \<open>cs_settled\<close> the
  terminal records (which only the handles still see), \<open>cs_popped\<close> the completions handed
  to the owner, \<open>cs_wire\<close> the bytes the kernel took. \<open>ops\<close> is the storage of the receive ring,
  \<open>pops\<close> that of the terminal queue, both \<^verbatim>\<open>boost::circular_buffer\<close>. The owner callback is
  taken not to throw.
\<close>

section \<open>State\<close>

datatype AcceptanceState = AcOpen | AcSettling | AcClosed

record WriteOpRecord =
  wo_id :: u64
  wo_total :: nat
  wo_terminal :: bool
  wo_sent :: nat
  wo_remaining :: nat
  wo_error :: error_code
  wo_data :: "byte list"

record CompletedWrite =
  cw_id :: u64
  cw_sent :: nat
  cw_error :: error_code

datatype conn_event = WriteHubNotify | CloseHubNotify | OwnerDirty

record ('c, 'p) ConnectionState =
  cs_ring :: "'c ReceiveRing"
  cs_owner_dirty :: bool
  cs_ops :: "WriteOpRecord list"
  cs_queue :: OutboundQueue
  cs_outbound_max :: nat
  cs_max_ops :: nat
  cs_next_op :: u64
  cs_acceptance :: AcceptanceState
  cs_close_requested :: bool
  cs_read_closed_published :: bool
  cs_last_error :: error_code
  cs_last_error_op :: u64
  cs_close_reason :: error_code
  cs_pending_terminal :: 'p
  cs_service_sealed :: bool
  cs_events :: "conn_event list"
  cs_settled :: "WriteOpRecord list"
  cs_popped :: "CompletedWrite list"
  cs_wire :: "byte list"

definition outbound_ring_bytes :: "nat \<Rightarrow> nat" where
  "outbound_ring_bytes outbound_max = min outbound_max (64 * 1024)"

lemma outbound_ring_bytes_code [code]:
  "outbound_ring_bytes n = (if int n \<le> 65536 then n else 65536)"
  by (simp add: outbound_ring_bytes_def)

definition cs_init ::
  "('c, byte) cb_ops \<Rightarrow> ('p, CompletedWrite) cb_ops \<Rightarrow> nat \<Rightarrow> nat \<Rightarrow> nat \<Rightarrow> ('c, 'p) ConnectionState" where
  "cs_init ops pops inbound_max outbound_max max_ops =
     \<lparr>cs_ring = rr_init ops inbound_max, cs_owner_dirty = False, cs_ops = [],
      cs_queue = oq_init (outbound_ring_bytes outbound_max) outbound_max max_ops,
      cs_outbound_max = outbound_max, cs_max_ops = max_ops, cs_next_op = 1, cs_acceptance = AcOpen,
      cs_close_requested = False, cs_read_closed_published = False, cs_last_error = no_error,
      cs_last_error_op = 0, cs_close_reason = no_error,
      cs_pending_terminal = cb_set_capacity pops (cb_new pops) (max 1 max_ops),
      cs_service_sealed = False, cs_events = [], cs_settled = [], cs_popped = [], cs_wire = []\<rparr>"

definition cs_event :: "conn_event \<Rightarrow> ('c, 'p) ConnectionState \<Rightarrow> ('c, 'p) ConnectionState" where
  "cs_event e s = s\<lparr>cs_events := cs_events s @ [e]\<rparr>"

definition WakeOwner :: "('c, 'p) ConnectionState \<Rightarrow> ('c, 'p) ConnectionState" where
  "WakeOwner s = (if cs_owner_dirty s then cs_event OwnerDirty s else s)"

definition PendingCountLocked :: "('p, CompletedWrite) cb_ops \<Rightarrow> ('c, 'p) ConnectionState \<Rightarrow> nat" where
  "PendingCountLocked pops s = length (cb_contents pops (cs_pending_terminal s))"

definition completion :: "WriteOpRecord \<Rightarrow> CompletedWrite" where
  "completion r = \<lparr>cw_id = wo_id r, cw_sent = wo_sent r, cw_error = wo_error r\<rparr>"

text \<open>One settled write: its record is final and its completion is queued.\<close>

definition cs_settle ::
  "('p, CompletedWrite) cb_ops \<Rightarrow> WriteOpRecord \<Rightarrow> ('c, 'p) ConnectionState \<Rightarrow> ('c, 'p) ConnectionState" where
  "cs_settle pops r s =
     s\<lparr>cs_pending_terminal := cb_push_back pops (cs_pending_terminal s) (completion r),
       cs_settled := cs_settled s @ [r]\<rparr>"

section \<open>Accepting writes\<close>

record accept_env =
  ae_record :: bool
  ae_push :: bool
  ae_queue :: bool

definition AcceptWrite ::
  "('p, CompletedWrite) cb_ops \<Rightarrow> accept_env \<Rightarrow> ('c, 'p) ConnectionState \<Rightarrow> byte list
   \<Rightarrow> error_code \<times> u64 option \<times> ('c, 'p) ConnectionState" where
  "AcceptWrite pops env s data =
     (if cs_service_sealed s then (make_error_code NetClosed, None, s)
      else if cs_close_requested s then (make_error_code NetClosed, None, s)
      else if cs_acceptance s = AcClosed then (make_error_code NetClosed, None, s)
      else if cs_acceptance s = AcSettling then (make_error_code NetWriteSettling, None, s)
      else if length (cs_ops s) + PendingCountLocked pops s \<ge> cs_max_ops s
        then (make_errc no_buffer_space, None, s)
      else if data = [] then
        (if \<not> ae_record env then (make_errc not_enough_memory, None, s)
         else let record = \<lparr>wo_id = cs_next_op s, wo_total = 0, wo_terminal = True, wo_sent = 0,
                            wo_remaining = 0, wo_error = no_error, wo_data = []\<rparr>;
                  s1 = cs_settle pops record (s\<lparr>cs_next_op := cs_next_op s + 1\<rparr>)
              in (no_error, Some (wo_id record), WakeOwner (cs_event WriteHubNotify s1)))
      else if length data > size_sub (cs_outbound_max s) (oq_TotalBytes (cs_queue s))
        then (make_errc no_buffer_space, None, s)
      else if \<not> ae_record env then (make_errc not_enough_memory, None, s)
      else
        let record = \<lparr>wo_id = cs_next_op s, wo_total = length data, wo_terminal = False, wo_sent = 0,
                      wo_remaining = length data, wo_error = no_error, wo_data = data\<rparr>;
            s1 = s\<lparr>cs_next_op := cs_next_op s + 1\<rparr>
        in if \<not> ae_push env then (make_errc not_enough_memory, None, s1)
           else
             let (append_error, queue') = oq_append_caught (ae_queue env) (cs_queue s) data
             in if ec_fails append_error then (append_error, None, s1\<lparr>cs_queue := queue'\<rparr>)
                else (no_error, Some (wo_id record),
                      WakeOwner (s1\<lparr>cs_queue := queue', cs_ops := cs_ops s @ [record]\<rparr>)))"

definition CanAcceptWrite :: "('p, CompletedWrite) cb_ops \<Rightarrow> ('c, 'p) ConnectionState \<Rightarrow> nat \<Rightarrow> bool" where
  "CanAcceptWrite pops s bytes =
     (if cs_service_sealed s then False
      else if cs_close_requested s \<or> cs_acceptance s \<noteq> AcOpen then False
      else length (cs_ops s) + PendingCountLocked pops s < cs_max_ops s
        \<and> bytes \<le> size_sub (cs_outbound_max s) (oq_TotalBytes (cs_queue s)))"

section \<open>Sending\<close>

text \<open>\<^verbatim>\<open>AttributeSentLocked\<close> gives the bytes sent to the oldest writes: the writes it completes,
  and the ones left active.\<close>

fun attribute_ops :: "nat \<Rightarrow> WriteOpRecord list \<Rightarrow> WriteOpRecord list \<times> WriteOpRecord list" where
  "attribute_ops bytes [] = ([], [])"
| "attribute_ops bytes (op # rest) =
     (if bytes = 0 then ([], op # rest)
      else
        let taken = (if bytes < wo_remaining op then bytes else wo_remaining op);
            op1 = op\<lparr>wo_remaining := wo_remaining op - taken, wo_sent := wo_sent op + taken\<rparr>
        in if wo_remaining op1 = 0
           then let (completed, active) = attribute_ops (bytes - taken) rest
                in (op1\<lparr>wo_terminal := True, wo_error := no_error\<rparr> # completed, active)
           else ([], op1 # rest))"

definition AttributeSentLocked ::
  "('p, CompletedWrite) cb_ops \<Rightarrow> nat \<Rightarrow> ('c, 'p) ConnectionState \<Rightarrow> bool \<times> ('c, 'p) ConnectionState" where
  "AttributeSentLocked pops bytes s =
     (let (completed, active) = attribute_ops bytes (cs_ops s)
      in (completed \<noteq> [], (fold (cs_settle pops) completed s)\<lparr>cs_ops := active\<rparr>))"

definition fail_op :: "error_code \<Rightarrow> WriteOpRecord \<Rightarrow> WriteOpRecord" where
  "fail_op e op = op\<lparr>wo_terminal := True, wo_error := e, wo_remaining := 0\<rparr>"

definition cs_drop_queue :: "('c, 'p) ConnectionState \<Rightarrow> ('c, 'p) ConnectionState" where
  "cs_drop_queue s =
     (if oq_TotalBytes (cs_queue s) \<noteq> 0
      then s\<lparr>cs_queue := snd (oq_ConsumeSent (cs_queue s) (oq_TotalBytes (cs_queue s)))\<rparr> else s)"

definition FailCurrentLocked ::
  "('p, CompletedWrite) cb_ops \<Rightarrow> error_code \<Rightarrow> ('c, 'p) ConnectionState \<Rightarrow> ('c, 'p) ConnectionState" where
  "FailCurrentLocked pops e s =
     (if cs_ops s = [] then s
      else
        let s1 = s\<lparr>cs_acceptance := AcSettling, cs_last_error := e,
                   cs_last_error_op := wo_id (last (cs_ops s))\<rparr>;
            s2 = (fold (cs_settle pops) (map (fail_op e) (cs_ops s)) s1)\<lparr>cs_ops := []\<rparr>;
            s3 = cs_drop_queue s2
        in if \<not> cs_close_requested s3
           then s3\<lparr>cs_acceptance := (if cs_service_sealed s3 then AcClosed else AcOpen)\<rparr>
           else s3)"

record SendResult =
  sr_bytes :: nat
  sr_need_write_wait :: bool
  sr_terminal_changed :: bool
  sr_capacity_freed :: bool

definition kMaxViews :: nat where
  "kMaxViews = 4"

definition EAGAIN :: int where
  "EAGAIN = 11"

definition EINTR :: int where
  "EINTR = 4"

text \<open>The sink answers the bytes it sent, or a negative number, and \<^verbatim>\<open>errno\<close>.\<close>

type_synonym sink = "nat \<Rightarrow> byte list list \<Rightarrow> nat \<Rightarrow> int \<times> int"

fun pump_rounds ::
  "('p, CompletedWrite) cb_ops \<Rightarrow> sink \<Rightarrow> nat \<Rightarrow> nat \<Rightarrow> nat \<Rightarrow> SendResult \<Rightarrow> ('c, 'p) ConnectionState
   \<Rightarrow> SendResult \<times> ('c, 'p) ConnectionState" where
  "pump_rounds pops sink byte_budget round 0 result s = (result, s)"
| "pump_rounds pops sink byte_budget round (Suc rounds) result s =
     (if \<not> sr_bytes result < byte_budget then (result, s)
      else
        let views = oq_GatherViews (cs_queue s) kMaxViews
        in if views = [] then (result, s)
           else
             let offered = sum_list (map length views);
                 allowed = min offered (byte_budget - sr_bytes result);
                 (sent, errno) = sink round views allowed
             in if sent > 0
                then let n = nat sent;
                         (changed, s1) = AttributeSentLocked pops n
                           (s\<lparr>cs_queue := snd (oq_ConsumeSent (cs_queue s) n),
                              cs_wire := cs_wire s @ take n (concat views)\<rparr>)
                     in pump_rounds pops sink byte_budget (Suc round) rounds
                          (result\<lparr>sr_terminal_changed := sr_terminal_changed result \<or> changed,
                                  sr_bytes := sr_bytes result + n, sr_capacity_freed := True\<rparr>) s1
                else if sent < 0 \<and> errno = EAGAIN then (result\<lparr>sr_need_write_wait := True\<rparr>, s)
                else if sent < 0 \<and> errno = EINTR
                then pump_rounds pops sink byte_budget (Suc round) rounds result s
                else (result\<lparr>sr_terminal_changed := True\<rparr>,
                      FailCurrentLocked pops \<lparr>ec_category = SystemCategory, ec_value = errno\<rparr> s))"

definition PumpWrites ::
  "('p, CompletedWrite) cb_ops \<Rightarrow> sink \<Rightarrow> nat \<Rightarrow> nat \<Rightarrow> ('c, 'p) ConnectionState
   \<Rightarrow> SendResult \<times> ('c, 'p) ConnectionState" where
  "PumpWrites pops sink max_rounds byte_budget s =
     (let (r1, s1) = pump_rounds pops sink byte_budget 0 max_rounds
            \<lparr>sr_bytes = 0, sr_need_write_wait = False, sr_terminal_changed = False,
             sr_capacity_freed = False\<rparr> s;
          r2 = r1\<lparr>sr_terminal_changed := sr_terminal_changed r1 \<or> PendingCountLocked pops s1 \<noteq> 0\<rparr>;
          s2 = (if sr_terminal_changed r2 \<or> sr_capacity_freed r2 then cs_event WriteHubNotify s1 else s1)
      in (r2, if sr_terminal_changed r2 then WakeOwner s2 else s2))"

text \<open>\<^verbatim>\<open>SendViewsRaw\<close> of \<^verbatim>\<open>Engine.cc\<close> builds the vector the kernel gets, within the budget.\<close>

fun send_iov :: "byte list list \<Rightarrow> nat \<Rightarrow> byte list list" where
  "send_iov [] remaining = []"
| "send_iov (v # vs) remaining =
     (if remaining = 0 then []
      else if v = [] then send_iov vs remaining
      else let taken = min (length v) remaining in take taken v # send_iov vs (remaining - taken))"

definition SendViewsRaw :: "(nat \<Rightarrow> byte list list \<Rightarrow> int \<times> int) \<Rightarrow> sink" where
  "SendViewsRaw sendmsg round views budget =
     (let iov = send_iov (take kMaxViews views) budget
      in if iov = [] then (0, 0) else sendmsg round iov)"

section \<open>Reporting completions\<close>

definition TryPopTerminal ::
  "('p, CompletedWrite) cb_ops \<Rightarrow> ('c, 'p) ConnectionState
   \<Rightarrow> CompletedWrite option \<times> ('c, 'p) ConnectionState" where
  "TryPopTerminal pops s =
     (case cb_contents pops (cs_pending_terminal s) of
        [] \<Rightarrow> (None, s)
      | item # _ \<Rightarrow>
          (Some item, cs_event WriteHubNotify
             (s\<lparr>cs_pending_terminal := cb_erase_begin pops (cs_pending_terminal s) 1,
                cs_popped := cs_popped s @ [item]\<rparr>)))"

text \<open>\<^verbatim>\<open>DrainTerminal\<close> and \<^verbatim>\<open>DeliverTerminalOwner\<close> pop until nothing is left; each pop shrinks
  the queue, so as many iterations as it holds items suffice.\<close>

fun drain_terminal ::
  "('p, CompletedWrite) cb_ops \<Rightarrow> nat \<Rightarrow> ('c, 'p) ConnectionState
   \<Rightarrow> (CompletedWrite list \<times> ('c, 'p) ConnectionState) option" where
  "drain_terminal pops fuel s =
     (case TryPopTerminal pops s of
        (None, s') \<Rightarrow> Some ([], s')
      | (Some item, s') \<Rightarrow>
          (case fuel of 0 \<Rightarrow> None
           | Suc n \<Rightarrow> map_option (\<lambda>(items, t). (item # items, t)) (drain_terminal pops n s')))"

section \<open>Closing\<close>

definition close_op :: "error_code \<Rightarrow> WriteOpRecord \<Rightarrow> WriteOpRecord" where
  "close_op e op = op\<lparr>wo_terminal := True, wo_error := e\<rparr>"

definition cs_MarkClosed ::
  "('p, CompletedWrite) cb_ops \<Rightarrow> ring_env \<Rightarrow> error_code \<Rightarrow> ('c, 'p) ConnectionState
   \<Rightarrow> ('c, 'p) ConnectionState" where
  "cs_MarkClosed pops env reason0 s =
     (if cs_acceptance s = AcClosed \<and> cs_ops s = [] \<and> cs_read_closed_published s then s
      else
        let reason = (if cs_close_requested s then cs_close_reason s else reason0);
            s1 = s\<lparr>cs_close_reason := reason, cs_close_requested := True\<rparr>;
            settle = (if ec_fails reason then reason else make_errc operation_canceled);
            s2 = (fold (cs_settle pops) (map (close_op settle) (cs_ops s)) s1)\<lparr>cs_ops := []\<rparr>;
            s3 = cs_drop_queue (s2\<lparr>cs_acceptance := AcClosed\<rparr>);
            s4 = s3\<lparr>cs_last_error := (if cs_ops s \<noteq> [] then settle else reason)\<rparr>;
            s5 = (if \<not> cs_read_closed_published s4
                  then s4\<lparr>cs_ring := rr_MarkClosed env (cs_ring s4), cs_read_closed_published := True\<rparr>
                  else s4)
        in WakeOwner (cs_event CloseHubNotify (cs_event WriteHubNotify s5)))"

definition RequestClose ::
  "('p, CompletedWrite) cb_ops \<Rightarrow> ring_env \<Rightarrow> error_code \<Rightarrow> ('c, 'p) ConnectionState
   \<Rightarrow> ('c, 'p) ConnectionState" where
  "RequestClose pops env reason s =
     (if cs_read_closed_published s then s
      else
        let s1 = (if \<not> cs_close_requested s
                  then s\<lparr>cs_close_requested := True, cs_close_reason := reason\<rparr> else s);
            s2 = (if cs_acceptance s1 = AcOpen then s1\<lparr>cs_acceptance := AcSettling\<rparr> else s1)
        in if \<not> cs_owner_dirty s2 then cs_MarkClosed pops env reason s2 else WakeOwner s2)"

section \<open>Invariant\<close>

definition wo_prefix :: "WriteOpRecord \<Rightarrow> byte list" where
  "wo_prefix r = take (wo_sent r) (wo_data r)"

definition wo_rest :: "WriteOpRecord \<Rightarrow> byte list" where
  "wo_rest r = drop (wo_sent r) (wo_data r)"

definition active_ok :: "WriteOpRecord \<Rightarrow> bool" where
  "active_ok r \<longleftrightarrow> \<not> wo_terminal r \<and> wo_total r = length (wo_data r)
     \<and> wo_sent r + wo_remaining r = wo_total r \<and> 0 < wo_remaining r"

text \<open>A settled write reports no error only when all its bytes were sent.\<close>

definition settled_ok :: "WriteOpRecord \<Rightarrow> bool" where
  "settled_ok r \<longleftrightarrow> wo_terminal r \<and> wo_total r = length (wo_data r) \<and> wo_sent r \<le> wo_total r
     \<and> (ec_fails (wo_error r) \<or> wo_sent r = wo_total r)"

definition ops_ok :: "WriteOpRecord list \<Rightarrow> bool" where
  "ops_ok ops \<longleftrightarrow> list_all active_ok ops \<and> list_all (\<lambda>r. wo_sent r = 0) (tl ops)"

definition cs_inv :: "('p, CompletedWrite) cb_ops \<Rightarrow> ('p \<Rightarrow> bool) \<Rightarrow> ('c, 'p) ConnectionState \<Rightarrow> bool" where
  "cs_inv pops pok s \<longleftrightarrow> pok (cs_pending_terminal s)
     \<and> cb_capacity pops (cs_pending_terminal s) = max 1 (cs_max_ops s)
     \<and> length (cs_ops s) + PendingCountLocked pops s \<le> cs_max_ops s
     \<and> oq_inv (cs_queue s) \<and> max_total_bytes (cs_queue s) = cs_outbound_max s
     \<and> ops_ok (cs_ops s) \<and> list_all settled_ok (cs_settled s)
     \<and> oq_bytes (cs_queue s) = concat (map wo_rest (cs_ops s))
     \<and> cs_wire s = concat (map wo_prefix (cs_settled s)) @ concat (map wo_prefix (cs_ops s))
     \<and> map completion (cs_settled s) = cs_popped s @ cb_contents pops (cs_pending_terminal s)
     \<and> (cs_acceptance s = AcClosed \<longrightarrow> cs_ops s = [])
     \<and> (cs_close_requested s \<longrightarrow> cs_acceptance s \<noteq> AcOpen)"

lemma wo_prefix_rest [simp]: "wo_prefix r @ wo_rest r = wo_data r"
  by (simp add: wo_prefix_def wo_rest_def)

lemma length_wo_rest: "active_ok r \<Longrightarrow> length (wo_rest r) = wo_remaining r"
  by (auto simp: active_ok_def wo_rest_def)

lemma unsent_prefixes: "list_all (\<lambda>r. wo_sent r = 0) ops \<Longrightarrow> concat (map wo_prefix ops) = []"
  by (induction ops) (auto simp: wo_prefix_def)

lemma ops_ok_simps [simp]:
  "ops_ok []" "ops_ok (op # rest) \<longleftrightarrow> active_ok op \<and> list_all active_ok rest \<and> list_all (\<lambda>r. wo_sent r = 0) rest"
  by (auto simp: ops_ok_def)

lemma ops_ok_tail: "list_all active_ok rest \<Longrightarrow> list_all (\<lambda>r. wo_sent r = 0) rest \<Longrightarrow> ops_ok rest"
  by (cases rest) auto

text \<open>The attribution loop splits the sent bytes over the writes in order.\<close>

lemma attribute_ops_correct:
  assumes "attribute_ops n ops = (settled, active)" "ops_ok ops"
    and "n \<le> length (concat (map wo_rest ops))"
  shows "ops_ok active \<and> list_all settled_ok settled \<and> list_all (\<lambda>r. \<not> ec_fails (wo_error r)) settled
    \<and> length settled + length active = length ops
    \<and> map wo_id settled @ map wo_id active = map wo_id ops
    \<and> concat (map wo_prefix settled) @ concat (map wo_prefix active)
        = concat (map wo_prefix ops) @ take n (concat (map wo_rest ops))
    \<and> concat (map wo_rest active) = drop n (concat (map wo_rest ops))"
  using assms
proof (induction n ops arbitrary: settled active rule: attribute_ops.induct)
  case (1 bytes)
  then show ?case by simp
next
  case (2 bytes op rest)
  let ?take = "if bytes < wo_remaining op then bytes else wo_remaining op"
  have op: "active_ok op" "list_all active_ok rest" "list_all (\<lambda>r. wo_sent r = 0) rest"
    using 2(3) by auto
  have len: "length (wo_rest op) = wo_remaining op" using op(1) by (rule length_wo_rest)
  consider (none) "bytes = 0" | (partial) "0 < bytes" "bytes < wo_remaining op"
    | (full) "0 < bytes" "wo_remaining op \<le> bytes" by linarith
  then show ?case
  proof cases
    case none
    then show ?thesis using 2 by auto
  next
    case partial
    then have eq: "settled = []" "active = op\<lparr>wo_remaining := wo_remaining op - bytes, wo_sent := wo_sent op + bytes\<rparr> # rest"
      using 2(2) by auto
    let ?op = "op\<lparr>wo_remaining := wo_remaining op - bytes, wo_sent := wo_sent op + bytes\<rparr>"
    have "wo_prefix ?op = wo_prefix op @ take bytes (wo_rest op)"
      by (simp add: wo_prefix_def wo_rest_def take_add)
    moreover have "wo_rest ?op = drop bytes (wo_rest op)" "active_ok ?op"
      using op(1) partial by (simp_all add: wo_rest_def active_ok_def add.commute)
    ultimately show ?thesis using eq partial op len unsent_prefixes [OF op(3)]
      by (simp del: concat_eq_Nil_conv)
  next
    case full
    obtain d a where rec: "attribute_ops (bytes - wo_remaining op) rest = (d, a)" by fastforce
    have eq: "settled = op\<lparr>wo_remaining := 0, wo_sent := wo_sent op + wo_remaining op,
        wo_terminal := True, wo_error := no_error\<rparr> # d" "active = a"
      using 2(2) full rec by auto
    have "ops_ok rest" using op by (simp add: ops_ok_tail)
    moreover have "bytes - wo_remaining op \<le> length (concat (map wo_rest rest))"
      using 2(4) len by simp
    ultimately have IH: "ops_ok a \<and> list_all settled_ok d \<and> list_all (\<lambda>r. \<not> ec_fails (wo_error r)) d
      \<and> length d + length a = length rest \<and> map wo_id d @ map wo_id a = map wo_id rest
      \<and> concat (map wo_prefix d) @ concat (map wo_prefix a)
          = concat (map wo_prefix rest) @ take (bytes - wo_remaining op) (concat (map wo_rest rest))
      \<and> concat (map wo_rest a) = drop (bytes - wo_remaining op) (concat (map wo_rest rest))"
      using 2(1) full rec by simp
    have "wo_sent op + wo_remaining op = length (wo_data op)" using op(1) by (simp add: active_ok_def)
    then have "wo_prefix (op\<lparr>wo_remaining := 0, wo_sent := wo_sent op + wo_remaining op,
        wo_terminal := True, wo_error := no_error\<rparr>) = wo_prefix op @ wo_rest op"
      by (simp add: wo_prefix_def wo_rest_def)
    moreover have "settled_ok (op\<lparr>wo_remaining := 0, wo_sent := wo_sent op + wo_remaining op,
        wo_terminal := True, wo_error := no_error\<rparr>)"
      using op(1) by (simp add: settled_ok_def active_ok_def)
    ultimately show ?thesis using eq IH full len unsent_prefixes [OF op(3)]
      by (simp del: concat_eq_Nil_conv wo_prefix_rest)
  qed
qed

section \<open>Notifications leave the bookkeeping alone\<close>

lemma cs_inv_event [simp]: "cs_inv pops pok (cs_event e s) = cs_inv pops pok s"
  by (simp add: cs_inv_def cs_event_def PendingCountLocked_def)

lemma cs_inv_frame [simp]:
  "cs_inv pops pok (s\<lparr>cs_last_error := e\<rparr>) = cs_inv pops pok s"
  "cs_inv pops pok (s\<lparr>cs_ring := r\<rparr>) = cs_inv pops pok s"
  "cs_inv pops pok (s\<lparr>cs_read_closed_published := b\<rparr>) = cs_inv pops pok s"
  "cs_inv pops pok (s\<lparr>cs_service_sealed := b\<rparr>) = cs_inv pops pok s"
  "cs_inv pops pok (s\<lparr>cs_owner_dirty := b\<rparr>) = cs_inv pops pok s"
  by (simp_all add: cs_inv_def PendingCountLocked_def)

lemma cs_inv_WakeOwner [simp]: "cs_inv pops pok (WakeOwner s) = cs_inv pops pok s"
  by (simp add: WakeOwner_def)

lemma cs_event_frame [simp]:
  "cs_ops (cs_event e s) = cs_ops s" "cs_queue (cs_event e s) = cs_queue s"
  "cs_close_requested (cs_event e s) = cs_close_requested s"
  "cs_close_reason (cs_event e s) = cs_close_reason s"
  "cs_acceptance (cs_event e s) = cs_acceptance s" "cs_settled (cs_event e s) = cs_settled s"
  "cs_read_closed_published (cs_event e s) = cs_read_closed_published s"
  "cs_ring (cs_event e s) = cs_ring s" "cs_service_sealed (cs_event e s) = cs_service_sealed s"
  "cs_popped (cs_event e s) = cs_popped s" "cs_wire (cs_event e s) = cs_wire s"
  "cs_pending_terminal (cs_event e s) = cs_pending_terminal s"
  by (simp_all add: cs_event_def)

lemma WakeOwner_frame [simp]:
  "cs_ops (WakeOwner s) = cs_ops s" "cs_queue (WakeOwner s) = cs_queue s"
  "cs_close_requested (WakeOwner s) = cs_close_requested s"
  "cs_close_reason (WakeOwner s) = cs_close_reason s"
  "cs_acceptance (WakeOwner s) = cs_acceptance s" "cs_settled (WakeOwner s) = cs_settled s"
  "cs_read_closed_published (WakeOwner s) = cs_read_closed_published s"
  "cs_ring (WakeOwner s) = cs_ring s" "cs_service_sealed (WakeOwner s) = cs_service_sealed s"
  "cs_popped (WakeOwner s) = cs_popped s" "cs_wire (WakeOwner s) = cs_wire s"
  "cs_pending_terminal (WakeOwner s) = cs_pending_terminal s"
  by (simp_all add: WakeOwner_def)

section \<open>Settling keeps every completion\<close>

text \<open>What the code needs of a sink: it sends at most what it is allowed to, and \<^verbatim>\<open>errno\<close> is set
  when it sends nothing. \<^verbatim>\<open>SendViewsRaw\<close> is one when \<^verbatim>\<open>sendmsg\<close> takes at most what it is given.\<close>

definition sink_ok :: "sink \<Rightarrow> bool" where
  "sink_ok sink \<longleftrightarrow> (\<forall>round views allowed. length views \<le> kMaxViews \<longrightarrow> 0 < allowed \<longrightarrow>
     allowed \<le> length (concat views) \<longrightarrow>
     (case sink round views allowed of (sent, errno) \<Rightarrow> sent \<le> int allowed \<and> (sent \<le> 0 \<longrightarrow> errno \<noteq> 0)))"

definition kernel_ok :: "(nat \<Rightarrow> byte list list \<Rightarrow> int \<times> int) \<Rightarrow> bool" where
  "kernel_ok sendmsg \<longleftrightarrow> (\<forall>round iov. iov \<noteq> [] \<longrightarrow>
     (case sendmsg round iov of (sent, errno) \<Rightarrow>
        sent \<le> int (length (concat iov)) \<and> (sent \<le> 0 \<longrightarrow> errno \<noteq> 0)))"

lemma sink_okD:
  assumes "sink_ok sink" "length views \<le> kMaxViews" "0 < allowed" "allowed \<le> length (concat views)"
    "sink round views allowed = (sent, errno)"
  shows "sent \<le> int allowed" "sent \<le> 0 \<Longrightarrow> errno \<noteq> 0"
  using assms(1) [unfolded sink_ok_def, THEN spec, of round, THEN spec, of views, THEN spec, of allowed]
    assms(2-5) by simp_all

lemma kernel_okD:
  assumes "kernel_ok sendmsg" "iov \<noteq> []" "sendmsg round iov = (sent, errno)"
  shows "sent \<le> int (length (concat iov))" "sent \<le> 0 \<Longrightarrow> errno \<noteq> 0"
  using assms(1) [unfolded kernel_ok_def, THEN spec, of round, THEN spec, of iov] assms(2,3) by simp_all

lemma send_iov_concat: "concat (send_iov vs n) = take n (concat vs)"
  by (induction vs n rule: send_iov.induct) (auto simp: Let_def min_def)

lemma SendViewsRaw_sink_ok:
  assumes "kernel_ok sendmsg"
  shows "sink_ok (SendViewsRaw sendmsg)"
  unfolding sink_ok_def
proof (intro allI impI)
  fix round allowed and views :: "byte list list"
  assume v: "length views \<le> kMaxViews" "0 < allowed" "allowed \<le> length (concat views)"
  let ?iov = "send_iov (take kMaxViews views) allowed"
  have c: "concat ?iov = take allowed (concat views)" using v(1) by (simp add: send_iov_concat)
  then have len: "length (concat ?iov) = allowed" using v(3) by simp
  then have ne: "?iov \<noteq> []" using v(2) by auto
  obtain sent errno where k: "sendmsg round ?iov = (sent, errno)" by fastforce
  show "case SendViewsRaw sendmsg round views allowed of (sent, errno) \<Rightarrow>
      sent \<le> int allowed \<and> (sent \<le> 0 \<longrightarrow> errno \<noteq> 0)"
    using kernel_okD [OF assms ne k] len ne by (simp add: SendViewsRaw_def Let_def k)
qed

lemma oq_GatherViews_empty: "oq_inv q \<Longrightarrow> oq_bytes q = [] \<Longrightarrow> oq_GatherViews q m = []"
  by (cases "spill q") (auto simp: oq_GatherViews_def oq_bytes_def oq_inv_def Let_def)

lemma length_GatherViews: "length (oq_GatherViews q m) \<le> m"
  by (auto simp: oq_GatherViews_def gather_spill_take Let_def)

text \<open>The three outcomes of a write: refused, empty and settled at once, accepted.\<close>

lemma AcceptWrite_cases:
  assumes acc: "AcceptWrite pops env s data = (e, h, s')"
    and q: "oq_append_caught (ae_queue env) (cs_queue s) data = (qe, q)"
  obtains (refuse) "h = None" "ec_fails e" "s' = s \<or> s' = s\<lparr>cs_next_op := cs_next_op s + 1\<rparr>
        \<or> s' = s\<lparr>cs_next_op := cs_next_op s + 1\<rparr>\<lparr>cs_queue := q\<rparr> \<and> ec_fails qe"
    | (empty) "data = []" "\<not> ec_fails e" "h \<noteq> None" "length (cs_ops s) + PendingCountLocked pops s < cs_max_ops s"
        "s' = WakeOwner (cs_event WriteHubNotify (cs_settle pops
            \<lparr>wo_id = cs_next_op s, wo_total = 0, wo_terminal = True, wo_sent = 0,
             wo_remaining = 0, wo_error = no_error, wo_data = []\<rparr> (s\<lparr>cs_next_op := cs_next_op s + 1\<rparr>)))"
    | (accept) "data \<noteq> []" "\<not> ec_fails e" "h \<noteq> None" "length (cs_ops s) + PendingCountLocked pops s < cs_max_ops s"
        "cs_acceptance s = AcOpen" "\<not> ec_fails qe"
        "s' = WakeOwner (s\<lparr>cs_next_op := cs_next_op s + 1\<rparr>\<lparr>cs_queue := q, cs_ops := cs_ops s @
            [\<lparr>wo_id = cs_next_op s, wo_total = length data, wo_terminal = False, wo_sent = 0,
              wo_remaining = length data, wo_error = no_error, wo_data = data\<rparr>]\<rparr>)"
proof (cases "cs_service_sealed s \<or> cs_close_requested s \<or> cs_acceptance s \<noteq> AcOpen
    \<or> cs_max_ops s \<le> length (cs_ops s) + PendingCountLocked pops s")
  case True
  then have "h = None \<and> ec_fails e \<and> s' = s"
    using acc by (cases "cs_acceptance s") (simp_all add: AcceptWrite_def split: if_splits, auto)
  then show ?thesis using refuse by blast
next
  case False
  then have opn: "\<not> cs_service_sealed s" "\<not> cs_close_requested s" "cs_acceptance s = AcOpen"
    "length (cs_ops s) + PendingCountLocked pops s < cs_max_ops s" by auto
  show ?thesis
  proof (cases "data = []")
    case True
    then show ?thesis using acc opn refuse empty
      by (simp add: AcceptWrite_def Let_def split: if_splits) auto
  next
    case False
    note reduced = acc [unfolded AcceptWrite_def, simplified opn False q Let_def, simplified]
    show ?thesis
    proof (cases "e = no_error")
      case True
      then show ?thesis using reduced accept False opn
        by (auto split: if_splits)
    next
      case ne: False
      then show ?thesis using reduced refuse
        by (auto split: if_splits)
    qed
  qed
qed

lemma fold_settle_frame [simp]:
  "cs_wire (fold (cs_settle pops) rs s) = cs_wire s"
  "cs_close_requested (fold (cs_settle pops) rs s) = cs_close_requested s"
  "cs_close_reason (fold (cs_settle pops) rs s) = cs_close_reason s"
  "cs_service_sealed (fold (cs_settle pops) rs s) = cs_service_sealed s"
  "cs_read_closed_published (fold (cs_settle pops) rs s) = cs_read_closed_published s"
  "cs_ring (fold (cs_settle pops) rs s) = cs_ring s"
  "cs_acceptance (fold (cs_settle pops) rs s) = cs_acceptance s"
  by (induction rs arbitrary: s) (simp_all add: cs_settle_def)

lemma fold_settle_acceptance:
  "(fold (cs_settle pops) rs s)\<lparr>cs_acceptance := a\<rparr> = fold (cs_settle pops) rs (s\<lparr>cs_acceptance := a\<rparr>)"
proof (induction rs arbitrary: s)
  case (Cons r rs)
  have "(cs_settle pops r s)\<lparr>cs_acceptance := a\<rparr> = cs_settle pops r (s\<lparr>cs_acceptance := a\<rparr>)"
    by (simp add: cs_settle_def)
  then show ?case by (simp add: Cons.IH)
qed simp

locale terminal_queue = circular_buffer pops pok
  for pops :: "('p, CompletedWrite) cb_ops" and pok :: "'p \<Rightarrow> bool"
begin

text \<open>Settling as many writes as the queue has room for loses none of their completions.\<close>

lemma fold_settle:
  assumes "pok (cs_pending_terminal s)"
    and "PendingCountLocked pops s + length rs \<le> cb_capacity pops (cs_pending_terminal s)"
  shows "\<exists>p. fold (cs_settle pops) rs s = s\<lparr>cs_pending_terminal := p, cs_settled := cs_settled s @ rs\<rparr> \<and> pok p
    \<and> cb_capacity pops p = cb_capacity pops (cs_pending_terminal s)
    \<and> cb_contents pops p = cb_contents pops (cs_pending_terminal s) @ map completion rs"
  using assms
proof (induction rs arbitrary: s)
  case Nil
  then show ?case by (intro exI [of _ "cs_pending_terminal s"]) simp
next
  case (Cons r rs)
  let ?s = "cs_settle pops r s"
  have room: "length (cb_contents pops (cs_pending_terminal s)) < cb_capacity pops (cs_pending_terminal s)"
    using Cons.prems(2) by (simp add: PendingCountLocked_def)
  have s: "pok (cs_pending_terminal ?s)"
    "cb_capacity pops (cs_pending_terminal ?s) = cb_capacity pops (cs_pending_terminal s)"
    "cb_contents pops (cs_pending_terminal ?s) = cb_contents pops (cs_pending_terminal s) @ [completion r]"
    using Cons.prems(1) room by (simp_all add: cs_settle_def ok_push_back capacity_push_back push_back_room)
  then have "PendingCountLocked pops ?s + length rs \<le> cb_capacity pops (cs_pending_terminal ?s)"
    using Cons.prems(2) by (simp add: PendingCountLocked_def)
  from Cons.IH [OF s(1) this] s show ?case by (auto simp: cs_settle_def)
qed

lemma cs_init_inv: "cs_inv pops pok (cs_init ops pops inbound_max outbound_max max_ops)"
  by (simp add: cs_inv_def cs_init_def PendingCountLocked_def ok_new ok_set_capacity
      capacity_set_capacity contents_set_capacity contents_new)

lemma settle_inv:
  assumes inv: "cs_inv pops pok s" and room: "length rs + length active \<le> length (cs_ops s)"
    and "ops_ok active" "list_all settled_ok rs" "oq_inv q" "max_total_bytes q = cs_outbound_max s"
    and "oq_bytes q = concat (map wo_rest active)"
    and "wire = concat (map wo_prefix (cs_settled s)) @ concat (map wo_prefix rs) @ concat (map wo_prefix active)"
    and "ac = AcClosed \<longrightarrow> active = []" "cr \<longrightarrow> ac \<noteq> AcOpen"
    and s1: "s1 = s\<lparr>cs_queue := q, cs_wire := wire, cs_acceptance := ac, cs_close_requested := cr,
        cs_close_reason := reason, cs_last_error := le, cs_last_error_op := leo\<rparr>"
  shows "cs_inv pops pok ((fold (cs_settle pops) rs s1)\<lparr>cs_ops := active\<rparr>)"
proof -
  have "PendingCountLocked pops s1 + length rs \<le> cb_capacity pops (cs_pending_terminal s1)"
    "pok (cs_pending_terminal s1)"
    using inv room s1 by (auto simp: cs_inv_def PendingCountLocked_def)
  from fold_settle [OF this(2,1)] obtain p where p:
    "fold (cs_settle pops) rs s1 = s1\<lparr>cs_pending_terminal := p, cs_settled := cs_settled s1 @ rs\<rparr>" "pok p"
    "cb_capacity pops p = cb_capacity pops (cs_pending_terminal s1)"
    "cb_contents pops p = cb_contents pops (cs_pending_terminal s1) @ map completion rs" by blast
  show ?thesis unfolding p(1) using inv room p(2-) assms(3-10) s1
    by (simp add: cs_inv_def PendingCountLocked_def)
qed

lemma AcceptWrite_inv:
  assumes inv: "cs_inv pops pok s" and acc: "AcceptWrite pops env s data = (e, h, s')"
  shows "cs_inv pops pok s'"
    and "ec_fails e \<longleftrightarrow> h = None"
    and "ec_fails e \<Longrightarrow> cs_ops s' = cs_ops s \<and> cs_queue s' = cs_queue s \<and> cs_settled s' = cs_settled s"
    and "\<not> ec_fails e \<Longrightarrow> data \<noteq> [] \<Longrightarrow> cs_settled s' = cs_settled s
      \<and> oq_bytes (cs_queue s') = oq_bytes (cs_queue s) @ data"
proof -
  have qinv: "oq_inv (cs_queue s)" using inv by (simp add: cs_inv_def)
  obtain qe q where q: "oq_append_caught (ae_queue env) (cs_queue s) data = (qe, q)" by fastforce
  note put = outbound.put_inv [OF qinv q] outbound.put_held [OF qinv q]
  have refused: "ec_fails qe \<Longrightarrow> q = cs_queue s"
    using q oq_Append_correct [OF qinv, of "ae_queue env" data]
    by (auto simp: oq_append_caught_def split: option.splits if_splits)
  define s1 where "s1 = s\<lparr>cs_next_op := cs_next_op s + 1\<rparr>"
  have inv1: "cs_inv pops pok s1" using inv by (simp add: s1_def cs_inv_def PendingCountLocked_def)
  define zero where "zero = \<lparr>wo_id = cs_next_op s, wo_total = 0, wo_terminal = True, wo_sent = 0,
      wo_remaining = 0, wo_error = no_error, wo_data = []\<rparr>"
  define op where "op = \<lparr>wo_id = cs_next_op s, wo_total = length data, wo_terminal = False, wo_sent = 0,
      wo_remaining = length data, wo_error = no_error, wo_data = data\<rparr>"
  from acc q have "cs_inv pops pok s' \<and> (ec_fails e \<longleftrightarrow> h = None)
    \<and> (ec_fails e \<longrightarrow> cs_ops s' = cs_ops s \<and> cs_queue s' = cs_queue s \<and> cs_settled s' = cs_settled s)
    \<and> (\<not> ec_fails e \<longrightarrow> data \<noteq> [] \<longrightarrow> cs_settled s' = cs_settled s
      \<and> oq_bytes (cs_queue s') = oq_bytes (cs_queue s) @ data)"
  proof (cases rule: AcceptWrite_cases)
    case refuse
    moreover have "ec_fails qe \<Longrightarrow> s1\<lparr>cs_queue := q\<rparr> = s1" using refused by (simp add: s1_def)
    ultimately show ?thesis using inv inv1 by (auto simp: s1_def)
  next
    case empty
    have "settled_ok zero" "wo_prefix zero = []" by (simp_all add: zero_def settled_ok_def wo_prefix_def)
    moreover have "cs_pending_terminal s1 = cs_pending_terminal s" by (simp add: s1_def)
    moreover have room: "length (cb_contents pops (cs_pending_terminal s)) < cb_capacity pops (cs_pending_terminal s)"
      using empty inv by (auto simp: cs_inv_def PendingCountLocked_def)
    ultimately have "cs_inv pops pok (cs_settle pops zero s1)"
      using inv empty(4) push_back_room [OF _ room]
      by (simp add: cs_inv_def cs_settle_def s1_def PendingCountLocked_def ok_push_back capacity_push_back)
    then show ?thesis using empty by (simp add: zero_def s1_def)
  next
    case accept
    have "ops_ok (cs_ops s @ [op])" using inv accept(1)
      by (cases "cs_ops s") (auto simp: cs_inv_def ops_ok_def op_def active_ok_def)
    moreover have "wo_prefix op = []" "wo_rest op = data" by (simp_all add: op_def wo_prefix_def wo_rest_def)
    ultimately have "cs_inv pops pok (s1\<lparr>cs_queue := q, cs_ops := cs_ops s @ [op]\<rparr>)"
      using inv accept(4,5,6) put by (simp add: s1_def cs_inv_def PendingCountLocked_def)
    then show ?thesis using accept put by (simp add: s1_def op_def)
  qed
  then show "cs_inv pops pok s'"
    and "ec_fails e \<longleftrightarrow> h = None"
    and "ec_fails e \<Longrightarrow> cs_ops s' = cs_ops s \<and> cs_queue s' = cs_queue s \<and> cs_settled s' = cs_settled s"
    and "\<not> ec_fails e \<Longrightarrow> data \<noteq> [] \<Longrightarrow> cs_settled s' = cs_settled s
      \<and> oq_bytes (cs_queue s') = oq_bytes (cs_queue s) @ data" by blast+
qed

lemma cs_drop_queue_eq:
  assumes "oq_inv (cs_queue s)"
  obtains q where "cs_drop_queue s = s\<lparr>cs_queue := q\<rparr>" "oq_inv q" "oq_bytes q = []"
    "max_total_bytes q = max_total_bytes (cs_queue s)"
proof (cases "oq_TotalBytes (cs_queue s) = 0")
  case True
  then show ?thesis using that [of "cs_queue s"] assms by (simp add: cs_drop_queue_def oq_TotalBytes_bytes)
next
  case False
  obtain e q where c: "oq_ConsumeSent (cs_queue s) (oq_TotalBytes (cs_queue s)) = (e, q)" by fastforce
  show ?thesis using that [of q] False c oq_ConsumeSent_correct [OF assms c]
    by (auto simp: cs_drop_queue_def oq_TotalBytes_bytes [OF assms] split: if_splits)
qed

lemma settled_fail_op: "ops_ok ops \<Longrightarrow> ec_fails e \<Longrightarrow> list_all settled_ok (map (fail_op e) ops)"
  by (auto simp: ops_ok_def list_all_iff settled_ok_def fail_op_def active_ok_def)

lemma settled_close_op: "ops_ok ops \<Longrightarrow> ec_fails e \<Longrightarrow> list_all settled_ok (map (close_op e) ops)"
  by (auto simp: ops_ok_def list_all_iff settled_ok_def close_op_def active_ok_def)

lemma op_prefixes [simp]:
  "map (wo_prefix \<circ> fail_op e) ops = map wo_prefix ops" "map (wo_prefix \<circ> close_op e) ops = map wo_prefix ops"
  by (simp_all add: wo_prefix_def fail_op_def close_op_def)

text \<open>Settling every active write and dropping the unsent bytes.\<close>

lemma settle_all_inv:
  assumes inv: "cs_inv pops pok s" and "list_all settled_ok rs" "length rs = length (cs_ops s)"
    and "concat (map wo_prefix rs) = concat (map wo_prefix (cs_ops s))"
    and "cr \<longrightarrow> ac \<noteq> AcOpen"
    and s1: "s1 = s\<lparr>cs_acceptance := ac, cs_close_requested := cr, cs_close_reason := reason,
        cs_last_error := le, cs_last_error_op := leo\<rparr>"
    and s2: "s2 = cs_drop_queue ((fold (cs_settle pops) rs s1)\<lparr>cs_ops := []\<rparr>)"
  shows "cs_inv pops pok s2 \<and> cs_close_requested s2 = cr \<and> cs_close_reason s2 = reason \<and> cs_ops s2 = []
    \<and> cs_acceptance s2 = ac \<and> oq_bytes (cs_queue s2) = [] \<and> cs_service_sealed s2 = cs_service_sealed s
    \<and> cs_settled s2 = cs_settled s @ rs \<and> cs_read_closed_published s2 = cs_read_closed_published s
    \<and> cs_ring s2 = cs_ring s"
proof -
  have "PendingCountLocked pops s1 + length rs \<le> cb_capacity pops (cs_pending_terminal s1)"
    "pok (cs_pending_terminal s1)"
    using inv assms(3) s1 by (auto simp: cs_inv_def PendingCountLocked_def)
  from fold_settle [OF this(2,1)] obtain p where p:
    "fold (cs_settle pops) rs s1 = s1\<lparr>cs_pending_terminal := p, cs_settled := cs_settled s1 @ rs\<rparr>" "pok p"
    "cb_capacity pops p = cb_capacity pops (cs_pending_terminal s1)"
    "cb_contents pops p = cb_contents pops (cs_pending_terminal s1) @ map completion rs" by blast
  let ?t = "(fold (cs_settle pops) rs s1)\<lparr>cs_ops := []\<rparr>"
  have "oq_inv (cs_queue ?t)" using inv p(1) s1 by (simp add: cs_inv_def)
  then obtain q where "cs_drop_queue ?t = ?t\<lparr>cs_queue := q\<rparr>" "oq_inv q" "oq_bytes q = []"
    "max_total_bytes q = max_total_bytes (cs_queue ?t)" by (rule cs_drop_queue_eq)
  then show ?thesis unfolding s2 using p s1 inv assms by (simp add: cs_inv_def PendingCountLocked_def)
qed

lemma FailCurrentLocked_inv:
  assumes inv: "cs_inv pops pok s" and e: "ec_fails e"
  shows "cs_inv pops pok (FailCurrentLocked pops e s)"
proof (cases "cs_ops s = []")
  case True
  then show ?thesis using inv by (simp add: FailCurrentLocked_def)
next
  case False
  define s1 where "s1 = s\<lparr>cs_acceptance := AcSettling, cs_close_requested := cs_close_requested s,
    cs_close_reason := cs_close_reason s, cs_last_error := e, cs_last_error_op := wo_id (last (cs_ops s))\<rparr>"
  define s2 where "s2 = cs_drop_queue ((fold (cs_settle pops) (map (fail_op e) (cs_ops s)) s1)\<lparr>cs_ops := []\<rparr>)"
  have ok: "ops_ok (cs_ops s)" using inv by (simp add: cs_inv_def)
  have all: "cs_inv pops pok s2 \<and> cs_close_requested s2 = cs_close_requested s \<and> cs_ops s2 = []
      \<and> cs_service_sealed s2 = cs_service_sealed s"
    using settle_all_inv [OF inv settled_fail_op [OF ok e] _ _ _ s1_def s2_def] by simp
  have "FailCurrentLocked pops e s = (if \<not> cs_close_requested s2
      then s2\<lparr>cs_acceptance := (if cs_service_sealed s2 then AcClosed else AcOpen)\<rparr> else s2)"
    using False by (simp add: FailCurrentLocked_def Let_def s2_def s1_def)
  moreover have "\<not> cs_close_requested s2 \<Longrightarrow>
      cs_inv pops pok (s2\<lparr>cs_acceptance := (if cs_service_sealed s2 then AcClosed else AcOpen)\<rparr>)"
    using all by (simp add: cs_inv_def PendingCountLocked_def)
  ultimately show ?thesis using all by simp
qed

lemma pump_round_sent_inv:
  assumes inv: "cs_inv pops pok s" and n: "n \<le> length (concat views)"
    and views: "views = oq_GatherViews (cs_queue s) k"
    and att: "AttributeSentLocked pops n (s\<lparr>cs_queue := snd (oq_ConsumeSent (cs_queue s) n),
        cs_wire := cs_wire s @ take n (concat views)\<rparr>) = (changed, s')"
  shows "cs_inv pops pok s'"
proof -
  have qinv: "oq_inv (cs_queue s)" and bytes: "oq_bytes (cs_queue s) = concat (map wo_rest (cs_ops s))"
    using inv by (simp_all add: cs_inv_def)
  obtain rest where rest: "oq_bytes (cs_queue s) = concat views @ rest"
    using oq_GatherViews_prefix [OF qinv, of k] views by auto
  have le: "n \<le> length (oq_bytes (cs_queue s))" using n by (simp add: rest)
  obtain e q where c: "oq_ConsumeSent (cs_queue s) n = (e, q)" by fastforce
  have q: "oq_inv q" "max_total_bytes q = max_total_bytes (cs_queue s)" "oq_bytes q = drop n (oq_bytes (cs_queue s))"
    using oq_ConsumeSent_correct [OF qinv c] le by auto
  obtain d a where at: "attribute_ops n (cs_ops s) = (d, a)" by fastforce
  have "take n (concat views) = take n (concat (map wo_rest (cs_ops s)))"
    using n by (simp add: rest flip: bytes)
  moreover have "ops_ok (cs_ops s)" using inv by (simp add: cs_inv_def)
  note d = attribute_ops_correct [OF at this]
  have "a = [] \<or> cs_ops s \<noteq> []" using at by (cases "cs_ops s") auto
  ultimately have "cs_inv pops pok ((fold (cs_settle pops) d (s\<lparr>cs_queue := q,
      cs_wire := cs_wire s @ take n (concat views), cs_acceptance := cs_acceptance s,
      cs_close_requested := cs_close_requested s, cs_close_reason := cs_close_reason s,
      cs_last_error := cs_last_error s, cs_last_error_op := cs_last_error_op s\<rparr>))\<lparr>cs_ops := a\<rparr>)"
    using inv d q le bytes by (intro settle_inv [OF inv _ _ _ _ _ _ _ _ _ refl]) (auto simp: cs_inv_def)
  moreover have "s' = (fold (cs_settle pops) d (s\<lparr>cs_queue := q, cs_wire := cs_wire s @ take n (concat views)\<rparr>))
      \<lparr>cs_ops := a\<rparr>"
    using att c at by (simp add: AttributeSentLocked_def)
  ultimately show ?thesis by simp
qed

lemma FailCurrentLocked_wire [simp]: "cs_wire (FailCurrentLocked pops e s) = cs_wire s"
  by (simp add: FailCurrentLocked_def cs_drop_queue_def Let_def)

lemma AttributeSentLocked_wire: "AttributeSentLocked pops n s = (c, s') \<Longrightarrow> cs_wire s' = cs_wire s"
  by (auto simp: AttributeSentLocked_def split: prod.splits)

lemma pump_rounds_inv:
  assumes "cs_inv pops pok s" "sink_ok sink" "sr_bytes r \<le> budget"
    and "pump_rounds pops sink budget round n r s = (r', s')"
  shows "cs_inv pops pok s' \<and> sr_bytes r' \<le> budget
    \<and> length (cs_wire s') + sr_bytes r = length (cs_wire s) + sr_bytes r'"
  using assms
proof (induction n arbitrary: round r s)
  case 0
  then show ?case by simp
next
  case (Suc n)
  define views where "views = oq_GatherViews (cs_queue s) kMaxViews"
  define allowed where "allowed = min (length (concat views)) (budget - sr_bytes r)"
  obtain sent errno where sk: "sink round views allowed = (sent, errno)" by fastforce
  have off: "sum_list (map length views) = length (concat views)" by (simp add: length_concat)
  show ?case
  proof (cases "sr_bytes r < budget \<and> views \<noteq> []")
    case False
    then show ?thesis using Suc.prems unfolding views_def by (auto split: if_splits)
  next
    case go: True
    have qinv: "oq_inv (cs_queue s)" using Suc.prems(1) by (simp add: cs_inv_def)
    have "concat views \<noteq> []"
      using go oq_GatherViews_progress [OF qinv, of kMaxViews] oq_GatherViews_empty [OF qinv, of kMaxViews]
      by (auto simp: views_def kMaxViews_def)
    then have al: "0 < allowed" "allowed \<le> length (concat views)" "allowed \<le> budget - sr_bytes r"
      using go by (auto simp: allowed_def)
    have "length views \<le> kMaxViews" by (simp add: views_def length_GatherViews)
    note sink = sink_okD [OF Suc.prems(2) this al(1,2) sk]
    obtain changed s1 where at: "AttributeSentLocked pops (nat sent)
        (s\<lparr>cs_queue := snd (oq_ConsumeSent (cs_queue s) (nat sent)),
           cs_wire := cs_wire s @ take (nat sent) (concat views)\<rparr>) = (changed, s1)" by fastforce
    consider (sent) "0 < sent" | (wait) "sent < 0" "errno = EAGAIN" | (intr) "sent < 0" "errno = EINTR"
      | (fail) "sent \<le> 0" "\<not> (sent < 0 \<and> errno = EAGAIN)" "\<not> (sent < 0 \<and> errno = EINTR)" by linarith
    then show ?thesis
    proof cases
      case sent
      have n: "nat sent \<le> length (concat views)" "sr_bytes r + nat sent \<le> budget"
        using sink(1) al go by linarith+
      note inv1 = pump_round_sent_inv [OF Suc.prems(1) n(1) views_def at]
      have rec: "pump_rounds pops sink budget (Suc round) n (r\<lparr>sr_terminal_changed := sr_terminal_changed r \<or> changed,
          sr_bytes := sr_bytes r + nat sent, sr_capacity_freed := True\<rparr>) s1 = (r', s')"
        using Suc.prems(4) go sent sk at off by (simp add: Let_def flip: views_def allowed_def)
      from Suc.IH [OF inv1 Suc.prems(2) _ rec] n AttributeSentLocked_wire [OF at] show ?thesis
        by (simp add: min_def split: if_splits)
    next
      case wait
      then show ?thesis using Suc.prems go sk off by (auto simp: Let_def simp flip: views_def allowed_def)
    next
      case intr
      then have "pump_rounds pops sink budget (Suc round) n r s = (r', s')"
        using Suc.prems(4) go sk off by (simp add: Let_def EAGAIN_def EINTR_def flip: views_def allowed_def)
      from Suc.IH [OF Suc.prems(1-3) this] show ?thesis .
    next
      case fail
      have "r' = r\<lparr>sr_terminal_changed := True\<rparr>"
        "s' = FailCurrentLocked pops \<lparr>ec_category = SystemCategory, ec_value = errno\<rparr> s"
        using Suc.prems(4) go sk off fail by (auto simp: Let_def simp flip: views_def allowed_def split: if_splits)
      then show ?thesis using FailCurrentLocked_inv [OF Suc.prems(1)] sink(2) fail(1) Suc.prems(3)
        by (simp add: ec_fails_def)
    qed
  qed
qed

lemma PumpWrites_inv:
  assumes "cs_inv pops pok s" "sink_ok sink" "PumpWrites pops sink max_rounds budget s = (r, s')"
  shows "cs_inv pops pok s' \<and> sr_bytes r \<le> budget \<and> length (cs_wire s') = length (cs_wire s) + sr_bytes r"
proof -
  let ?r0 = "\<lparr>sr_bytes = 0, sr_need_write_wait = False, sr_terminal_changed = False, sr_capacity_freed = False\<rparr>"
  obtain r1 s1 where p: "pump_rounds pops sink budget 0 max_rounds ?r0 s = (r1, s1)" by fastforce
  from pump_rounds_inv [OF assms(1,2) _ p] assms(3) p show ?thesis
    by (auto simp: PumpWrites_def Let_def)
qed

lemma TryPopTerminal_inv:
  assumes inv: "cs_inv pops pok s" and pop: "TryPopTerminal pops s = (item, s')"
  shows "cs_inv pops pok s'"
    and "case item of None \<Rightarrow> s' = s \<and> cb_contents pops (cs_pending_terminal s) = []
      | Some c \<Rightarrow> cb_contents pops (cs_pending_terminal s) = c # cb_contents pops (cs_pending_terminal s')
         \<and> cs_popped s' = cs_popped s @ [c]"
proof -
  have "cs_inv pops pok s' \<and> (case item of None \<Rightarrow> s' = s \<and> cb_contents pops (cs_pending_terminal s) = []
      | Some c \<Rightarrow> cb_contents pops (cs_pending_terminal s) = c # cb_contents pops (cs_pending_terminal s')
         \<and> cs_popped s' = cs_popped s @ [c])"
  proof (cases "cb_contents pops (cs_pending_terminal s)")
    case Nil
    then show ?thesis using pop inv by (auto simp: TryPopTerminal_def)
  next
    case (Cons c cs)
    have "pok (cs_pending_terminal s)" using inv by (simp add: cs_inv_def)
    then have e: "pok (cb_erase_begin pops (cs_pending_terminal s) 1)"
      "cb_contents pops (cb_erase_begin pops (cs_pending_terminal s) 1) = cs"
      "cb_capacity pops (cb_erase_begin pops (cs_pending_terminal s) 1) = cb_capacity pops (cs_pending_terminal s)"
      using Cons by (simp_all add: ok_erase_begin contents_erase_begin capacity_erase_begin)
    then have "cs_inv pops pok (s\<lparr>cs_pending_terminal := cb_erase_begin pops (cs_pending_terminal s) 1,
        cs_popped := cs_popped s @ [c]\<rparr>)"
      using inv Cons by (simp add: cs_inv_def PendingCountLocked_def)
    then show ?thesis using pop Cons e by (auto simp: TryPopTerminal_def)
  qed
  then show "cs_inv pops pok s'"
    and "case item of None \<Rightarrow> s' = s \<and> cb_contents pops (cs_pending_terminal s) = []
      | Some c \<Rightarrow> cb_contents pops (cs_pending_terminal s) = c # cb_contents pops (cs_pending_terminal s')
         \<and> cs_popped s' = cs_popped s @ [c]" by blast+
qed

lemma cs_MarkClosed_inv:
  assumes inv: "cs_inv pops pok s" and s': "s' = cs_MarkClosed pops env reason0 s"
  defines "reason \<equiv> if cs_close_requested s then cs_close_reason s else reason0"
  shows "cs_inv pops pok s'" "cs_ops s' = []" "cs_acceptance s' = AcClosed"
    "cs_close_requested s' = (cs_close_requested s \<or> \<not> (cs_acceptance s = AcClosed \<and> cs_ops s = [] \<and> cs_read_closed_published s))"
    "cs_read_closed_published s'" "oq_bytes (cs_queue s') = []"
    "cs_settled s' = cs_settled s @ map (close_op (if ec_fails reason then reason else make_errc operation_canceled)) (cs_ops s)"
    "cs_close_requested s \<Longrightarrow> cs_close_reason s' = cs_close_reason s"
proof -
  let ?settle = "if ec_fails reason then reason else make_errc operation_canceled"
  let ?last = "if cs_ops s \<noteq> [] then ?settle else reason"
  define s1 where "s1 = s\<lparr>cs_acceptance := AcClosed, cs_close_requested := True, cs_close_reason := reason,
    cs_last_error := cs_last_error s, cs_last_error_op := cs_last_error_op s\<rparr>"
  define s2 where "s2 = cs_drop_queue ((fold (cs_settle pops) (map (close_op ?settle) (cs_ops s)) s1)\<lparr>cs_ops := []\<rparr>)"
  have ok: "ops_ok (cs_ops s)" using inv by (simp add: cs_inv_def)
  have fails: "ec_fails ?settle" by simp
  note all = settle_all_inv [OF inv settled_close_op [OF ok fails] _ _ _ s1_def s2_def, simplified]
  have "cs_inv pops pok s' \<and> cs_ops s' = [] \<and> cs_acceptance s' = AcClosed
    \<and> cs_close_requested s' = (cs_close_requested s \<or> \<not> (cs_acceptance s = AcClosed \<and> cs_ops s = [] \<and> cs_read_closed_published s))
    \<and> cs_read_closed_published s' \<and> oq_bytes (cs_queue s') = []
    \<and> cs_settled s' = cs_settled s @ map (close_op ?settle) (cs_ops s)
    \<and> (cs_close_requested s \<longrightarrow> cs_close_reason s' = cs_close_reason s)"
  proof (cases "cs_acceptance s = AcClosed \<and> cs_ops s = [] \<and> cs_read_closed_published s")
    case True
    then show ?thesis using inv s' by (simp add: cs_MarkClosed_def cs_inv_def)
  next
    case False
    have comm: "(fold (cs_settle pops) rs (s\<lparr>cs_close_reason := reason, cs_close_requested := True\<rparr>))
        \<lparr>cs_ops := [], cs_acceptance := AcClosed\<rparr> = (fold (cs_settle pops) rs s1)\<lparr>cs_ops := []\<rparr>" for rs
    proof -
      let ?t = "s\<lparr>cs_close_reason := reason, cs_close_requested := True\<rparr>"
      have eq: "?t\<lparr>cs_acceptance := AcClosed\<rparr> = s1" by (simp add: s1_def)
      have "(fold (cs_settle pops) rs ?t)\<lparr>cs_ops := [], cs_acceptance := AcClosed\<rparr>
          = (fold (cs_settle pops) rs ?t)\<lparr>cs_acceptance := AcClosed\<rparr>\<lparr>cs_ops := []\<rparr>" by simp
      then show ?thesis unfolding fold_settle_acceptance eq .
    qed
    have "s' = WakeOwner (cs_event CloseHubNotify (cs_event WriteHubNotify
        (if \<not> cs_read_closed_published s2
         then s2\<lparr>cs_last_error := ?last, cs_ring := rr_MarkClosed env (cs_ring s2), cs_read_closed_published := True\<rparr>
         else s2\<lparr>cs_last_error := ?last\<rparr>)))"
      unfolding s' cs_MarkClosed_def Let_def s2_def comm [symmetric] if_not_P [OF False]
      by (simp add: reason_def)
    then show ?thesis using all False by (auto simp: reason_def)
  qed
  then show "cs_inv pops pok s'" "cs_ops s' = []" "cs_acceptance s' = AcClosed"
    "cs_close_requested s' = (cs_close_requested s \<or> \<not> (cs_acceptance s = AcClosed \<and> cs_ops s = [] \<and> cs_read_closed_published s))"
    "cs_read_closed_published s'" "oq_bytes (cs_queue s') = []"
    "cs_settled s' = cs_settled s @ map (close_op ?settle) (cs_ops s)"
    "cs_close_requested s \<Longrightarrow> cs_close_reason s' = cs_close_reason s" by blast+
qed

lemma RequestClose_inv:
  assumes inv: "cs_inv pops pok s" and s': "s' = RequestClose pops env reason s"
  shows "cs_inv pops pok s'" "cs_read_closed_published s \<or> cs_close_requested s'"
    "cs_close_requested s \<Longrightarrow> cs_close_requested s' \<and> cs_close_reason s' = cs_close_reason s"
proof -
  define s1 where "s1 = (if \<not> cs_close_requested s
      then s\<lparr>cs_close_requested := True, cs_close_reason := reason\<rparr> else s)"
  define s2 where "s2 = (if cs_acceptance s1 = AcOpen then s1\<lparr>cs_acceptance := AcSettling\<rparr> else s1)"
  have s2: "cs_inv pops pok s2" "cs_close_requested s2"
    "cs_close_requested s \<Longrightarrow> cs_close_reason s2 = cs_close_reason s"
    using inv by (auto simp: s2_def s1_def cs_inv_def PendingCountLocked_def)
  have "s' = (if cs_read_closed_published s then s
      else if \<not> cs_owner_dirty s2 then cs_MarkClosed pops env reason s2 else WakeOwner s2)"
    unfolding s' RequestClose_def Let_def s2_def s1_def by simp
  then show "cs_inv pops pok s'" "cs_read_closed_published s \<or> cs_close_requested s'"
    "cs_close_requested s \<Longrightarrow> cs_close_requested s' \<and> cs_close_reason s' = cs_close_reason s"
    using inv s2 cs_MarkClosed_inv [OF s2(1) refl, of env reason] by auto
qed

end

section \<open>Runs\<close>

text \<open>Any sequence of the operations, each with its own failures and sinks.\<close>

datatype conn_action =
    CaWrite accept_env "byte list"
  | CaPump sink nat nat
  | CaPop
  | CaRequestClose ring_env error_code
  | CaMarkClosed ring_env error_code
  | CaSeal

fun action_ok :: "conn_action \<Rightarrow> bool" where
  "action_ok (CaPump sink rounds budget) \<longleftrightarrow> sink_ok sink"
| "action_ok a \<longleftrightarrow> True"

fun cs_exec :: "('p, CompletedWrite) cb_ops \<Rightarrow> conn_action \<Rightarrow> ('c, 'p) ConnectionState \<Rightarrow> ('c, 'p) ConnectionState" where
  "cs_exec pops (CaWrite env data) s = snd (snd (AcceptWrite pops env s data))"
| "cs_exec pops (CaPump sink rounds budget) s = snd (PumpWrites pops sink rounds budget s)"
| "cs_exec pops CaPop s = snd (TryPopTerminal pops s)"
| "cs_exec pops (CaRequestClose env e) s = RequestClose pops env e s"
| "cs_exec pops (CaMarkClosed env e) s = cs_MarkClosed pops env e s"
| "cs_exec pops CaSeal s = s\<lparr>cs_service_sealed := True\<rparr>"

context terminal_queue
begin

lemma cs_exec_inv:
  assumes "action_ok a" "cs_inv pops pok s"
  shows "cs_inv pops pok (cs_exec pops a s)"
proof (cases a)
  case (CaWrite env data)
  obtain e h s' where "AcceptWrite pops env s data = (e, h, s')" by (cases "AcceptWrite pops env s data")
  with AcceptWrite_inv(1) [OF assms(2) this] CaWrite show ?thesis by simp
next
  case (CaPump sink rounds budget)
  obtain r s' where "PumpWrites pops sink rounds budget s = (r, s')" by fastforce
  with PumpWrites_inv [OF assms(2) _ this] assms(1) CaPump show ?thesis by simp
next
  case CaPop
  obtain i s' where "TryPopTerminal pops s = (i, s')" by fastforce
  with TryPopTerminal_inv(1) [OF assms(2) this] CaPop show ?thesis by simp
qed (use assms RequestClose_inv(1) [OF assms(2) refl] cs_MarkClosed_inv(1) [OF assms(2) refl] in simp_all)

lemma cs_run_inv: "list_all action_ok as \<Longrightarrow> cs_inv pops pok s \<Longrightarrow> cs_inv pops pok (fold (cs_exec pops) as s)"
  by (induction as arbitrary: s) (simp_all add: cs_exec_inv)

text \<open>A close request is never taken back, and neither is its reason.\<close>

lemma cs_exec_close:
  fixes s :: "('c, 'p) ConnectionState"
  assumes "cs_inv pops pok s" "cs_close_requested s" "action_ok a"
  shows "cs_close_requested (cs_exec pops a s) \<and> cs_close_reason (cs_exec pops a s) = cs_close_reason s"
proof (cases a)
  case (CaWrite env data)
  then show ?thesis using assms(2) by (simp add: AcceptWrite_def)
next
  case (CaPump sink rounds budget)
  have att: "AttributeSentLocked pops n t = (c, t') \<Longrightarrow> cs_close_requested t' = cs_close_requested t
      \<and> cs_close_reason t' = cs_close_reason t" for n c and t t' :: "('c, 'p) ConnectionState"
    by (auto simp: AttributeSentLocked_def split: prod.splits)
  have fl: "cs_close_requested (FailCurrentLocked pops e t) = cs_close_requested t
      \<and> cs_close_reason (FailCurrentLocked pops e t) = cs_close_reason t" for e and t :: "('c, 'p) ConnectionState"
    by (simp add: FailCurrentLocked_def cs_drop_queue_def Let_def)
  have "cs_close_requested (snd (pump_rounds pops sink budget round n r t)) = cs_close_requested t
      \<and> cs_close_reason (snd (pump_rounds pops sink budget round n r t)) = cs_close_reason t"
    for round n r and t :: "('c, 'p) ConnectionState"
  proof (induction n arbitrary: round r t)
    case (Suc n)
    show ?case by (auto simp: Let_def Suc.IH fl dest!: att split: prod.splits)
  qed simp
  then show ?thesis using assms(2) CaPump
    by (auto simp: PumpWrites_def Let_def split: prod.splits dest!: arg_cong [where f = snd])
next
  case CaPop
  then show ?thesis using assms(2) by (simp add: TryPopTerminal_def split: list.splits)
next
  case (CaRequestClose env e)
  then show ?thesis using assms RequestClose_inv(3) [OF assms(1) refl] by simp
next
  case (CaMarkClosed env e)
  then show ?thesis using assms cs_MarkClosed_inv(4,8) [OF assms(1) refl] by simp
qed (use assms in simp)

lemma cs_run_close:
  fixes s :: "('c, 'p) ConnectionState"
  assumes "cs_inv pops pok s" "cs_close_requested s" "list_all action_ok as"
  shows "cs_close_requested (fold (cs_exec pops) as s)
    \<and> cs_close_reason (fold (cs_exec pops) as s) = cs_close_reason s"
  using assms by (induction as arbitrary: s) (simp_all add: cs_exec_close cs_exec_inv)

lemma drain_terminal_correct:
  assumes "cs_inv pops pok s" "PendingCountLocked pops s \<le> fuel"
  shows "\<exists>t. drain_terminal pops fuel s = Some (cb_contents pops (cs_pending_terminal s), t)
    \<and> cs_inv pops pok t \<and> PendingCountLocked pops t = 0"
  using assms
proof (induction fuel arbitrary: s)
  case 0
  then have "TryPopTerminal pops s = (None, s)" by (simp add: TryPopTerminal_def PendingCountLocked_def)
  then show ?case using 0 by (simp add: PendingCountLocked_def)
next
  case (Suc n)
  obtain item s' where pop: "TryPopTerminal pops s = (item, s')" by fastforce
  note p = TryPopTerminal_inv [OF Suc.prems(1) pop]
  show ?case
  proof (cases item)
    case None
    then show ?thesis using pop p Suc.prems(1) by (simp add: PendingCountLocked_def)
  next
    case (Some c)
    then have "PendingCountLocked pops s' \<le> n" using p(2) Suc.prems(2) by (simp add: PendingCountLocked_def)
    from Suc.IH [OF p(1) this] Some pop p(2) show ?thesis by auto
  qed
qed

end

interpretation vector_completions: terminal_queue vector_ring_ops vr_ok
  by unfold_locales

section \<open>Properties\<close>


definition calm_accept :: accept_env where
  "calm_accept = \<lparr>ae_record = True, ae_push = True, ae_queue = True\<rparr>"

definition three_bytes :: "nat \<Rightarrow> byte list list \<Rightarrow> int \<times> int" where
  "three_bytes round iov = (int (min 3 (length (concat iov))), EAGAIN)"

definition sample_actions :: "conn_action list" where
  "sample_actions = [CaWrite calm_accept [1, 2, 3, 4], CaWrite calm_accept [], CaWrite calm_accept [5, 6],
     CaPump (SendViewsRaw three_bytes) 1 100, CaPump (SendViewsRaw three_bytes) 1 2, CaPop,
     CaMarkClosed calm_env no_error]"

lemma three_bytes_ok: "sink_ok (SendViewsRaw three_bytes)"
  by (rule SendViewsRaw_sink_ok) (auto simp: kernel_ok_def three_bytes_def EAGAIN_def)

lemma sample_actions_ok: "list_all action_ok sample_actions"
  by (simp add: sample_actions_def three_bytes_ok)

definition sample_conn :: "(byte vector_ring, CompletedWrite vector_ring) ConnectionState" where
  "sample_conn = fold (cs_exec vector_ring_ops) sample_actions (cs_init vector_ring_ops vector_ring_ops 8 64 3)"




text \<open>Closing settles everything and is final. Publishing the close of a connection settles every
  active write with the first close reason (or cancellation when that is empty) and an error,
  drops the unsent bytes, and closes the receive side; from then on, whatever happens, the
  reason stays and every write is refused with \<^verbatim>\<open>Closed\<close> and no effect.\<close>

theorem connection_close_is_final:
  assumes "terminal_queue pops pok" and "list_all action_ok as"
    and "s = fold (cs_exec pops) as (cs_init ops pops inbound_max outbound_max max_ops)"
    and "\<not> cs_read_closed_published s" and "t = cs_MarkClosed pops env reason s"
    and "list_all action_ok later" and "u = fold (cs_exec pops) later t"
  shows "cs_ops t = [] \<and> oq_bytes (cs_queue t) = [] \<and> cs_read_closed_published t \<and> rr_closed (cs_ring t)
    \<and> (\<exists>e. ec_fails e \<and> (e = cs_close_reason t \<or> \<not> ec_fails (cs_close_reason t))
         \<and> cs_settled t = cs_settled s @ map (close_op e) (cs_ops s))
    \<and> cs_close_reason u = cs_close_reason t
    \<and> AcceptWrite pops aenv u data = (make_error_code NetClosed, None, u)"
proof -
  have inv: "cs_inv pops pok s" unfolding assms(3)
    by (rule terminal_queue.cs_run_inv [OF assms(1,2) terminal_queue.cs_init_inv [OF assms(1)]])
  note t = terminal_queue.cs_MarkClosed_inv [OF assms(1) inv assms(5)]
  have cr: "cs_close_requested t" using t(4) assms(4) by simp
  note u = terminal_queue.cs_run_close [OF assms(1) t(1) cr assms(6), folded assms(7)]
  have r: "rr_closed (cs_ring t)" "cs_close_reason t = (if cs_close_requested s then cs_close_reason s else reason)"
    using assms(4,5) by (simp_all add: cs_MarkClosed_def Let_def rr_MarkClosed_def cs_drop_queue_def)
  let ?e = "if ec_fails (cs_close_reason t) then cs_close_reason t else make_errc operation_canceled"
  have "ec_fails ?e \<and> (?e = cs_close_reason t \<or> \<not> ec_fails (cs_close_reason t))
      \<and> cs_settled t = cs_settled s @ map (close_op ?e) (cs_ops s)"
    using t(7) unfolding r(2) [symmetric] by simp
  moreover have "AcceptWrite pops aenv u data = (make_error_code NetClosed, None, u)"
    using u by (simp add: AcceptWrite_def)
  ultimately show ?thesis using t u r(1) by blast
qed

definition closed_sample :: "(byte vector_ring, CompletedWrite vector_ring) ConnectionState" where
  "closed_sample = cs_MarkClosed vector_ring_ops calm_env (make_errc timed_out)
     (fold (cs_exec vector_ring_ops) (take 4 sample_actions) (cs_init vector_ring_ops vector_ring_ops 8 64 3))"

theorem connection_close_is_final_witness:
  "AcceptWrite vector_ring_ops calm_accept closed_sample [1] = (make_error_code NetClosed, None, closed_sample)
   \<and> oq_bytes (cs_queue closed_sample) = []"
proof -
  have "\<not> cs_read_closed_published (fold (cs_exec vector_ring_ops) (take 4 sample_actions)
      (cs_init vector_ring_ops vector_ring_ops 8 64 3 :: (byte vector_ring, CompletedWrite vector_ring) ConnectionState))"
    by code_simp
  moreover have "list_all action_ok (take 4 sample_actions)" by (simp add: sample_actions_def three_bytes_ok)
  ultimately show ?thesis
    using connection_close_is_final [OF vector_completions.terminal_queue_axioms _ refl _ closed_sample_def,
        where later = "[]" and u = closed_sample and aenv = calm_accept and data = "[1]"] by simp
qed

text \<open>One pump call hands the kernel at most its byte budget and reports exactly the number of bytes
  the kernel took.\<close>

theorem pump_respects_budget:
  assumes "terminal_queue pops pok" and "cs_inv pops pok s" and "kernel_ok sendmsg"
    and "PumpWrites pops (SendViewsRaw sendmsg) max_rounds budget s = (r, s')"
  shows "cs_inv pops pok s' \<and> sr_bytes r \<le> budget
    \<and> length (cs_wire s') = length (cs_wire s) + sr_bytes r"
  by (rule terminal_queue.PumpWrites_inv [OF assms(1,2) SendViewsRaw_sink_ok [OF assms(3)] assms(4)])

theorem pump_respects_budget_witness:
  "\<exists>r s'. PumpWrites vector_ring_ops (SendViewsRaw three_bytes) 9 2
      (cs_init vector_ring_ops vector_ring_ops 8 64 3 :: (byte vector_ring, CompletedWrite vector_ring) ConnectionState)
      = (r, s') \<and> sr_bytes r \<le> 2"
proof -
  have k: "kernel_ok three_bytes" by (auto simp: kernel_ok_def three_bytes_def EAGAIN_def)
  let ?s = "cs_init vector_ring_ops vector_ring_ops 8 64 3 :: (byte vector_ring, CompletedWrite vector_ring) ConnectionState"
  obtain r s' where p: "PumpWrites vector_ring_ops (SendViewsRaw three_bytes) 9 2 ?s = (r, s')" by fastforce
  from pump_respects_budget [OF vector_completions.terminal_queue_axioms vector_completions.cs_init_inv k p] p
  show ?thesis by blast
qed

text \<open>C40: The owner's drain loop ends after at most as many pops as completions are queued, returns
  all of them in order and leaves none.\<close>

theorem drain_terminal_complete:
  assumes "terminal_queue pops pok" and "cs_inv pops pok s" and "PendingCountLocked pops s \<le> fuel"
  shows "\<exists>t. drain_terminal pops fuel s = Some (cb_contents pops (cs_pending_terminal s), t)
    \<and> cs_inv pops pok t \<and> PendingCountLocked pops t = 0"
  using terminal_queue.drain_terminal_correct [OF assms] .

theorem drain_terminal_complete_witness:
  "\<exists>t. drain_terminal vector_ring_ops 2 sample_conn
     = Some (cb_contents vector_ring_ops (cs_pending_terminal sample_conn), t)
   \<and> PendingCountLocked vector_ring_ops t = 0"
proof -
  have inv: "cs_inv vector_ring_ops vr_ok sample_conn" unfolding sample_conn_def
    by (rule vector_completions.cs_run_inv [OF sample_actions_ok vector_completions.cs_init_inv])
  have "PendingCountLocked vector_ring_ops sample_conn \<le> 2" by code_simp
  from drain_terminal_complete [OF vector_completions.terminal_queue_axioms inv this] show ?thesis by blast
qed

end
