(* ===== verification/RpcResult.thy ===== *)
theory RpcResult
  imports Prelude
begin

text \<open>
  \<^verbatim>\<open>bbt/infra/Result.hpp\<close> and \<^verbatim>\<open>impl/ResultImpl.hpp\<close>: the error body shared by the RPC layer,
  the result type (\<open>Inl\<close> the error), the strict UTF-8 check and the structural check of error
  details. A \<^verbatim>\<open>std::string\<close> is a list of bytes; \<open>ascii\<close> turns a literal into one.
\<close>

section \<open>Errors and results\<close>

type_synonym bytes = "byte list"

definition ascii :: "string \<Rightarrow> bytes" where
  "ascii s = map of_char s"

datatype ErrorCode = InvalidArgument | InvalidContext | RuntimeUnavailable | Closed | Cancelled
  | TimedOut | Overloaded | Unavailable | TransportError | ProtocolError | NotFound | TypeMismatch
  | UnsupportedRoute | OutcomeUnknown | RemoteError | InternalError

datatype RequestPhase = NotStarted | Connecting | Writing | RequestCommitted | ReplyTerminal

definition IsRequestCommitted :: "RequestPhase \<Rightarrow> bool" where
  "IsRequestCommitted phase \<longleftrightarrow> phase = RequestCommitted \<or> phase = ReplyTerminal"

type_synonym pairs = "(bytes \<times> bytes) list"

record Error =
  er_code :: ErrorCode
  er_domain :: bytes
  er_domain_code :: bytes
  er_message :: bytes
  er_backend_category :: bytes
  er_backend_code :: "32 word"
  er_transferred_bytes :: u64
  er_details :: pairs
  er_request_phase :: "RequestPhase option"

definition kErrorDomainInfra :: bytes where
  "kErrorDomainInfra = ascii ''infra''"

definition default_Error :: Error where
  "default_Error = \<lparr>er_code = InternalError, er_domain = kErrorDomainInfra, er_domain_code = [],
     er_message = [], er_backend_category = [], er_backend_code = 0, er_transferred_bytes = 0,
     er_details = [], er_request_phase = None\<rparr>"

definition MakeError :: "ErrorCode \<Rightarrow> bytes \<Rightarrow> Error" where
  "MakeError code message = default_Error\<lparr>er_code := code, er_message := message\<rparr>"

type_synonym 'a result = "Error + 'a"

definition kMaxErrorDetails :: nat where "kMaxErrorDetails = 16"
definition kMaxKeyBytes :: nat where "kMaxKeyBytes = 64"
definition kMaxValueBytes :: nat where "kMaxValueBytes = 256"

section \<open>UTF-8\<close>

text \<open>The lead byte of a multi-byte sequence: the number of continuation bytes, the payload bits
  and the lowest code point that needs this length.\<close>

definition utf8_lead :: "byte \<Rightarrow> (nat \<times> u32 \<times> u32) option" where
  "utf8_lead c =
     (if and c 0xE0 = 0xC0 then Some (1, ucast (and c 0x1F), 0x80)
      else if and c 0xF0 = 0xE0 then Some (2, ucast (and c 0x0F), 0x800)
      else if and c 0xF8 = 0xF0 then Some (3, ucast (and c 0x07), 0x10000)
      else None)"

fun utf8_tail :: "byte list \<Rightarrow> u32 \<Rightarrow> u32 option" where
  "utf8_tail [] code = Some code"
| "utf8_tail (t # ts) code =
     (if and t 0xC0 \<noteq> 0x80 then None
      else utf8_tail ts (or (push_bit 6 code) (ucast (and t 0x3F))))"

text \<open>The loop, on the bytes from the index on.\<close>

function IsValidUtf8 :: "bytes \<Rightarrow> bool" where
  "IsValidUtf8 [] = True"
| "IsValidUtf8 (c # cs) =
     (if c < 0x80 then IsValidUtf8 cs
      else case utf8_lead c of
        None \<Rightarrow> False
      | Some (cont, code, lowest) \<Rightarrow>
          if length cs < cont then False
          else case utf8_tail (take cont cs) code of
            None \<Rightarrow> False
          | Some code' \<Rightarrow>
              if code' < lowest \<or> code' > 0x10FFFF then False
              else if code' \<ge> 0xD800 \<and> code' \<le> 0xDFFF then False
              else IsValidUtf8 (drop cont cs))"
  by pat_completeness auto
termination by (relation "measure length") auto

section \<open>Error details\<close>

text \<open>The loop over the entries; \<open>seen\<close> holds the keys before the current one.\<close>

fun check_details :: "bytes list \<Rightarrow> pairs \<Rightarrow> unit result" where
  "check_details seen [] = Inr ()"
| "check_details seen ((key, val) # rest) =
     (if length key > kMaxKeyBytes
      then Inl (MakeError ProtocolError (ascii ''error.details key exceeds max bytes''))
      else if length val > kMaxValueBytes
      then Inl (MakeError ProtocolError (ascii ''error.details value exceeds max bytes''))
      else if \<not> IsValidUtf8 key \<or> \<not> IsValidUtf8 val
      then Inl (MakeError ProtocolError (ascii ''error.details not valid UTF-8''))
      else if key \<in> set seen
      then Inl (MakeError ProtocolError (ascii ''error.details duplicate key''))
      else check_details (seen @ [key]) rest)"

definition ValidateErrorDetails :: "Error \<Rightarrow> unit result" where
  "ValidateErrorDetails e =
     (if length (er_details e) > kMaxErrorDetails
      then Inl (MakeError ProtocolError (ascii ''error.details exceeds max item count''))
      else check_details [] (er_details e))"

section \<open>What the UTF-8 check decides\<close>

definition scalar :: "nat \<Rightarrow> bool" where
  "scalar u \<longleftrightarrow> u < 0xD800 \<or> (0xE000 \<le> u \<and> u \<le> 0x10FFFF)"

definition utf8_encode :: "nat \<Rightarrow> byte list" where
  "utf8_encode u = map word_of_nat
     (if u < 0x80 then [u]
      else if u < 0x800 then [0xC0 + u div 64, 0x80 + u mod 64]
      else if u < 0x10000 then [0xE0 + u div 4096, 0x80 + u div 64 mod 64, 0x80 + u mod 64]
      else [0xF0 + u div 262144, 0x80 + u div 4096 mod 64, 0x80 + u div 64 mod 64, 0x80 + u mod 64])"

text \<open>The masks of the code, as ranges of the byte value (checked for all 256 bytes).\<close>

lemma masks_table:
  "list_all (\<lambda>n. (and (word_of_int n) 0xE0 = (0xC0 :: byte)) = (192 \<le> n \<and> n < 224)
     \<and> (and (word_of_int n) 0xF0 = (0xE0 :: byte)) = (224 \<le> n \<and> n < 240)
     \<and> (and (word_of_int n) 0xF8 = (0xF0 :: byte)) = (240 \<le> n \<and> n < 248)
     \<and> (and (word_of_int n) 0xC0 = (0x80 :: byte)) = (128 \<le> n \<and> n < 192)) [0..255]"
  by code_simp

lemma byte_masks:
  "(and c 0xE0 = (0xC0 :: byte)) = (192 \<le> unat c \<and> unat c < 224)"
  "(and c 0xF0 = (0xE0 :: byte)) = (224 \<le> unat c \<and> unat c < 240)"
  "(and c 0xF8 = (0xF0 :: byte)) = (240 \<le> unat c \<and> unat c < 248)"
  "(and c 0xC0 = (0x80 :: byte)) = (128 \<le> unat c \<and> unat c < 192)"
proof -
  have "uint c < 256" using unsigned_less [of c, where 'a = int] by simp
  then have "uint c \<in> set [0..255]" unfolding set_upto by simp
  note c = this
  have e: "(word_of_nat (unat c) :: byte) = c" by simp
  from bspec [OF masks_table [unfolded list_all_iff] c]
  show "(and c 0xE0 = (0xC0 :: byte)) = (192 \<le> unat c \<and> unat c < 224)"
    "(and c 0xF0 = (0xE0 :: byte)) = (224 \<le> unat c \<and> unat c < 240)"
    "(and c 0xF8 = (0xF0 :: byte)) = (240 \<le> unat c \<and> unat c < 248)"
    "(and c 0xC0 = (0x80 :: byte)) = (128 \<le> unat c \<and> unat c < 192)"
    unfolding word_of_int_uint uint_nat by (simp_all add: e del: of_nat_unat)
qed

lemma low_bits:
  "unat (ucast (and c 0x1F :: byte) :: u32) = unat c mod 32"
  "unat (ucast (and c 0x0F :: byte) :: u32) = unat c mod 16"
  "unat (ucast (and c 0x07 :: byte) :: u32) = unat c mod 8"
  "unat (ucast (and c 0x3F :: byte) :: u32) = unat c mod 64"
proof -
  have mask: "unat (ucast (and c (mask n) :: byte) :: u32) = unat c mod 2 ^ n" for n
  proof -
    have "and c (mask n) = take_bit n c" by (simp only: take_bit_eq_mask)
    moreover have "unat (take_bit n c) < 2 ^ 32" using unsigned_less [of "take_bit n c", where 'a = nat] by simp
    moreover have "unat (take_bit n c) = unat c mod 2 ^ n"
      by (simp only: unsigned_take_bit_eq) (simp only: take_bit_eq_mod)
    ultimately show ?thesis by (simp add: unsigned_ucast_eq take_bit_nat_eq_self)
  qed
  show "unat (ucast (and c 0x1F :: byte) :: u32) = unat c mod 32"
    using mask [of 5] by (simp add: mask_eq_exp_minus_1)
  show "unat (ucast (and c 0x0F :: byte) :: u32) = unat c mod 16"
    using mask [of 4] by (simp add: mask_eq_exp_minus_1)
  show "unat (ucast (and c 0x07 :: byte) :: u32) = unat c mod 8"
    using mask [of 3] by (simp add: mask_eq_exp_minus_1)
  show "unat (ucast (and c 0x3F :: byte) :: u32) = unat c mod 64"
    using mask [of 6] by (simp add: mask_eq_exp_minus_1)
qed

lemma shift_in:
  assumes "unat (code :: u32) < 2 ^ 26" "unat (b :: u32) < 64"
  shows "unat (or (push_bit 6 code) b) = unat code * 64 + unat b"
proof -
  have "unat (take_bit 6 b) = unat b"
    using assms(2) by (simp add: unsigned_take_bit_eq take_bit_nat_eq_self)
  then have "take_bit 6 b = b" by (simp add: word_unat_eq_iff)
  then have "or (push_bit 6 code) b = push_bit 6 code + b"
    by (metis bit_0_eq bit_and_iff bit_push_bit_iff bit_take_bit_iff bot_apply disjunctive_add leD)
  moreover have "unat (push_bit 6 code) = unat code * 64"
    using assms(1) by (simp only: unsigned_push_bit_eq) (simp add: push_bit_eq_mult take_bit_nat_eq_self)
  ultimately show ?thesis using assms by (simp add: unat_word_ariths)
qed

text \<open>The check with numbers: bytes as values below 256.\<close>

lemma utf8_lead_eq:
  "utf8_lead c = (if 192 \<le> unat c \<and> unat c < 224 then Some (1, ucast (and c 0x1F), 0x80)
     else if 224 \<le> unat c \<and> unat c < 240 then Some (2, ucast (and c 0x0F), 0x800)
     else if 240 \<le> unat c \<and> unat c < 248 then Some (3, ucast (and c 0x07), 0x10000) else None)"
  by (simp add: utf8_lead_def byte_masks)

lemma utf8_tail_step:
  assumes "unat code < 2 ^ 26" "128 \<le> unat t" "unat t < 192"
  shows "\<exists>code'. utf8_tail (t # ts) code = utf8_tail ts code' \<and> unat code' = unat code * 64 + (unat t - 128)"
proof -
  have "unat t mod 64 = unat t - 128" using assms(2,3) by (simp add: mod_if)
  then show ?thesis using assms shift_in [OF assms(1), of "ucast (and t 0x3F)"]
    by (intro exI [of _ "or (push_bit 6 code) (ucast (and t 0x3F))"]) (simp add: byte_masks low_bits)
qed

lemma utf8_tail_None: "\<not> (128 \<le> unat t \<and> unat t < 192) \<Longrightarrow> utf8_tail (t # ts) code = None"
  by (simp add: byte_masks)

definition cont_byte :: "byte \<Rightarrow> bool" where
  "cont_byte t \<longleftrightarrow> 128 \<le> unat t \<and> unat t < 192"

definition cont_value :: "byte list \<Rightarrow> nat \<Rightarrow> nat" where
  "cont_value ts v = foldl (\<lambda>v t. v * 64 + (unat t - 128)) v ts"

lemma utf8_tail_bounded:
  "list_all cont_byte ts \<Longrightarrow> unat code < 2 ^ (32 - 6 * length ts) \<Longrightarrow> length ts \<le> 4 \<Longrightarrow>
   \<exists>code'. utf8_tail ts code = Some code' \<and> unat code' = cont_value ts (unat code)"
proof (induction ts arbitrary: code)
  case (Cons t ts)
  have t: "128 \<le> unat t" "unat t < 192" using Cons.prems(1) by (simp_all add: cont_byte_def)
  have le: "(2 :: nat) ^ (32 - 6 * length (t # ts)) \<le> 2 ^ 26" by (intro power_increasing) simp_all
  then have code: "unat code < 2 ^ 26" using Cons.prems(2) by linarith
  obtain code' where c: "utf8_tail (t # ts) code = utf8_tail ts code'"
    "unat code' = unat code * 64 + (unat t - 128)" using utf8_tail_step [OF code t] by blast
  have "32 - 6 * length ts = (32 - 6 * length (t # ts)) + 6" using Cons.prems(3) by simp
  then have "(2 :: nat) ^ (32 - 6 * length ts) = 2 ^ (32 - 6 * length (t # ts)) * 64"
    by (simp only: power_add) simp
  then have "unat code' < 2 ^ (32 - 6 * length ts)" using c(2) Cons.prems(2) t by linarith
  from Cons.IH [OF _ this] Cons.prems c show ?case by (auto simp: cont_value_def)
qed (simp add: cont_value_def)

lemma utf8_tail_value:
  assumes "list_all cont_byte ts" "length ts \<le> 3" "unat code < 32"
  shows "\<exists>code'. utf8_tail ts code = Some code' \<and> unat code' = cont_value ts (unat code)"
proof -
  have "(2 :: nat) ^ 5 \<le> 2 ^ (32 - 6 * length ts)" using assms(2) by (intro power_increasing) auto
  then have "(32 :: nat) \<le> 2 ^ (32 - 6 * length ts)" by simp
  then have "unat code < 2 ^ (32 - 6 * length ts)" using assms(3) by linarith
  then show ?thesis using assms(1,2) by (intro utf8_tail_bounded) auto
qed

lemma utf8_tail_SomeD: "utf8_tail ts code = Some code' \<Longrightarrow> list_all cont_byte ts"
  by (induction ts code rule: utf8_tail.induct) (auto simp: byte_masks cont_byte_def split: if_splits)

text \<open>One multi-byte sequence: accepted exactly when it is the encoding of a scalar value.\<close>

lemma word_of_nat_byte: "unat (c :: byte) = numeral k + a \<Longrightarrow> numeral k + word_of_nat a = c"
proof -
  assume "unat c = numeral k + a"
  then have "(word_of_nat (unat c) :: byte) = word_of_nat (numeral k + a)" by (rule arg_cong)
  then show "numeral k + word_of_nat a = c" by simp
qed

lemma digit_div: "(b :: nat) < 64 \<Longrightarrow> (a * 64 + b) div 64 = a"
  by simp

lemma digit_mod: "(b :: nat) < 64 \<Longrightarrow> (a * 64 + b) mod 64 = b"
  by simp

lemma cont_byteE:
  assumes "cont_byte t"
  obtains b where "unat t = 128 + b" "b < 64"
  using assms that [of "unat t - 128"] by (auto simp: cont_byte_def)

lemma utf8_lead_cases:
  assumes "utf8_lead c = Some (k, code, lowest)"
  obtains (two) a where "k = 1" "unat c = 192 + a" "a < 32" "unat code = a" "unat lowest = 0x80"
    | (three) a where "k = 2" "unat c = 224 + a" "a < 16" "unat code = a" "unat lowest = 0x800"
    | (four) a where "k = 3" "unat c = 240 + a" "a < 8" "unat code = a" "unat lowest = 0x10000"
proof -
  consider "192 \<le> unat c \<and> unat c < 224" | "224 \<le> unat c \<and> unat c < 240" | "240 \<le> unat c \<and> unat c < 248"
    using assms by (auto simp: utf8_lead_eq split: if_splits)
  then show thesis
  proof cases
    case 1
    then obtain a where a: "unat c = 192 + a" "a < 32" by (auto simp: le_iff_add)
    have "(6 * 32 + a) mod 32 = a mod 32" by (rule mod_mult_self3)
    then have "(192 + a) mod 32 = a" using a by simp
    with a show ?thesis using two [of a] assms low_bits(1) [of c] by (auto simp: utf8_lead_eq)
  next
    case 2
    then obtain a where a: "unat c = 224 + a" "a < 16" by (auto simp: le_iff_add)
    have "(14 * 16 + a) mod 16 = a mod 16" by (rule mod_mult_self3)
    then have "(224 + a) mod 16 = a" using a by simp
    with a show ?thesis using three [of a] assms low_bits(2) [of c] by (auto simp: utf8_lead_eq)
  next
    case 3
    then obtain a where a: "unat c = 240 + a" "a < 8" by (auto simp: le_iff_add)
    have "(30 * 8 + a) mod 8 = a mod 8" by (rule mod_mult_self3)
    then have "(240 + a) mod 8 = a" using a by simp
    with a show ?thesis using four [of a] assms low_bits(3) [of c] by (auto simp: utf8_lead_eq)
  qed
qed

text \<open>A sequence with the value \<open>u\<close>, not overlong, is the encoding of \<open>u\<close>.\<close>

lemma utf8_sequence:
  assumes lead: "utf8_lead c = Some (k, code, lowest)" and "list_all cont_byte ts" "length ts = k"
    and u: "u = cont_value ts (unat code)" and "unat lowest \<le> u"
  shows "utf8_encode u = c # ts"
  using lead
proof (cases rule: utf8_lead_cases)
  case (two a)
  obtain t where ts: "ts = [t]" using two(1) assms(3) by (auto simp: length_Suc_conv)
  obtain b where b: "unat t = 128 + b" "b < 64" using assms(2) ts cont_byteE by auto
  have v: "u = a * 64 + b" using u ts b two by (simp add: cont_value_def)
  have "u div 64 = a" "u mod 64 = b" unfolding v by (rule digit_div digit_mod, fact b(2))+
  moreover have "u < 0x800" using v b two by simp
  ultimately show ?thesis using assms(5) two b ts by (auto simp: utf8_encode_def intro!: word_of_nat_byte)
next
  case (three a)
  obtain t1 t2 where ts: "ts = [t1, t2]" using three(1) assms(3) by (auto simp: length_Suc_conv numeral_eq_Suc)
  obtain b1 where b1: "unat t1 = 128 + b1" "b1 < 64" using assms(2) ts cont_byteE by auto
  obtain b2 where b2: "unat t2 = 128 + b2" "b2 < 64" using assms(2) ts cont_byteE by auto
  have v: "u = (a * 64 + b1) * 64 + b2" using u ts b1 b2 three by (simp add: cont_value_def)
  have "u div 64 = a * 64 + b1" "u mod 64 = b2" unfolding v by (rule digit_div digit_mod, fact b2(2))+
  moreover have "u div 4096 = u div 64 div 64" by (simp add: div_mult2_eq [symmetric])
  ultimately have "u div 4096 = a" "u div 64 mod 64 = b1" "u mod 64 = b2"
    using digit_div [OF b1(2), of a] digit_mod [OF b1(2), of a] by simp_all
  moreover have "u < 0x10000" using v b1 b2 three by simp
  ultimately show ?thesis using assms(5) three b1 b2 ts by (auto simp: utf8_encode_def intro!: word_of_nat_byte)
next
  case (four a)
  obtain t1 t2 t3 where ts: "ts = [t1, t2, t3]" using four(1) assms(3) by (auto simp: length_Suc_conv numeral_eq_Suc)
  obtain b1 where b1: "unat t1 = 128 + b1" "b1 < 64" using assms(2) ts cont_byteE by auto
  obtain b2 where b2: "unat t2 = 128 + b2" "b2 < 64" using assms(2) ts cont_byteE by auto
  obtain b3 where b3: "unat t3 = 128 + b3" "b3 < 64" using assms(2) ts cont_byteE by auto
  have v: "u = ((a * 64 + b1) * 64 + b2) * 64 + b3" using u ts b1 b2 b3 four by (simp add: cont_value_def)
  have "u div 64 = (a * 64 + b1) * 64 + b2" "u mod 64 = b3" unfolding v by (rule digit_div digit_mod, fact b3(2))+
  moreover have "u div 4096 = u div 64 div 64" "u div 262144 = u div 64 div 64 div 64"
    by (simp_all add: div_mult2_eq [symmetric])
  ultimately have "u div 262144 = a" "u div 4096 mod 64 = b1" "u div 64 mod 64 = b2" "u mod 64 = b3"
    using digit_div [OF b1(2), of a] digit_mod [OF b1(2), of a] digit_div [OF b2(2), of "a * 64 + b1"]
      digit_mod [OF b2(2), of "a * 64 + b1"] by simp_all
  then show ?thesis using assms(5) four b1 b2 b3 ts by (auto simp: utf8_encode_def intro!: word_of_nat_byte)
qed

lemma unat_byte: "n < 256 \<Longrightarrow> unat (word_of_nat n :: byte) = n"
  by (simp add: unsigned_of_nat take_bit_nat_eq_self)

lemma mod_of_base: "a < n \<Longrightarrow> (q * n + a) mod n = (a :: nat)"
  by simp

definition tail_byte :: "nat \<Rightarrow> byte" where
  "tail_byte v = word_of_nat (0x80 + v mod 64)"

lemma tail_byte: "cont_byte (tail_byte v)" "unat (tail_byte v) - 128 = v mod 64"
proof -
  have "unat (tail_byte v) = 0x80 + v mod 64" unfolding tail_byte_def by (rule unat_byte) simp
  moreover have "v mod 64 < 64" by simp
  ultimately show "cont_byte (tail_byte v)" "unat (tail_byte v) - 128 = v mod 64"
    unfolding cont_byte_def by linarith+
qed

lemma tail_value:
  "cont_value [tail_byte u] (u div 64) = u"
  "cont_value [tail_byte (u div 64), tail_byte u] (u div 4096) = u"
  "cont_value [tail_byte (u div 4096), tail_byte (u div 64), tail_byte u] (u div 262144) = u"
proof -
  have dig: "v div 64 * 64 + v mod 64 = v" for v :: nat by simp
  have split: "u div 4096 = u div 64 div 64" "u div 262144 = u div 4096 div 64"
    by (simp_all add: div_mult2_eq [symmetric])
  show "cont_value [tail_byte u] (u div 64) = u"
    "cont_value [tail_byte (u div 64), tail_byte u] (u div 4096) = u"
    "cont_value [tail_byte (u div 4096), tail_byte (u div 64), tail_byte u] (u div 262144) = u"
    by (simp_all only: cont_value_def foldl.simps tail_byte(2) split dig)
qed

lemma lead_byte:
  "v < 32 \<Longrightarrow> utf8_lead (word_of_nat (0xC0 + v)) = Some (1, word_of_nat v, 0x80)"
  "v < 16 \<Longrightarrow> utf8_lead (word_of_nat (0xE0 + v)) = Some (2, word_of_nat v, 0x800)"
  "v < 8 \<Longrightarrow> utf8_lead (word_of_nat (0xF0 + v)) = Some (3, word_of_nat v, 0x10000)"
proof -
  have eq: "unat (w :: u32) = v \<Longrightarrow> w = word_of_nat v" for w by auto
  { assume v: "v < 32"
    let ?c = "word_of_nat (0xC0 + v) :: byte"
    have c: "unat ?c = 0xC0 + v" using v by (intro unat_byte) simp
    have "(6 * 32 + v) mod 32 = v" by (rule mod_of_base) (fact v)
    then have "unat (ucast (and ?c 0x1F) :: u32) = v" using c low_bits(1) [of ?c] by simp
    then show "utf8_lead ?c = Some (1, word_of_nat v, 0x80)" unfolding utf8_lead_eq c using v eq by simp }
  { assume v: "v < 16"
    let ?c = "word_of_nat (0xE0 + v) :: byte"
    have c: "unat ?c = 0xE0 + v" using v by (intro unat_byte) simp
    have "(14 * 16 + v) mod 16 = v" by (rule mod_of_base) (fact v)
    then have "unat (ucast (and ?c 0x0F) :: u32) = v" using c low_bits(2) [of ?c] by simp
    then show "utf8_lead ?c = Some (2, word_of_nat v, 0x800)" unfolding utf8_lead_eq c using v eq by simp }
  { assume v: "v < 8"
    let ?c = "word_of_nat (0xF0 + v) :: byte"
    have c: "unat ?c = 0xF0 + v" using v by (intro unat_byte) simp
    have "(30 * 8 + v) mod 8 = v" by (rule mod_of_base) (fact v)
    then have "unat (ucast (and ?c 0x07) :: u32) = v" using c low_bits(3) [of ?c] by simp
    then show "utf8_lead ?c = Some (3, word_of_nat v, 0x10000)" unfolding utf8_lead_eq c using v eq by simp }
qed

text \<open>A lead byte, its continuation bytes and a value in range are accepted and skipped.\<close>

lemma IsValidUtf8_sequence:
  assumes lead: "utf8_lead c = Some (k, code, lowest)" and c: "128 \<le> unat c" and ts: "list_all cont_byte ts"
    and len: "length ts = k" "k \<le> 3" and code: "unat code < 32"
    and u: "cont_value ts (unat code) = u" "unat lowest \<le> u" "scalar u"
  shows "IsValidUtf8 (c # ts @ s) = IsValidUtf8 s"
proof -
  obtain code' where c': "utf8_tail ts code = Some code'" "unat code' = u"
    using utf8_tail_value [OF ts _ code] len u(1) by auto
  have "\<not> c < 0x80" using c by (simp add: word_less_nat_alt)
  moreover have "\<not> code' < lowest" "\<not> code' > 0x10FFFF" "\<not> (code' \<ge> 0xD800 \<and> code' \<le> 0xDFFF)"
    using c'(2) u(2,3) by (auto simp: word_less_nat_alt word_le_nat_alt scalar_def)
  ultimately show ?thesis using lead len c'(1) by auto
qed

lemma IsValidUtf8_encode:
  assumes "scalar u"
  shows "IsValidUtf8 (utf8_encode u @ s) = IsValidUtf8 s"
proof -
  have max: "u \<le> 0x10FFFF" using assms by (auto simp: scalar_def)
  have small: "v < 32 \<Longrightarrow> unat (word_of_nat v :: u32) = v" for v
    by (simp add: unsigned_of_nat take_bit_nat_eq_self)
  have lead: "v < 32 \<Longrightarrow> unat (word_of_nat (0xC0 + v) :: byte) = 0xC0 + v"
    "v < 16 \<Longrightarrow> unat (word_of_nat (0xE0 + v) :: byte) = 0xE0 + v"
    "v < 8 \<Longrightarrow> unat (word_of_nat (0xF0 + v) :: byte) = 0xF0 + v" for v by (rule unat_byte, simp)+
  consider (one) "u < 0x80" | (two) "0x80 \<le> u" "u < 0x800" | (three) "0x800 \<le> u" "u < 0x10000"
    | (four) "0x10000 \<le> u" by linarith
  then show ?thesis
  proof cases
    case one
    then have "word_of_nat u < (0x80 :: byte)" using unat_byte [of u] by (simp add: word_less_nat_alt)
    then show ?thesis using one by (simp add: utf8_encode_def)
  next
    case two
    have d: "u div 64 < 32" using two by (simp add: less_mult_imp_div_less)
    have "utf8_encode u = word_of_nat (0xC0 + u div 64) # [tail_byte u]"
      using two unfolding utf8_encode_def tail_byte_def by simp
    moreover have "IsValidUtf8 (word_of_nat (0xC0 + u div 64) # [tail_byte u] @ s) = IsValidUtf8 s"
      by (rule IsValidUtf8_sequence [OF lead_byte(1) [OF d], where u = u])
        (use d two assms in \<open>simp_all only: lead(1) small tail_value tail_byte list.pred_inject, simp_all\<close>)
    ultimately show ?thesis by simp
  next
    case three
    have d: "u div 4096 < 16" using three by (simp add: less_mult_imp_div_less)
    then have d32: "u div 4096 < 32" by simp
    have "utf8_encode u = word_of_nat (0xE0 + u div 4096) # [tail_byte (u div 64), tail_byte u]"
      using three unfolding utf8_encode_def tail_byte_def by simp
    moreover have "IsValidUtf8 (word_of_nat (0xE0 + u div 4096) # [tail_byte (u div 64), tail_byte u] @ s) = IsValidUtf8 s"
      by (rule IsValidUtf8_sequence [OF lead_byte(2) [OF d], where u = u])
        (use d d32 three assms in \<open>simp_all only: lead(2) small tail_value tail_byte list.pred_inject, simp_all\<close>)
    ultimately show ?thesis by simp
  next
    case four
    have d: "u div 262144 < 8" using max by (simp add: less_mult_imp_div_less)
    then have d32: "u div 262144 < 32" by simp
    have "utf8_encode u = word_of_nat (0xF0 + u div 262144)
        # [tail_byte (u div 4096), tail_byte (u div 64), tail_byte u]"
      using four unfolding utf8_encode_def tail_byte_def by simp
    moreover have "IsValidUtf8 (word_of_nat (0xF0 + u div 262144)
        # [tail_byte (u div 4096), tail_byte (u div 64), tail_byte u] @ s) = IsValidUtf8 s"
      by (rule IsValidUtf8_sequence [OF lead_byte(3) [OF d], where u = u])
        (use d d32 four assms in \<open>simp_all only: lead(3) small tail_value tail_byte list.pred_inject, simp_all\<close>)
    ultimately show ?thesis by simp
  qed
qed

lemma IsValidUtf8_decodes:
  "IsValidUtf8 s \<Longrightarrow> \<exists>us. list_all scalar us \<and> s = concat (map utf8_encode us)"
proof (induction s rule: IsValidUtf8.induct)
  case 1
  then show ?case by (intro exI [of _ "[]"]) simp
next
  case (2 c cs)
  show ?case
  proof (cases "c < 0x80")
    case True
    then obtain us where us: "list_all scalar us" "cs = concat (map utf8_encode us)" using 2 by auto
    have "unat c < 0x80" using True by (simp add: word_less_nat_alt)
    then have "utf8_encode (unat c) = [c]" "scalar (unat c)" by (simp_all add: utf8_encode_def scalar_def)
    then show ?thesis using us by (intro exI [of _ "unat c # us"]) simp
  next
    case False
    obtain k code lowest where lead: "utf8_lead c = Some (k, code, lowest)"
      using 2(3) False by (cases "utf8_lead c") auto
    have len: "\<not> length cs < k" using 2(3) False lead by (intro notI) simp
    obtain code' where tl: "utf8_tail (take k cs) code = Some code'"
      using 2(3) False lead len by (cases "utf8_tail (take k cs) code") auto
    have "\<not> code' < lowest \<and> \<not> code' > 0x10FFFF \<and> \<not> (code' \<ge> 0xD800 \<and> code' \<le> 0xDFFF)
        \<and> IsValidUtf8 (drop k cs)"
      using 2(3) False lead len tl by (simp split: if_splits)
    note l = lead len tl conjunct1 [OF this] conjunct1 [OF conjunct2 [OF this]]
      conjunct1 [OF conjunct2 [OF conjunct2 [OF this]]] conjunct2 [OF conjunct2 [OF conjunct2 [OF this]]]
    obtain us where us: "list_all scalar us" "drop k cs = concat (map utf8_encode us)"
      using 2(2) [OF False l(1) refl refl l(2,3)] l(4-7) by auto
    have k: "k \<le> 3" "unat code < 32" using l(1) by (cases rule: utf8_lead_cases; simp)+
    have ts: "list_all cont_byte (take k cs)" "length (take k cs) = k"
      using utf8_tail_SomeD [OF l(3)] l(2) by simp_all
    then have u: "unat code' = cont_value (take k cs) (unat code)"
      using utf8_tail_value [OF ts(1) _ k(2)] k(1) l(3) by auto
    have "scalar (unat code')" "unat lowest \<le> unat code'"
      using l(4,5,6) by (auto simp: scalar_def word_less_nat_alt word_le_nat_alt)
    moreover have "utf8_encode (unat code') = c # take k cs"
      by (rule utf8_sequence [OF l(1) ts u]) fact
    ultimately show ?thesis using us
      by (intro exI [of _ "unat code' # us"]) (simp, metis append_take_drop_id)
  qed
qed

lemma check_details_ok:
  "check_details seen ds = Inr () \<longleftrightarrow> distinct (map fst ds) \<and> set seen \<inter> set (map fst ds) = {}
     \<and> list_all (\<lambda>(k, v). length k \<le> kMaxKeyBytes \<and> length v \<le> kMaxValueBytes
         \<and> IsValidUtf8 k \<and> IsValidUtf8 v) ds"
  by (induction seen ds rule: check_details.induct) auto

lemma check_details_error: "check_details seen ds = Inl e \<Longrightarrow> er_code e = ProtocolError"
  by (induction seen ds rule: check_details.induct) (auto simp: MakeError_def split: if_splits)

lemma ValidateErrorDetails_error: "ValidateErrorDetails e = Inl f \<Longrightarrow> er_code f = ProtocolError"
  by (auto simp: ValidateErrorDetails_def MakeError_def split: if_splits dest: check_details_error)

section \<open>Properties\<close>

text \<open>C29: The UTF-8 check accepts exactly the concatenations of the encodings of Unicode scalar values:
  it refuses truncated sequences, stray continuation bytes, overlong forms, surrogates and code points
  above U+10FFFF, and nothing else. It returns for every input.\<close>

theorem IsValidUtf8_decides:
  "IsValidUtf8 s \<longleftrightarrow> (\<exists>us. list_all scalar us \<and> s = concat (map utf8_encode us))"
proof
  assume "\<exists>us. list_all scalar us \<and> s = concat (map utf8_encode us)"
  then obtain us where us: "list_all scalar us" "s = concat (map utf8_encode us)" by blast
  have "list_all scalar us \<Longrightarrow> IsValidUtf8 (concat (map utf8_encode us))" for us
    by (induction us) (simp_all add: IsValidUtf8_encode)
  then show "IsValidUtf8 s" using us by simp
qed (rule IsValidUtf8_decodes)

text \<open>The structural check of error details accepts exactly the lists within the item limit whose
  keys and values are within their limits and valid UTF-8 and whose keys are distinct; every refusal
  is a protocol error.\<close>

theorem ValidateErrorDetails_decides:
  "case ValidateErrorDetails e of
     Inr _ \<Rightarrow> length (er_details e) \<le> kMaxErrorDetails \<and> distinct (map fst (er_details e))
       \<and> list_all (\<lambda>(k, v). length k \<le> kMaxKeyBytes \<and> length v \<le> kMaxValueBytes
           \<and> IsValidUtf8 k \<and> IsValidUtf8 v) (er_details e)
   | Inl f \<Rightarrow> er_code f = ProtocolError
       \<and> \<not> (length (er_details e) \<le> kMaxErrorDetails \<and> distinct (map fst (er_details e))
         \<and> list_all (\<lambda>(k, v). length k \<le> kMaxKeyBytes \<and> length v \<le> kMaxValueBytes
             \<and> IsValidUtf8 k \<and> IsValidUtf8 v) (er_details e))"
proof (cases "ValidateErrorDetails e")
  case (Inl f)
  then show ?thesis using ValidateErrorDetails_error [OF Inl] check_details_ok [of "[]" "er_details e"]
    by (auto simp: ValidateErrorDetails_def split: if_splits)
next
  case (Inr u)
  then show ?thesis using check_details_ok [of "[]" "er_details e"]
    by (auto simp: ValidateErrorDetails_def split: if_splits)
qed

end
