(* ===== verification/SessionCodec.thy ===== *)
theory SessionCodec
  imports RpcResult
begin

text \<open>
  \<^verbatim>\<open>bbt/infra/rpc/Codec.hpp\<close>, \<^verbatim>\<open>Codec.cc\<close> lines 1 to 773: the session frame of wire profile 2, the
  matrix of fields each kind of frame may or must carry, and the translation between frames and
  the protobuf message of \<^verbatim>\<open>proto/bbt/infra/rpc/v2/session_frame.proto\<close>. The protobuf runtime
  (serialisation and parsing of the message) is a parameter: \<open>serialize\<close> and \<open>parse\<close>, with
  \<open>protobuf_ok\<close> the documented behaviour the code relies on. A protobuf enum is open, so its
  fields are integers; a C++ enum class only holds its enumerators here, so the branches for
  values outside it have no counterpart.
\<close>

section \<open>Frames\<close>

datatype FrameKind = FkUnspecified | FkHello | FkHelloAck | FkCall | FkResponse | FkSend
  | FkSendAccepted | FkSessionError | FkClose

datatype TrafficClass = TcSystem | TcService | TcActor

datatype ReplyMode = RmNone | RmRequired

record SessionFrame =
  sf_kind :: FrameKind
  sf_traffic :: TrafficClass
  sf_peer_identity :: bytes
  sf_session_epoch :: u64
  sf_message_id :: bytes
  sf_request_id :: bytes
  sf_service :: bytes
  sf_method :: bytes
  sf_reply :: ReplyMode
  sf_sequence :: u64
  sf_ordering_key :: bytes
  sf_remaining_budget_ms :: u32
  sf_request_schema :: bytes
  sf_response_schema :: bytes
  sf_payload :: "byte list"
  sf_metadata :: pairs
  sf_has_outcome :: bool
  sf_success :: bool
  sf_error :: Error
  sf_connection_nonce :: u64
  sf_acceptance_requested :: "bool option"

definition default_SessionFrame :: SessionFrame where
  "default_SessionFrame = \<lparr>sf_kind = FkUnspecified, sf_traffic = TcSystem, sf_peer_identity = [],
     sf_session_epoch = 0, sf_message_id = [], sf_request_id = [], sf_service = [], sf_method = [],
     sf_reply = RmNone, sf_sequence = 0, sf_ordering_key = [], sf_remaining_budget_ms = 0,
     sf_request_schema = [], sf_response_schema = [], sf_payload = [], sf_metadata = [],
     sf_has_outcome = False, sf_success = False, sf_error = default_Error,
     sf_connection_nonce = 0, sf_acceptance_requested = None\<rparr>"

definition kRpcV2ProfileVersion :: u32 where "kRpcV2ProfileVersion = 2"
definition kRpcV2MaxPeerIdentityBytes :: nat where "kRpcV2MaxPeerIdentityBytes = 256"
definition kRpcV2MaxMessageIdBytes :: nat where "kRpcV2MaxMessageIdBytes = 128"
definition kRpcV2MaxOrderingKeyBytes :: nat where "kRpcV2MaxOrderingKeyBytes = 256"
definition kRpcV2MaxFieldBytes :: nat where "kRpcV2MaxFieldBytes = 256"
definition kRpcV2MaxRemainingBudgetMs :: u32 where "kRpcV2MaxRemainingBudgetMs = 86400000"

section \<open>The protobuf message\<close>

record RpcErrorMsg =
  pe_code :: int
  pe_domain :: bytes
  pe_domain_code :: bytes
  pe_message :: bytes
  pe_backend_category :: bytes
  pe_backend_code :: "32 word"
  pe_transferred_bytes :: u64
  pe_details :: pairs
  pe_request_phase :: "int option"

datatype OutcomeMsg = OutcomeAbsent | OutcomeSuccess bool | OutcomeError RpcErrorMsg

record SessionFrameMsg =
  pb_profile_version :: u32
  pb_frame_kind :: int
  pb_traffic_class :: int
  pb_peer_identity :: bytes
  pb_session_epoch :: u64
  pb_message_id :: bytes
  pb_request_id :: bytes
  pb_service :: bytes
  pb_method :: bytes
  pb_reply_mode :: int
  pb_sequence :: u64
  pb_ordering_key :: bytes
  pb_remaining_budget_ms :: u32
  pb_request_schema :: bytes
  pb_response_schema :: bytes
  pb_payload :: "byte list"
  pb_metadata :: pairs
  pb_outcome :: OutcomeMsg
  pb_connection_nonce :: u64
  pb_acceptance_requested :: "bool option"

text \<open>A message protobuf can carry: its string fields are UTF-8 and its open enums fit 32 bits. What
  such a message carries comes back from its bytes, and a message with a version is not empty.\<close>

definition int32_ok :: "int \<Rightarrow> bool" where
  "int32_ok i \<longleftrightarrow> - (2 ^ 31) \<le> i \<and> i < 2 ^ 31"

definition pairs_utf8 :: "pairs \<Rightarrow> bool" where
  "pairs_utf8 ps \<longleftrightarrow> list_all (\<lambda>(k, v). IsValidUtf8 k \<and> IsValidUtf8 v) ps"

definition error_msg_valid :: "RpcErrorMsg \<Rightarrow> bool" where
  "error_msg_valid pe \<longleftrightarrow> int32_ok (pe_code pe) \<and> IsValidUtf8 (pe_domain pe) \<and> IsValidUtf8 (pe_domain_code pe)
     \<and> IsValidUtf8 (pe_message pe) \<and> IsValidUtf8 (pe_backend_category pe) \<and> pairs_utf8 (pe_details pe)
     \<and> pred_option int32_ok (pe_request_phase pe)"

definition message_valid :: "SessionFrameMsg \<Rightarrow> bool" where
  "message_valid m \<longleftrightarrow> int32_ok (pb_frame_kind m) \<and> int32_ok (pb_traffic_class m) \<and> int32_ok (pb_reply_mode m)
     \<and> IsValidUtf8 (pb_peer_identity m) \<and> IsValidUtf8 (pb_message_id m) \<and> IsValidUtf8 (pb_request_id m)
     \<and> IsValidUtf8 (pb_service m) \<and> IsValidUtf8 (pb_method m) \<and> IsValidUtf8 (pb_request_schema m)
     \<and> IsValidUtf8 (pb_response_schema m) \<and> pairs_utf8 (pb_metadata m)
     \<and> (case pb_outcome m of OutcomeError pe \<Rightarrow> error_msg_valid pe | _ \<Rightarrow> True)"

definition protobuf_ok ::
  "(SessionFrameMsg \<Rightarrow> byte list option) \<Rightarrow> (byte list \<Rightarrow> SessionFrameMsg option) \<Rightarrow> bool" where
  "protobuf_ok serialize parse \<longleftrightarrow> (\<forall>m bs. message_valid m \<and> serialize m = Some bs \<longrightarrow>
     parse bs = Some m \<and> (pb_profile_version m \<noteq> 0 \<longrightarrow> bs \<noteq> []))"

section \<open>Enumerations\<close>

fun ToProtoFrameKind :: "FrameKind \<Rightarrow> int result" where
  "ToProtoFrameKind FkHello = Inr 1"
| "ToProtoFrameKind FkHelloAck = Inr 2"
| "ToProtoFrameKind FkCall = Inr 3"
| "ToProtoFrameKind FkResponse = Inr 4"
| "ToProtoFrameKind FkSend = Inr 5"
| "ToProtoFrameKind FkSendAccepted = Inr 6"
| "ToProtoFrameKind FkSessionError = Inr 7"
| "ToProtoFrameKind FkClose = Inr 8"
| "ToProtoFrameKind FkUnspecified =
     Inl (MakeError ProtocolError (ascii ''frame_kind is not a valid local kind''))"

definition FromProtoFrameKind :: "int \<Rightarrow> FrameKind result" where
  "FromProtoFrameKind kind =
     (if kind = 1 then Inr FkHello else if kind = 2 then Inr FkHelloAck
      else if kind = 3 then Inr FkCall else if kind = 4 then Inr FkResponse
      else if kind = 5 then Inr FkSend else if kind = 6 then Inr FkSendAccepted
      else if kind = 7 then Inr FkSessionError else if kind = 8 then Inr FkClose
      else Inl (MakeError ProtocolError (ascii ''unrecognized frame_kind value'')))"

fun ToProtoTraffic :: "TrafficClass \<Rightarrow> int result" where
  "ToProtoTraffic TcSystem = Inr 0"
| "ToProtoTraffic TcService = Inr 1"
| "ToProtoTraffic TcActor = Inr 2"

definition FromProtoTraffic :: "int \<Rightarrow> TrafficClass result" where
  "FromProtoTraffic traffic =
     (if traffic = 0 then Inr TcSystem else if traffic = 1 then Inr TcService
      else if traffic = 2 then Inr TcActor
      else Inl (MakeError ProtocolError (ascii ''unrecognized traffic_class value'')))"

fun ToProtoReply :: "ReplyMode \<Rightarrow> int result" where
  "ToProtoReply RmNone = Inr 0"
| "ToProtoReply RmRequired = Inr 1"

definition FromProtoReply :: "int \<Rightarrow> ReplyMode result" where
  "FromProtoReply reply =
     (if reply = 0 then Inr RmNone else if reply = 1 then Inr RmRequired
      else Inl (MakeError ProtocolError (ascii ''unrecognized reply_mode value'')))"

fun ToProtoErrorCode :: "ErrorCode \<Rightarrow> int" where
  "ToProtoErrorCode InvalidArgument = 1"
| "ToProtoErrorCode InvalidContext = 2"
| "ToProtoErrorCode RuntimeUnavailable = 3"
| "ToProtoErrorCode Closed = 4"
| "ToProtoErrorCode Cancelled = 5"
| "ToProtoErrorCode TimedOut = 6"
| "ToProtoErrorCode Overloaded = 7"
| "ToProtoErrorCode Unavailable = 8"
| "ToProtoErrorCode TransportError = 9"
| "ToProtoErrorCode ProtocolError = 10"
| "ToProtoErrorCode NotFound = 11"
| "ToProtoErrorCode TypeMismatch = 12"
| "ToProtoErrorCode UnsupportedRoute = 13"
| "ToProtoErrorCode OutcomeUnknown = 14"
| "ToProtoErrorCode RemoteError = 15"
| "ToProtoErrorCode InternalError = 16"

definition FromProtoErrorCode :: "int \<Rightarrow> ErrorCode" where
  "FromProtoErrorCode c =
     (if c = 1 then InvalidArgument else if c = 2 then InvalidContext
      else if c = 3 then RuntimeUnavailable else if c = 4 then Closed else if c = 5 then Cancelled
      else if c = 6 then TimedOut else if c = 7 then Overloaded else if c = 8 then Unavailable
      else if c = 9 then TransportError else if c = 10 then ProtocolError else if c = 11 then NotFound
      else if c = 12 then TypeMismatch else if c = 13 then UnsupportedRoute
      else if c = 14 then OutcomeUnknown else if c = 15 then RemoteError
      else if c = 16 then InternalError else ProtocolError)"

fun ToProtoRequestPhase :: "RequestPhase \<Rightarrow> int" where
  "ToProtoRequestPhase NotStarted = 1"
| "ToProtoRequestPhase Connecting = 2"
| "ToProtoRequestPhase Writing = 3"
| "ToProtoRequestPhase RequestCommitted = 4"
| "ToProtoRequestPhase ReplyTerminal = 5"

definition FromProtoRequestPhase :: "RpcErrorMsg \<Rightarrow> RequestPhase option result" where
  "FromProtoRequestPhase pe =
     (case pe_request_phase pe of
        None \<Rightarrow> Inr None
      | Some p \<Rightarrow>
          if p = 1 then Inr (Some NotStarted) else if p = 2 then Inr (Some Connecting)
          else if p = 3 then Inr (Some Writing) else if p = 4 then Inr (Some RequestCommitted)
          else if p = 5 then Inr (Some ReplyTerminal)
          else Inl (MakeError ProtocolError (ascii ''unrecognized request_phase value'')))"

section \<open>Shared field checks\<close>

text \<open>Sequencing of checks: the first error wins.\<close>

definition seq :: "'a result \<Rightarrow> 'b result \<Rightarrow> 'b result" where
  "seq r k = (case r of Inl e \<Rightarrow> Inl e | Inr _ \<Rightarrow> k)"

definition starts_with :: "bytes \<Rightarrow> bytes \<Rightarrow> bool" where
  "starts_with prefix key \<longleftrightarrow> take (length prefix) key = prefix"

definition HasMetaPrefix :: "bytes \<Rightarrow> bool" where
  "HasMetaPrefix key \<longleftrightarrow> starts_with (ascii ''fw.'') key \<or> starts_with (ascii ''route.'') key
     \<or> starts_with (ascii ''trace.'') key"

fun check_metadata :: "bytes list \<Rightarrow> pairs \<Rightarrow> unit result" where
  "check_metadata seen [] = Inr ()"
| "check_metadata seen ((k, v) # rest) =
     (if k = [] \<or> length k > kMaxKeyBytes
      then Inl (MakeError ProtocolError (ascii ''metadata key empty or exceeds max bytes''))
      else if length v > kMaxValueBytes
      then Inl (MakeError ProtocolError (ascii ''metadata value exceeds max bytes''))
      else if \<not> HasMetaPrefix k
      then Inl (MakeError ProtocolError (ascii ''metadata key uses unregistered prefix''))
      else if \<not> IsValidUtf8 k \<or> \<not> IsValidUtf8 v
      then Inl (MakeError ProtocolError (ascii ''metadata not valid UTF-8''))
      else if k \<in> set seen
      then Inl (MakeError ProtocolError (ascii ''metadata duplicate key''))
      else check_metadata (seen @ [k]) rest)"

definition ValidateMetadata :: "pairs \<Rightarrow> unit result" where
  "ValidateMetadata md =
     (if length md > 32
      then Inl (MakeError ProtocolError (ascii ''metadata exceeds max item count''))
      else check_metadata [] md)"

definition ValidateErrorBranch :: "Error \<Rightarrow> unit result" where
  "ValidateErrorBranch err =
     (if \<not> IsValidUtf8 (er_domain err) \<or> \<not> IsValidUtf8 (er_domain_code err)
         \<or> \<not> IsValidUtf8 (er_message err) \<or> \<not> IsValidUtf8 (er_backend_category err)
      then Inl (MakeError InvalidArgument (ascii ''error string fields not valid UTF-8''))
      else if length (er_domain err) > kMaxKeyBytes \<or> length (er_domain_code err) > kMaxKeyBytes
         \<or> length (er_backend_category err) > kMaxKeyBytes
      then Inl (MakeError InvalidArgument (ascii ''error domain/domain_code/backend_category exceeds max bytes''))
      else if length (er_message err) > kMaxValueBytes
      then Inl (MakeError InvalidArgument (ascii ''error message exceeds max bytes''))
      else ValidateErrorDetails err)"

definition CheckUtf8Len :: "bytes \<Rightarrow> bytes \<Rightarrow> nat \<Rightarrow> bool \<Rightarrow> unit result" where
  "CheckUtf8Len field name limit required =
     (if field = [] then
        (if required then Inl (MakeError InvalidArgument (name @ ascii '' must be non-empty'')) else Inr ())
      else if length field > limit
      then Inl (MakeError InvalidArgument (name @ ascii '' exceeds max bytes''))
      else if \<not> IsValidUtf8 field
      then Inl (MakeError InvalidArgument (name @ ascii '' not valid UTF-8''))
      else Inr ())"

section \<open>The field matrix\<close>

text \<open>The blocks of \<^verbatim>\<open>ValidateKindRules\<close>, in the order of the code. A violation is a protocol error
  when decoding and an invalid argument when encoding.\<close>

definition kind_fail :: "bool \<Rightarrow> bytes \<Rightarrow> unit result" where
  "kind_fail decoding what = Inl (MakeError (if decoding then ProtocolError else InvalidArgument) what)"

definition sign_le :: bytes where
  "sign_le = [0xE2, 0x89, 0xA4]"

definition is_handshake :: "FrameKind \<Rightarrow> bool" where
  "is_handshake k \<longleftrightarrow> k = FkHello \<or> k = FkHelloAck"

definition is_data :: "FrameKind \<Rightarrow> bool" where
  "is_data k \<longleftrightarrow> k = FkCall \<or> k = FkSend \<or> k = FkResponse"

definition is_outcome_kind :: "FrameKind \<Rightarrow> bool" where
  "is_outcome_kind k \<longleftrightarrow> k = FkResponse \<or> k = FkSendAccepted \<or> k = FkSessionError"

definition is_routed :: "FrameKind \<Rightarrow> bool" where
  "is_routed k \<longleftrightarrow> k = FkCall \<or> k = FkResponse"

definition rule_kind :: "SessionFrame \<Rightarrow> unit result" where
  "rule_kind f =
     (if sf_kind f = FkUnspecified
      then Inl (MakeError ProtocolError (ascii ''frame_kind is not a valid local kind'')) else Inr ())"

definition rule_traffic :: "bool \<Rightarrow> SessionFrame \<Rightarrow> unit result" where
  "rule_traffic d f =
     (if is_data (sf_kind f) \<and> sf_traffic f = TcSystem
      then kind_fail d (ascii ''data frame must not use TRAFFIC_SYSTEM'')
      else if \<not> is_data (sf_kind f) \<and> sf_traffic f \<noteq> TcSystem
      then kind_fail d (ascii ''control frame must use TRAFFIC_SYSTEM'') else Inr ())"

definition rule_peer :: "bool \<Rightarrow> SessionFrame \<Rightarrow> unit result" where
  "rule_peer d f =
     (if is_handshake (sf_kind f) then
        (if sf_peer_identity f = [] \<or> length (sf_peer_identity f) > kRpcV2MaxPeerIdentityBytes
            \<or> \<not> IsValidUtf8 (sf_peer_identity f)
         then kind_fail d (ascii ''peer_identity required '' @ sign_le @ ascii ''256 UTF-8 on handshake frame'')
         else Inr ())
      else if sf_peer_identity f \<noteq> []
      then kind_fail d (ascii ''peer_identity must be absent on non-handshake frame'') else Inr ())"

definition rule_nonce :: "bool \<Rightarrow> SessionFrame \<Rightarrow> unit result" where
  "rule_nonce d f =
     (if is_handshake (sf_kind f) then
        (if sf_connection_nonce f = 0
         then kind_fail d (ascii ''connection_nonce must be non-zero on handshake frame'') else Inr ())
      else if sf_connection_nonce f \<noteq> 0
      then kind_fail d (ascii ''connection_nonce must be absent on non-handshake frame'') else Inr ())"

definition rule_epoch :: "bool \<Rightarrow> SessionFrame \<Rightarrow> unit result" where
  "rule_epoch d f =
     (if (is_handshake (sf_kind f) \<or> is_data (sf_kind f) \<or> sf_kind f = FkSendAccepted)
         \<and> sf_session_epoch f = 0
      then kind_fail d (ascii ''session_epoch must be non-zero'') else Inr ())"

definition rule_message :: "bool \<Rightarrow> SessionFrame \<Rightarrow> unit result" where
  "rule_message d f =
     (if sf_kind f = FkSend \<or> sf_kind f = FkSendAccepted then
        (if sf_message_id f = [] \<or> length (sf_message_id f) > kRpcV2MaxMessageIdBytes
            \<or> \<not> IsValidUtf8 (sf_message_id f)
         then kind_fail d (ascii ''message_id required '' @ sign_le @ ascii ''128 UTF-8 on Send/SendAccepted'')
         else Inr ())
      else if sf_message_id f \<noteq> []
      then kind_fail d (ascii ''message_id must be absent on non-Send frame'') else Inr ())"

definition rule_request :: "bool \<Rightarrow> SessionFrame \<Rightarrow> unit result" where
  "rule_request d f =
     (if is_routed (sf_kind f) \<and> sf_request_id f = []
      then kind_fail d (ascii ''request_id required on Call/Response'')
      else if sf_request_id f \<noteq> [] \<and> (length (sf_request_id f) > kRpcV2MaxFieldBytes
         \<or> \<not> IsValidUtf8 (sf_request_id f))
      then kind_fail d (ascii ''request_id exceeds max bytes / not UTF-8'') else Inr ())"

definition rule_field :: "bool \<Rightarrow> SessionFrame \<Rightarrow> bytes \<Rightarrow> bytes \<Rightarrow> unit result" where
  "rule_field d f field name =
     (case CheckUtf8Len field name kRpcV2MaxFieldBytes (is_routed (sf_kind f)) of
        Inl e \<Rightarrow> if d then kind_fail d (name @ ascii '' invalid on wire'') else Inl e
      | Inr _ \<Rightarrow> Inr ())"

definition rule_reply :: "bool \<Rightarrow> SessionFrame \<Rightarrow> unit result" where
  "rule_reply d f =
     (if is_routed (sf_kind f) \<and> sf_reply f \<noteq> RmRequired
      then kind_fail d (ascii ''reply_mode must be Required on Call/Response'')
      else if \<not> is_routed (sf_kind f) \<and> sf_reply f \<noteq> RmNone
      then kind_fail d (ascii ''reply_mode must be None on non-Call/Response frame'') else Inr ())"

definition rule_order :: "bool \<Rightarrow> SessionFrame \<Rightarrow> unit result" where
  "rule_order d f =
     (if sf_sequence f \<noteq> 0 then
        (if sf_ordering_key f = [] \<or> length (sf_ordering_key f) > kRpcV2MaxOrderingKeyBytes
         then kind_fail d (ascii ''ordering_key required '' @ sign_le @ ascii ''256 when sequence enabled'')
         else Inr ())
      else if sf_ordering_key f \<noteq> []
      then kind_fail d (ascii ''ordering_key requires non-zero sequence'') else Inr ())"

definition rule_budget :: "bool \<Rightarrow> SessionFrame \<Rightarrow> unit result" where
  "rule_budget d f =
     (if sf_kind f = FkCall \<or> sf_kind f = FkSend then
        (if sf_remaining_budget_ms f = 0 \<or> sf_remaining_budget_ms f > kRpcV2MaxRemainingBudgetMs
         then kind_fail d (ascii ''remaining_budget_ms must be in 1..max on Call/Send'') else Inr ())
      else if sf_kind f = FkResponse \<or> sf_kind f = FkSendAccepted then
        (if sf_remaining_budget_ms f > kRpcV2MaxRemainingBudgetMs
         then kind_fail d (ascii ''remaining_budget_ms exceeds max'') else Inr ())
      else if sf_remaining_budget_ms f \<noteq> 0
      then kind_fail d (ascii ''remaining_budget_ms must be absent on control frame'') else Inr ())"

definition rule_acceptance :: "bool \<Rightarrow> SessionFrame \<Rightarrow> unit result" where
  "rule_acceptance d f =
     (if sf_acceptance_requested f \<noteq> None \<and> sf_kind f \<noteq> FkSend
      then kind_fail d (ascii ''acceptance_requested allowed only on Send'') else Inr ())"

definition rule_outcome :: "bool \<Rightarrow> SessionFrame \<Rightarrow> unit result" where
  "rule_outcome d f =
     (if sf_has_outcome f \<noteq> is_outcome_kind (sf_kind f)
      then kind_fail d (if is_outcome_kind (sf_kind f) then ascii ''outcome required on this frame kind''
                        else ascii ''outcome must be absent on this frame kind'')
      else if sf_has_outcome f \<and> \<not> sf_success f then
        (case ValidateErrorBranch (sf_error f) of
           Inl e \<Rightarrow> if d \<and> er_code e = InvalidArgument
                    then kind_fail d (ascii ''error branch invalid on wire'') else Inl e
         | Inr _ \<Rightarrow> Inr ())
      else Inr ())"

definition rule_metadata :: "bool \<Rightarrow> SessionFrame \<Rightarrow> unit result" where
  "rule_metadata d f =
     (case ValidateMetadata (sf_metadata f) of
        Inl e \<Rightarrow> if d then kind_fail d (ascii ''metadata invalid on wire'') else Inl e
      | Inr _ \<Rightarrow> Inr ())"

definition ValidateKindRules :: "SessionFrame \<Rightarrow> bool \<Rightarrow> unit result" where
  "ValidateKindRules f d =
     seq (rule_kind f) (seq (rule_traffic d f) (seq (rule_peer d f) (seq (rule_nonce d f)
     (seq (rule_epoch d f) (seq (rule_message d f) (seq (rule_request d f)
     (seq (rule_field d f (sf_service f) (ascii ''service''))
     (seq (rule_field d f (sf_method f) (ascii ''method''))
     (seq (rule_reply d f) (seq (rule_order d f) (seq (rule_budget d f)
     (seq (rule_field d f (sf_request_schema f) (ascii ''request_schema''))
     (seq (rule_field d f (sf_response_schema f) (ascii ''response_schema''))
     (seq (rule_acceptance d f) (seq (rule_outcome d f) (rule_metadata d f))))))))))))))))"

definition ValidateSessionFrame :: "SessionFrame \<Rightarrow> unit result" where
  "ValidateSessionFrame f = ValidateKindRules f False"

section \<open>Frames and messages\<close>

definition fill_error :: "Error \<Rightarrow> RpcErrorMsg" where
  "fill_error e =
     \<lparr>pe_code = ToProtoErrorCode (er_code e), pe_domain = er_domain e, pe_domain_code = er_domain_code e,
      pe_message = er_message e, pe_backend_category = er_backend_category e,
      pe_backend_code = er_backend_code e, pe_transferred_bytes = er_transferred_bytes e,
      pe_details = er_details e, pe_request_phase = map_option ToProtoRequestPhase (er_request_phase e)\<rparr>"

definition FillProto :: "SessionFrame \<Rightarrow> SessionFrameMsg result" where
  "FillProto f =
     seq (ValidateKindRules f False)
     (case ToProtoFrameKind (sf_kind f) of Inl e \<Rightarrow> Inl e | Inr kind \<Rightarrow>
      (case ToProtoTraffic (sf_traffic f) of Inl e \<Rightarrow> Inl e | Inr traffic \<Rightarrow>
      (case ToProtoReply (sf_reply f) of Inl e \<Rightarrow> Inl e | Inr reply \<Rightarrow>
        Inr \<lparr>pb_profile_version = kRpcV2ProfileVersion, pb_frame_kind = kind, pb_traffic_class = traffic,
             pb_peer_identity = sf_peer_identity f, pb_session_epoch = sf_session_epoch f,
             pb_message_id = sf_message_id f, pb_request_id = sf_request_id f, pb_service = sf_service f,
             pb_method = sf_method f, pb_reply_mode = reply, pb_sequence = sf_sequence f,
             pb_ordering_key = sf_ordering_key f, pb_remaining_budget_ms = sf_remaining_budget_ms f,
             pb_request_schema = sf_request_schema f, pb_response_schema = sf_response_schema f,
             pb_payload = sf_payload f, pb_metadata = sf_metadata f,
             pb_outcome = (if sf_has_outcome f
                           then if sf_success f then OutcomeSuccess True else OutcomeError (fill_error (sf_error f))
                           else OutcomeAbsent),
             pb_connection_nonce = sf_connection_nonce f,
             pb_acceptance_requested = sf_acceptance_requested f\<rparr>)))"

definition read_error :: "RpcErrorMsg \<Rightarrow> Error result" where
  "read_error pe =
     (case FromProtoRequestPhase pe of
        Inl e \<Rightarrow> Inl e
      | Inr phase \<Rightarrow> Inr \<lparr>er_code = FromProtoErrorCode (pe_code pe), er_domain = pe_domain pe,
          er_domain_code = pe_domain_code pe, er_message = pe_message pe,
          er_backend_category = pe_backend_category pe, er_backend_code = pe_backend_code pe,
          er_transferred_bytes = pe_transferred_bytes pe, er_details = pe_details pe,
          er_request_phase = phase\<rparr>)"

definition read_outcome :: "OutcomeMsg \<Rightarrow> (bool \<times> bool \<times> Error) result" where
  "read_outcome outcome =
     (case outcome of
        OutcomeError pe \<Rightarrow> map_sum id (\<lambda>e. (True, False, e)) (read_error pe)
      | OutcomeSuccess ok \<Rightarrow>
          (if \<not> ok then Inl (MakeError ProtocolError (ascii ''success=false without error branch''))
           else Inr (True, True, default_Error))
      | OutcomeAbsent \<Rightarrow> Inr (False, False, default_Error))"

definition FromProto :: "SessionFrameMsg \<Rightarrow> SessionFrame result" where
  "FromProto m =
     (if pb_profile_version m \<noteq> kRpcV2ProfileVersion
      then Inl (MakeError ProtocolError (ascii ''unsupported profile_version''))
      else case FromProtoFrameKind (pb_frame_kind m) of Inl e \<Rightarrow> Inl e | Inr kind \<Rightarrow>
      (case FromProtoTraffic (pb_traffic_class m) of Inl e \<Rightarrow> Inl e | Inr traffic \<Rightarrow>
      (case FromProtoReply (pb_reply_mode m) of Inl e \<Rightarrow> Inl e | Inr reply \<Rightarrow>
      (case read_outcome (pb_outcome m) of Inl e \<Rightarrow> Inl e | Inr (has_outcome, success, err) \<Rightarrow>
        let f = \<lparr>sf_kind = kind, sf_traffic = traffic, sf_peer_identity = pb_peer_identity m,
                 sf_session_epoch = pb_session_epoch m, sf_message_id = pb_message_id m,
                 sf_request_id = pb_request_id m, sf_service = pb_service m, sf_method = pb_method m,
                 sf_reply = reply, sf_sequence = pb_sequence m, sf_ordering_key = pb_ordering_key m,
                 sf_remaining_budget_ms = pb_remaining_budget_ms m, sf_request_schema = pb_request_schema m,
                 sf_response_schema = pb_response_schema m, sf_payload = pb_payload m,
                 sf_metadata = pb_metadata m, sf_has_outcome = has_outcome, sf_success = success,
                 sf_error = err, sf_connection_nonce = pb_connection_nonce m,
                 sf_acceptance_requested = pb_acceptance_requested m\<rparr>
        in seq (ValidateKindRules f True) (Inr f)))))"

definition EncodeSessionFrame :: "(SessionFrameMsg \<Rightarrow> byte list option) \<Rightarrow> SessionFrame \<Rightarrow> byte list result" where
  "EncodeSessionFrame serialize f =
     (case FillProto f of Inl e \<Rightarrow> Inl e | Inr m \<Rightarrow>
        (case serialize m of
           None \<Rightarrow> Inl (MakeError ProtocolError (ascii ''protobuf serialize failed''))
         | Some s \<Rightarrow> Inr s))"

definition DecodeSessionFrame :: "(byte list \<Rightarrow> SessionFrameMsg option) \<Rightarrow> byte list \<Rightarrow> SessionFrame result" where
  "DecodeSessionFrame parse data =
     (if data = [] then Inl (MakeError ProtocolError (ascii ''empty frame bytes''))
      else case parse data of
        None \<Rightarrow> Inl (MakeError ProtocolError (ascii ''frame parse failed''))
      | Some m \<Rightarrow> FromProto m)"

section \<open>Requests and responses\<close>

record RequestContext =
  rc_deadline :: int
  rc_peer_identity :: bytes
  rc_peer_principal :: bytes

record Request =
  rq_service :: bytes
  rq_method :: bytes
  rq_request_id :: bytes
  rq_message_id :: bytes
  rq_request_schema :: bytes
  rq_response_schema :: bytes
  rq_payload :: "byte list"
  rq_metadata :: pairs
  rq_traffic :: TrafficClass
  rq_reply :: ReplyMode
  rq_ordering_key :: bytes
  rq_sequence :: u64
  rq_context :: RequestContext

record Response =
  rs_request_id :: bytes
  rs_service :: bytes
  rs_method :: bytes
  rs_request_schema :: bytes
  rs_response_schema :: bytes
  rs_payload :: "byte list"
  rs_metadata :: pairs

definition ToSessionFrame :: "Request \<Rightarrow> FrameKind \<Rightarrow> u64 \<Rightarrow> u32 \<Rightarrow> bool option \<Rightarrow> SessionFrame result" where
  "ToSessionFrame r kind epoch budget acceptance =
     (if kind \<noteq> FkCall \<and> kind \<noteq> FkSend
      then Inl (MakeError InvalidArgument (ascii ''ToSessionFrame only accepts Call/Send''))
      else
        let f = default_SessionFrame\<lparr>sf_kind := kind, sf_traffic := rq_traffic r, sf_session_epoch := epoch,
                  sf_message_id := rq_message_id r, sf_request_id := rq_request_id r,
                  sf_service := rq_service r, sf_method := rq_method r, sf_reply := rq_reply r,
                  sf_sequence := rq_sequence r, sf_ordering_key := rq_ordering_key r,
                  sf_remaining_budget_ms := budget, sf_request_schema := rq_request_schema r,
                  sf_response_schema := rq_response_schema r, sf_payload := rq_payload r,
                  sf_metadata := rq_metadata r, sf_acceptance_requested := acceptance\<rparr>
        in seq (ValidateSessionFrame f) (Inr f))"

definition RequestFromSessionFrame :: "SessionFrame \<Rightarrow> RequestContext \<Rightarrow> Request result" where
  "RequestFromSessionFrame f context =
     (if sf_kind f \<noteq> FkCall \<and> sf_kind f \<noteq> FkSend
      then Inl (MakeError InvalidArgument (ascii ''RequestFromSessionFrame only accepts Call/Send''))
      else Inr \<lparr>rq_service = sf_service f, rq_method = sf_method f, rq_request_id = sf_request_id f,
                rq_message_id = sf_message_id f, rq_request_schema = sf_request_schema f,
                rq_response_schema = sf_response_schema f, rq_payload = sf_payload f,
                rq_metadata = sf_metadata f, rq_traffic = sf_traffic f, rq_reply = sf_reply f,
                rq_ordering_key = sf_ordering_key f, rq_sequence = sf_sequence f, rq_context = context\<rparr>)"

definition ResponseToSessionFrame :: "Response \<Rightarrow> u64 \<Rightarrow> SessionFrame result" where
  "ResponseToSessionFrame r epoch =
     Inr (default_SessionFrame\<lparr>sf_kind := FkResponse, sf_traffic := TcService, sf_session_epoch := epoch,
            sf_request_id := rs_request_id r, sf_service := rs_service r, sf_method := rs_method r,
            sf_reply := RmRequired, sf_request_schema := rs_request_schema r,
            sf_response_schema := rs_response_schema r, sf_payload := rs_payload r,
            sf_metadata := rs_metadata r, sf_has_outcome := True, sf_success := True\<rparr>)"

definition ResponseFromSessionFrame :: "SessionFrame \<Rightarrow> Response result" where
  "ResponseFromSessionFrame f =
     (if sf_kind f \<noteq> FkResponse
      then Inl (MakeError InvalidArgument (ascii ''ResponseFromSessionFrame only accepts Response''))
      else Inr \<lparr>rs_request_id = sf_request_id f, rs_service = sf_service f, rs_method = sf_method f,
                rs_request_schema = sf_request_schema f, rs_response_schema = sf_response_schema f,
                rs_payload = sf_payload f, rs_metadata = sf_metadata f\<rparr>)"

section \<open>What a well-formed frame is\<close>

definition text_ok :: "nat \<Rightarrow> bytes \<Rightarrow> bool" where
  "text_ok limit s \<longleftrightarrow> length s \<le> limit \<and> IsValidUtf8 s"

definition pairs_ok :: "nat \<Rightarrow> pairs \<Rightarrow> bool" where
  "pairs_ok limit ps \<longleftrightarrow> length ps \<le> limit \<and> distinct (map fst ps)
     \<and> list_all (\<lambda>(k, v). text_ok kMaxKeyBytes k \<and> text_ok kMaxValueBytes v) ps"

definition metadata_ok :: "pairs \<Rightarrow> bool" where
  "metadata_ok md \<longleftrightarrow> pairs_ok 32 md \<and> list_all (\<lambda>(k, v). k \<noteq> [] \<and> HasMetaPrefix k) md"

definition error_ok :: "Error \<Rightarrow> bool" where
  "error_ok e \<longleftrightarrow> text_ok kMaxKeyBytes (er_domain e) \<and> text_ok kMaxKeyBytes (er_domain_code e)
     \<and> text_ok kMaxKeyBytes (er_backend_category e) \<and> text_ok kMaxValueBytes (er_message e)
     \<and> pairs_ok kMaxErrorDetails (er_details e)"

text \<open>The table of the wire profile: what every kind of frame carries.\<close>

definition frame_ok :: "SessionFrame \<Rightarrow> bool" where
  "frame_ok f \<longleftrightarrow>
     (let k = sf_kind f; routed = (k = FkCall \<or> k = FkResponse); handshake = (k = FkHello \<or> k = FkHelloAck);
          data = (routed \<or> k = FkSend); outcome = (k \<in> {FkResponse, FkSendAccepted, FkSessionError});
          field_ok = (\<lambda>s. text_ok kRpcV2MaxFieldBytes s \<and> (routed \<longrightarrow> s \<noteq> []))
      in k \<noteq> FkUnspecified
       \<and> (data \<longleftrightarrow> sf_traffic f \<noteq> TcSystem)
       \<and> (if handshake then sf_peer_identity f \<noteq> [] \<and> text_ok kRpcV2MaxPeerIdentityBytes (sf_peer_identity f)
          else sf_peer_identity f = [])
       \<and> (handshake \<longleftrightarrow> sf_connection_nonce f \<noteq> 0)
       \<and> (handshake \<or> data \<or> k = FkSendAccepted \<longrightarrow> sf_session_epoch f \<noteq> 0)
       \<and> (if k \<in> {FkSend, FkSendAccepted}
          then sf_message_id f \<noteq> [] \<and> text_ok kRpcV2MaxMessageIdBytes (sf_message_id f)
          else sf_message_id f = [])
       \<and> field_ok (sf_request_id f) \<and> field_ok (sf_service f) \<and> field_ok (sf_method f)
       \<and> field_ok (sf_request_schema f) \<and> field_ok (sf_response_schema f)
       \<and> (routed \<longleftrightarrow> sf_reply f = RmRequired)
       \<and> (if sf_sequence f = 0 then sf_ordering_key f = []
          else sf_ordering_key f \<noteq> [] \<and> length (sf_ordering_key f) \<le> kRpcV2MaxOrderingKeyBytes)
       \<and> sf_remaining_budget_ms f \<le> kRpcV2MaxRemainingBudgetMs
       \<and> (k \<in> {FkCall, FkSend} \<longrightarrow> sf_remaining_budget_ms f \<noteq> 0)
       \<and> (k \<in> {FkHello, FkHelloAck, FkSessionError, FkClose} \<longrightarrow> sf_remaining_budget_ms f = 0)
       \<and> (sf_acceptance_requested f \<noteq> None \<longrightarrow> k = FkSend)
       \<and> (sf_has_outcome f \<longleftrightarrow> outcome)
       \<and> (sf_has_outcome f \<and> \<not> sf_success f \<longrightarrow> error_ok (sf_error f))
       \<and> metadata_ok (sf_metadata f))"

section \<open>The checks decide the table\<close>

lemma seq_Inr [simp]: "seq r k = Inr x \<longleftrightarrow> (\<exists>y. r = Inr y) \<and> k = Inr x"
  by (cases r) (auto simp: seq_def)

lemma seq_Inl: "seq r k = Inl e \<longleftrightarrow> r = Inl e \<or> (\<exists>y. r = Inr y) \<and> k = Inl e"
  by (cases r) (auto simp: seq_def)

lemma unit_result [simp]: "(\<exists>y. r = Inr y) \<longleftrightarrow> r = Inr ()" for r :: "unit result"
  by (cases r) auto

lemma kind_fail_simps [simp]:
  "kind_fail d w \<noteq> Inr u" "kind_fail d w = Inl e \<longleftrightarrow> e = MakeError (if d then ProtocolError else InvalidArgument) w"
  by (auto simp: kind_fail_def)

lemma er_code_MakeError [simp]: "er_code (MakeError c m) = c"
  by (simp add: MakeError_def)

lemma check_metadata_ok:
  "check_metadata seen md = Inr () \<longleftrightarrow> distinct (map fst md) \<and> set seen \<inter> set (map fst md) = {}
     \<and> list_all (\<lambda>(k, v). text_ok kMaxKeyBytes k \<and> text_ok kMaxValueBytes v) md
     \<and> list_all (\<lambda>(k, v). k \<noteq> [] \<and> HasMetaPrefix k) md"
  by (induction seen md rule: check_metadata.induct) (auto simp: text_ok_def)

lemma ValidateMetadata_ok: "ValidateMetadata md = Inr () \<longleftrightarrow> metadata_ok md"
  by (auto simp: ValidateMetadata_def metadata_ok_def pairs_ok_def check_metadata_ok)

lemma check_metadata_error: "check_metadata seen md = Inl e \<Longrightarrow> er_code e = ProtocolError"
  by (induction seen md rule: check_metadata.induct) (auto split: if_splits)

lemma ValidateMetadata_error: "ValidateMetadata md = Inl e \<Longrightarrow> er_code e = ProtocolError"
  by (auto simp: ValidateMetadata_def split: if_splits dest: check_metadata_error)

lemma ValidateErrorDetails_ok: "ValidateErrorDetails e = Inr () \<longleftrightarrow> pairs_ok kMaxErrorDetails (er_details e)"
  using check_details_ok [of "[]" "er_details e"]
  by (auto simp: ValidateErrorDetails_def pairs_ok_def text_ok_def list_all_iff)

lemma ValidateErrorBranch_ok: "ValidateErrorBranch e = Inr () \<longleftrightarrow> error_ok e"
  by (auto simp: ValidateErrorBranch_def error_ok_def text_ok_def ValidateErrorDetails_ok)

lemma ValidateErrorBranch_error: "ValidateErrorBranch e = Inl f \<Longrightarrow> er_code f \<in> {InvalidArgument, ProtocolError}"
  by (auto simp: ValidateErrorBranch_def split: if_splits dest: ValidateErrorDetails_error)

lemma CheckUtf8Len_ok:
  "CheckUtf8Len s name n required = Inr () \<longleftrightarrow> text_ok n s \<and> (required \<longrightarrow> s \<noteq> [])"
  by (auto simp: CheckUtf8Len_def text_ok_def)

lemma CheckUtf8Len_error: "CheckUtf8Len s name n required = Inl e \<Longrightarrow> er_code e = InvalidArgument"
  by (auto simp: CheckUtf8Len_def split: if_splits)

lemma rule_field_ok:
  "rule_field d f s name = Inr () \<longleftrightarrow> text_ok kRpcV2MaxFieldBytes s \<and> (is_routed (sf_kind f) \<longrightarrow> s \<noteq> [])"
  using CheckUtf8Len_ok [of s name kRpcV2MaxFieldBytes "is_routed (sf_kind f)"]
  by (auto simp: rule_field_def split: sum.splits)

lemma rule_outcome_ok:
  "rule_outcome d f = Inr () \<longleftrightarrow> sf_has_outcome f = is_outcome_kind (sf_kind f)
     \<and> (sf_has_outcome f \<and> \<not> sf_success f \<longrightarrow> error_ok (sf_error f))"
  using ValidateErrorBranch_ok [of "sf_error f"] by (auto simp: rule_outcome_def split: sum.splits)

lemma rule_metadata_ok: "rule_metadata d f = Inr () \<longleftrightarrow> metadata_ok (sf_metadata f)"
  using ValidateMetadata_ok [of "sf_metadata f"] by (auto simp: rule_metadata_def split: sum.splits)

lemmas kind_sets = is_handshake_def is_data_def is_outcome_kind_def is_routed_def

lemma rule_request_ok:
  "rule_request d f = Inr () \<longleftrightarrow> text_ok kRpcV2MaxFieldBytes (sf_request_id f)
     \<and> (is_routed (sf_kind f) \<longrightarrow> sf_request_id f \<noteq> [])"
  by (auto simp: rule_request_def text_ok_def)

lemma rule_budget_ok:
  "rule_budget d f = Inr () \<longleftrightarrow> (if sf_kind f \<in> {FkCall, FkSend} then sf_remaining_budget_ms f \<noteq> 0
       \<and> sf_remaining_budget_ms f \<le> kRpcV2MaxRemainingBudgetMs
     else if sf_kind f \<in> {FkResponse, FkSendAccepted} then sf_remaining_budget_ms f \<le> kRpcV2MaxRemainingBudgetMs
     else sf_remaining_budget_ms f = 0)"
  by (auto simp: rule_budget_def not_less)

lemma rule_kind_ok: "rule_kind f = Inr () \<longleftrightarrow> sf_kind f \<noteq> FkUnspecified"
  by (simp add: rule_kind_def)

lemma rule_traffic_ok: "rule_traffic d f = Inr () \<longleftrightarrow> (is_data (sf_kind f) \<longleftrightarrow> sf_traffic f \<noteq> TcSystem)"
  by (auto simp: rule_traffic_def)

lemma rule_peer_ok:
  "rule_peer d f = Inr () \<longleftrightarrow>
     (if is_handshake (sf_kind f)
      then sf_peer_identity f \<noteq> [] \<and> text_ok kRpcV2MaxPeerIdentityBytes (sf_peer_identity f)
      else sf_peer_identity f = [])"
  by (auto simp: rule_peer_def text_ok_def)

lemma rule_nonce_ok: "rule_nonce d f = Inr () \<longleftrightarrow> (is_handshake (sf_kind f) \<longleftrightarrow> sf_connection_nonce f \<noteq> 0)"
  by (auto simp: rule_nonce_def)

lemma rule_epoch_ok:
  "rule_epoch d f = Inr () \<longleftrightarrow>
     (is_handshake (sf_kind f) \<or> is_data (sf_kind f) \<or> sf_kind f = FkSendAccepted \<longrightarrow> sf_session_epoch f \<noteq> 0)"
  by (auto simp: rule_epoch_def)

lemma rule_message_ok:
  "rule_message d f = Inr () \<longleftrightarrow>
     (if sf_kind f \<in> {FkSend, FkSendAccepted}
      then sf_message_id f \<noteq> [] \<and> text_ok kRpcV2MaxMessageIdBytes (sf_message_id f)
      else sf_message_id f = [])"
  by (auto simp: rule_message_def text_ok_def)

lemma rule_reply_ok: "rule_reply d f = Inr () \<longleftrightarrow> (is_routed (sf_kind f) \<longleftrightarrow> sf_reply f = RmRequired)"
  by (cases "sf_reply f") (auto simp: rule_reply_def)

lemma rule_order_ok:
  "rule_order d f = Inr () \<longleftrightarrow> (if sf_sequence f = 0 then sf_ordering_key f = []
     else sf_ordering_key f \<noteq> [] \<and> length (sf_ordering_key f) \<le> kRpcV2MaxOrderingKeyBytes)"
  by (auto simp: rule_order_def)

lemma rule_acceptance_ok:
  "rule_acceptance d f = Inr () \<longleftrightarrow> (sf_acceptance_requested f \<noteq> None \<longrightarrow> sf_kind f = FkSend)"
  by (auto simp: rule_acceptance_def)

lemmas rules_ok = rule_kind_ok rule_traffic_ok rule_peer_ok rule_nonce_ok rule_epoch_ok rule_message_ok
  rule_request_ok rule_field_ok rule_reply_ok rule_order_ok rule_budget_ok rule_acceptance_ok
  rule_outcome_ok rule_metadata_ok

lemma kRpcV2MaxRemainingBudgetMs_nonneg [simp]: "0 \<le> kRpcV2MaxRemainingBudgetMs"
  by (simp add: kRpcV2MaxRemainingBudgetMs_def)

lemma ValidateKindRules_ok: "ValidateKindRules f d = Inr () \<longleftrightarrow> frame_ok f"
  unfolding ValidateKindRules_def seq_Inr unit_result rules_ok frame_ok_def Let_def kind_sets
  by (cases "sf_kind f") auto

section \<open>Error classes\<close>

lemma rule_errors:
  "rule_kind f = Inl e \<Longrightarrow> er_code e = ProtocolError"
  "rule_traffic d f = Inl e \<Longrightarrow> er_code e = (if d then ProtocolError else InvalidArgument)"
  "rule_peer d f = Inl e \<Longrightarrow> er_code e = (if d then ProtocolError else InvalidArgument)"
  "rule_nonce d f = Inl e \<Longrightarrow> er_code e = (if d then ProtocolError else InvalidArgument)"
  "rule_epoch d f = Inl e \<Longrightarrow> er_code e = (if d then ProtocolError else InvalidArgument)"
  "rule_message d f = Inl e \<Longrightarrow> er_code e = (if d then ProtocolError else InvalidArgument)"
  "rule_request d f = Inl e \<Longrightarrow> er_code e = (if d then ProtocolError else InvalidArgument)"
  "rule_field d f s n = Inl e \<Longrightarrow> er_code e = (if d then ProtocolError else InvalidArgument)"
  "rule_reply d f = Inl e \<Longrightarrow> er_code e = (if d then ProtocolError else InvalidArgument)"
  "rule_order d f = Inl e \<Longrightarrow> er_code e = (if d then ProtocolError else InvalidArgument)"
  "rule_budget d f = Inl e \<Longrightarrow> er_code e = (if d then ProtocolError else InvalidArgument)"
  "rule_acceptance d f = Inl e \<Longrightarrow> er_code e = (if d then ProtocolError else InvalidArgument)"
  by (auto simp: rule_kind_def rule_traffic_def rule_peer_def rule_nonce_def rule_epoch_def rule_message_def
      rule_request_def rule_reply_def rule_order_def rule_budget_def rule_acceptance_def rule_field_def
      split: if_splits sum.splits dest: CheckUtf8Len_error)

lemma rule_outcome_error:
  "rule_outcome d f = Inl e \<Longrightarrow> er_code e = ProtocolError \<or> \<not> d \<and> er_code e = InvalidArgument"
  using ValidateErrorBranch_error [of "sf_error f"]
  by (auto simp: rule_outcome_def split: if_splits sum.splits)

lemma rule_metadata_error: "rule_metadata d f = Inl e \<Longrightarrow> er_code e = ProtocolError"
  by (auto simp: rule_metadata_def split: if_splits sum.splits dest: ValidateMetadata_error)

definition wire_errors :: "bool \<Rightarrow> unit result \<Rightarrow> bool" where
  "wire_errors d r \<longleftrightarrow> (\<forall>e. r = Inl e \<longrightarrow> er_code e = ProtocolError \<or> \<not> d \<and> er_code e = InvalidArgument)"

lemma wire_errors_seq: "wire_errors d r \<Longrightarrow> wire_errors d k \<Longrightarrow> wire_errors d (seq r k)"
  by (auto simp: wire_errors_def seq_Inl)

lemma wire_errors_rules:
  "wire_errors d (rule_kind f)" "wire_errors d (rule_traffic d f)" "wire_errors d (rule_peer d f)"
  "wire_errors d (rule_nonce d f)" "wire_errors d (rule_epoch d f)" "wire_errors d (rule_message d f)"
  "wire_errors d (rule_request d f)" "wire_errors d (rule_field d f s n)" "wire_errors d (rule_reply d f)"
  "wire_errors d (rule_order d f)" "wire_errors d (rule_budget d f)" "wire_errors d (rule_acceptance d f)"
  "wire_errors d (rule_outcome d f)" "wire_errors d (rule_metadata d f)"
  by (cases d; auto simp: wire_errors_def dest: rule_errors rule_outcome_error rule_metadata_error)+

lemma ValidateKindRules_error:
  "ValidateKindRules f d = Inl e \<Longrightarrow> er_code e = ProtocolError \<or> \<not> d \<and> er_code e = InvalidArgument"
proof -
  have "wire_errors d (ValidateKindRules f d)"
    unfolding ValidateKindRules_def by (intro wire_errors_seq wire_errors_rules)
  then show "ValidateKindRules f d = Inl e \<Longrightarrow> ?thesis" by (simp add: wire_errors_def)
qed

section \<open>Round trips\<close>

lemma FrameKind_roundtrip: "ToProtoFrameKind k = Inr i \<Longrightarrow> FromProtoFrameKind i = Inr k"
  by (cases k) (auto simp: FromProtoFrameKind_def)

lemma Traffic_roundtrip: "ToProtoTraffic t = Inr i \<Longrightarrow> FromProtoTraffic i = Inr t"
  by (cases t) (auto simp: FromProtoTraffic_def)

lemma Reply_roundtrip: "ToProtoReply r = Inr i \<Longrightarrow> FromProtoReply i = Inr r"
  by (cases r) (auto simp: FromProtoReply_def)

lemma ErrorCode_roundtrip [simp]: "FromProtoErrorCode (ToProtoErrorCode c) = c"
  by (cases c) (simp_all add: FromProtoErrorCode_def)

lemmas enum_roundtrips = FrameKind_roundtrip Traffic_roundtrip Reply_roundtrip

lemma read_fill_error: "read_error (fill_error e) = Inr e"
proof -
  have "FromProtoRequestPhase (fill_error e) = Inr (er_request_phase e)"
    by (cases "er_request_phase e"; cases "the (er_request_phase e)")
      (simp_all add: FromProtoRequestPhase_def fill_error_def)
  then show ?thesis by (cases e) (simp add: read_error_def fill_error_def)
qed

text \<open>What a frame keeps on the wire: the error only in the error branch.\<close>

definition wire_view :: "SessionFrame \<Rightarrow> SessionFrame" where
  "wire_view f = f\<lparr>sf_success := sf_has_outcome f \<and> sf_success f,
     sf_error := (if sf_has_outcome f \<and> \<not> sf_success f then sf_error f else default_Error)\<rparr>"

lemma frame_ok_wire_view: "frame_ok f \<Longrightarrow> frame_ok (wire_view f)"
  unfolding frame_ok_def wire_view_def by (simp add: Let_def) argo

lemma FromProto_FillProto:
  assumes "FillProto f = Inr m"
  shows "FromProto m = Inr (wire_view f) \<and> pb_profile_version m = kRpcV2ProfileVersion"
proof -
  have ok: "frame_ok f" using assms by (simp add: FillProto_def ValidateKindRules_ok)
  obtain k t r where enums: "ToProtoFrameKind (sf_kind f) = Inr k" "ToProtoTraffic (sf_traffic f) = Inr t"
    "ToProtoReply (sf_reply f) = Inr r" using assms by (auto simp: FillProto_def split: sum.splits)
  note inverse = enum_roundtrips(1) [OF enums(1)] enum_roundtrips(2) [OF enums(2)] enum_roundtrips(3) [OF enums(3)]
  have out: "read_outcome (if sf_has_outcome f then if sf_success f then OutcomeSuccess True
        else OutcomeError (fill_error (sf_error f)) else OutcomeAbsent)
      = Inr (sf_has_outcome f, sf_has_outcome f \<and> sf_success f,
          if sf_has_outcome f \<and> \<not> sf_success f then sf_error f else default_Error)"
    by (simp add: read_outcome_def read_fill_error)
  have view: "ValidateKindRules (wire_view f) True = Inr ()"
    using frame_ok_wire_view [OF ok] by (simp add: ValidateKindRules_ok)
  have "FromProto m = seq (ValidateKindRules (wire_view f) True) (Inr (wire_view f))
      \<and> pb_profile_version m = kRpcV2ProfileVersion"
    using assms enums inverse out unfolding FillProto_def FromProto_def wire_view_def
    by (cases f) (auto simp: Let_def)
  then show ?thesis by (simp add: view)
qed

lemma enums_int32:
  "ToProtoFrameKind k = Inr i \<Longrightarrow> int32_ok i" "ToProtoTraffic t = Inr i \<Longrightarrow> int32_ok i"
  "ToProtoReply r = Inr i \<Longrightarrow> int32_ok i" "int32_ok (ToProtoErrorCode c)" "int32_ok (ToProtoRequestPhase p)"
  subgoal by (cases k) (auto simp: int32_ok_def)
  subgoal by (cases t) (auto simp: int32_ok_def)
  subgoal by (cases r) (auto simp: int32_ok_def)
  subgoal by (cases c) (auto simp: int32_ok_def)
  subgoal by (cases p) (auto simp: int32_ok_def)
  done

lemma pairs_ok_utf8: "pairs_ok n ps \<Longrightarrow> pairs_utf8 ps"
  by (auto simp: pairs_ok_def pairs_utf8_def text_ok_def list_all_iff)

lemma error_ok_msg_valid: "error_ok e \<Longrightarrow> error_msg_valid (fill_error e)"
  by (auto simp: error_ok_def error_msg_valid_def fill_error_def text_ok_def enums_int32
      intro: pairs_ok_utf8 split: option.splits) (cases "er_request_phase e"; simp add: enums_int32)

lemma text_ok_empty [simp]: "text_ok n []"
  by (simp add: text_ok_def)

lemma text_ok_utf8: "text_ok n s \<Longrightarrow> IsValidUtf8 s"
  by (simp only: text_ok_def)

lemma frame_ok_texts:
  assumes "frame_ok f"
  shows "text_ok kRpcV2MaxPeerIdentityBytes (sf_peer_identity f)" "text_ok kRpcV2MaxMessageIdBytes (sf_message_id f)"
    "text_ok kRpcV2MaxFieldBytes (sf_request_id f)" "text_ok kRpcV2MaxFieldBytes (sf_service f)"
    "text_ok kRpcV2MaxFieldBytes (sf_method f)" "text_ok kRpcV2MaxFieldBytes (sf_request_schema f)"
    "text_ok kRpcV2MaxFieldBytes (sf_response_schema f)" "metadata_ok (sf_metadata f)"
    "sf_has_outcome f \<and> \<not> sf_success f \<longrightarrow> error_ok (sf_error f)"
  using assms unfolding frame_ok_def Let_def by (metis text_ok_empty, metis text_ok_empty, blast+)

lemma FillProto_valid:
  assumes "FillProto f = Inr m"
  shows "message_valid m"
proof -
  have ok: "frame_ok f" using assms by (simp add: FillProto_def ValidateKindRules_ok)
  have utf: "IsValidUtf8 (sf_peer_identity f)" "IsValidUtf8 (sf_message_id f)" "IsValidUtf8 (sf_request_id f)"
    "IsValidUtf8 (sf_service f)" "IsValidUtf8 (sf_method f)" "IsValidUtf8 (sf_request_schema f)"
    "IsValidUtf8 (sf_response_schema f)" "pairs_utf8 (sf_metadata f)"
    "sf_has_outcome f \<and> \<not> sf_success f \<longrightarrow> error_ok (sf_error f)"
    using frame_ok_texts [OF ok] by (simp_all add: metadata_ok_def text_ok_utf8 pairs_ok_utf8 [of 32])
  obtain k t r where enums: "ToProtoFrameKind (sf_kind f) = Inr k" "ToProtoTraffic (sf_traffic f) = Inr t"
    "ToProtoReply (sf_reply f) = Inr r" using assms by (auto simp: FillProto_def split: sum.splits)
  have ranges: "int32_ok k" "int32_ok t" "int32_ok r"
    using enums_int32(1) [OF enums(1)] enums_int32(2) [OF enums(2)] enums_int32(3) [OF enums(3)] by blast+
  have out: "case (if sf_has_outcome f then if sf_success f then OutcomeSuccess True
        else OutcomeError (fill_error (sf_error f)) else OutcomeAbsent)
      of OutcomeError pe \<Rightarrow> error_msg_valid pe | _ \<Rightarrow> True"
    using utf(9) error_ok_msg_valid by simp
  show ?thesis
    using assms enums ok out by (clarsimp simp: FillProto_def message_valid_def ranges utf)
qed

section \<open>Properties\<close>

lemma DecodeSessionFrame_encoded:
  assumes "protobuf_ok serialize parse" "EncodeSessionFrame serialize f = Inr bs"
  shows "DecodeSessionFrame parse bs = Inr (wire_view f)" "frame_ok f" "bs \<noteq> []"
proof -
  obtain m where m: "FillProto f = Inr m" "serialize m = Some bs"
    using assms(2) by (auto simp: EncodeSessionFrame_def split: sum.splits option.splits)
  have "parse bs = Some m \<and> (pb_profile_version m \<noteq> 0 \<longrightarrow> bs \<noteq> [])"
    using assms(1) m(2) FillProto_valid [OF m(1)] by (simp only: protobuf_ok_def) blast
  with FromProto_FillProto [OF m(1)]
  show decoded: "DecodeSessionFrame parse bs = Inr (wire_view f)" and "bs \<noteq> []"
    by (auto simp: DecodeSessionFrame_def kRpcV2ProfileVersion_def)
  show "frame_ok f" using m(1) by (simp add: FillProto_def ValidateKindRules_ok)
qed

lemma FromProto_ok: "FromProto m = Inr f \<Longrightarrow> frame_ok f"
  by (auto simp: FromProto_def Let_def ValidateKindRules_ok split: if_splits sum.splits)

lemma read_outcome_error: "read_outcome out = Inl e \<Longrightarrow> er_code e = ProtocolError"
  by (auto simp: read_outcome_def read_error_def FromProtoRequestPhase_def map_sum_def
      split: OutcomeMsg.splits if_splits sum.splits option.splits)

lemma FromProto_error: "FromProto m = Inl e \<Longrightarrow> er_code e = ProtocolError"
  by (auto simp: FromProto_def Let_def seq_Inl FromProtoFrameKind_def FromProtoTraffic_def FromProtoReply_def
      dest: read_outcome_error ValidateKindRules_error split: if_splits sum.splits)

text \<open>C23: The field matrix of the wire profile. The checks made before a frame is encoded and after one
  is decoded accept exactly the frames the table \<open>frame_ok\<close> describes, and they name the right class
  of error: on the wire every violation is a protocol error, before encoding a violation is an
  invalid argument or, for values no receiver could accept, a protocol error.\<close>

theorem session_frame_rules_decide:
  "(ValidateKindRules f decoding = Inr () \<longleftrightarrow> frame_ok f)
     \<and> (ValidateKindRules f decoding = Inl e \<longrightarrow>
          er_code e = ProtocolError \<or> \<not> decoding \<and> er_code e = InvalidArgument)"
  using ValidateKindRules_ok ValidateKindRules_error by blast

definition sample_call :: SessionFrame where
  "sample_call = default_SessionFrame\<lparr>sf_kind := FkCall, sf_traffic := TcService, sf_session_epoch := 7,
     sf_request_id := ascii ''r1'', sf_service := ascii ''svc'', sf_method := ascii ''get'', sf_reply := RmRequired,
     sf_remaining_budget_ms := 500, sf_request_schema := ascii ''q'', sf_response_schema := ascii ''p'',
     sf_payload := [1, 2, 3], sf_metadata := [(ascii ''trace.id'', ascii ''42'')]\<rparr>"

theorem session_frame_rules_decide_witness:
  "frame_ok sample_call \<and> ValidateKindRules sample_call False = Inr ()
     \<and> ValidateKindRules (sample_call\<lparr>sf_session_epoch := 0\<rparr>) True
         = Inl (MakeError ProtocolError (ascii ''session_epoch must be non-zero''))
     \<and> \<not> frame_ok (sample_call\<lparr>sf_session_epoch := 0\<rparr>)"
proof -
  have ok: "ValidateKindRules sample_call False = Inr ()" by code_simp
  have bad: "ValidateKindRules (sample_call\<lparr>sf_session_epoch := 0\<rparr>) True
      = Inl (MakeError ProtocolError (ascii ''session_epoch must be non-zero''))" by code_simp
  show ?thesis
    using session_frame_rules_decide [of sample_call False]
      session_frame_rules_decide [of "sample_call\<lparr>sf_session_epoch := 0\<rparr>" True] ok bad by simp
qed

text \<open>C22: Encoding a frame and decoding the bytes gives the frame back, as far as the wire carries it: the
  error value is kept exactly when the frame carries the error branch. A frame that breaks the
  field matrix is never encoded.\<close>

theorem session_frame_roundtrip:
  assumes "protobuf_ok serialize parse" "EncodeSessionFrame serialize f = Inr bs"
  shows "DecodeSessionFrame parse bs = Inr (wire_view f) \<and> frame_ok f"
  using DecodeSessionFrame_encoded [OF assms] by blast

definition message_of :: "SessionFrame \<Rightarrow> SessionFrameMsg" where
  "message_of f = (case FillProto f of Inr m \<Rightarrow> m | Inl _ \<Rightarrow> undefined)"

definition tiny_serialize :: "SessionFrame \<Rightarrow> SessionFrameMsg \<Rightarrow> byte list option" where
  "tiny_serialize f m = (if m = message_of f then Some [8, 2] else None)"

definition tiny_parse :: "SessionFrame \<Rightarrow> byte list \<Rightarrow> SessionFrameMsg option" where
  "tiny_parse f bs = (if bs = [8, 2] then Some (message_of f) else None)"

lemma tiny_protobuf_ok: "protobuf_ok (tiny_serialize f) (tiny_parse f)"
  by (auto simp: protobuf_ok_def tiny_serialize_def tiny_parse_def split: if_splits)

lemma tiny_encode: "ValidateKindRules f False = Inr () \<Longrightarrow> EncodeSessionFrame (tiny_serialize f) f = Inr [8, 2]"
proof -
  assume ok: "ValidateKindRules f False = Inr ()"
  have "sf_kind f \<noteq> FkUnspecified" using ok by (simp add: ValidateKindRules_ok frame_ok_def Let_def)
  then obtain m where "FillProto f = Inr m" using ok
    by (cases "sf_kind f"; cases "sf_traffic f"; cases "sf_reply f") (auto simp: FillProto_def)
  then show ?thesis by (simp add: EncodeSessionFrame_def tiny_serialize_def message_of_def)
qed

theorem session_frame_roundtrip_witness:
  "protobuf_ok (tiny_serialize sample_call) (tiny_parse sample_call)
     \<and> EncodeSessionFrame (tiny_serialize sample_call) sample_call = Inr [8, 2]
     \<and> DecodeSessionFrame (tiny_parse sample_call) [8, 2] = Inr sample_call"
proof -
  have ok: "ValidateKindRules sample_call False = Inr ()" by code_simp
  have view: "wire_view sample_call = sample_call"
    by (simp add: wire_view_def sample_call_def default_SessionFrame_def)
  show ?thesis
    using session_frame_roundtrip [OF tiny_protobuf_ok tiny_encode [OF ok]] tiny_protobuf_ok tiny_encode [OF ok]
    by (simp add: view)
qed

text \<open>Whatever bytes arrive, decoding them never yields a frame outside the field matrix, and it
  reports every failure, from empty input to a broken rule, as a protocol error.\<close>

theorem decode_yields_only_valid_frames:
  "(DecodeSessionFrame parse bs = Inr f \<longrightarrow> frame_ok f)
     \<and> (DecodeSessionFrame parse bs = Inl e \<longrightarrow> er_code e = ProtocolError)"
  using FromProto_ok FromProto_error by (auto simp: DecodeSessionFrame_def split: if_splits option.splits)

theorem decode_yields_only_valid_frames_witness:
  "DecodeSessionFrame (tiny_parse sample_call) [8, 2] = Inr sample_call \<and> frame_ok sample_call
     \<and> DecodeSessionFrame (tiny_parse sample_call) [] = Inl (MakeError ProtocolError (ascii ''empty frame bytes''))
     \<and> er_code (MakeError ProtocolError (ascii ''empty frame bytes'')) = ProtocolError"
proof -
  have ok: "ValidateKindRules sample_call False = Inr ()" by code_simp
  have view: "wire_view sample_call = sample_call"
    by (simp add: wire_view_def sample_call_def default_SessionFrame_def)
  have dec: "DecodeSessionFrame (tiny_parse sample_call) [8, 2] = Inr sample_call"
    using DecodeSessionFrame_encoded(1) [OF tiny_protobuf_ok tiny_encode [OF ok]] by (simp add: view)
  have none: "DecodeSessionFrame (tiny_parse sample_call) []
      = Inl (MakeError ProtocolError (ascii ''empty frame bytes''))" by (simp add: DecodeSessionFrame_def)
  show ?thesis
    using decode_yields_only_valid_frames [of "tiny_parse sample_call" "[8, 2]" sample_call]
      decode_yields_only_valid_frames [of "tiny_parse sample_call" "[]"] dec none by simp
qed

lemma ToSessionFrame_Inr:
  assumes "ToSessionFrame r kind epoch budget acceptance = Inr f"
  shows "frame_ok f" "wire_view f = f" "sf_kind f = kind"
    "RequestFromSessionFrame f ctx = Inr (r\<lparr>rq_context := ctx\<rparr>)"
  using assms by (auto simp: ToSessionFrame_def ValidateSessionFrame_def ValidateKindRules_ok Let_def wire_view_def
      RequestFromSessionFrame_def default_SessionFrame_def split: if_splits)

text \<open>C30: A request crosses the wire unchanged. A call or a send that can be turned into a frame and
  encoded is decoded on the other side into the same request, with the receiver's context; the
  session epoch, the remaining budget and the wish for an acceptance arrive too.\<close>

theorem request_crosses_the_wire:
  assumes "protobuf_ok serialize parse" "ToSessionFrame r kind epoch budget acceptance = Inr f"
    and "EncodeSessionFrame serialize f = Inr bs"
  shows "DecodeSessionFrame parse bs = Inr f \<and> RequestFromSessionFrame f ctx = Inr (r\<lparr>rq_context := ctx\<rparr>)
     \<and> sf_kind f = kind \<and> sf_session_epoch f = epoch \<and> sf_remaining_budget_ms f = budget
     \<and> sf_acceptance_requested f = acceptance"
  using DecodeSessionFrame_encoded [OF assms(1,3)] ToSessionFrame_Inr(1-3) [OF assms(2)]
    ToSessionFrame_Inr(4) [OF assms(2), of ctx] assms(2)
  by (auto simp: ToSessionFrame_def Let_def split: if_splits)

definition no_context :: RequestContext where
  "no_context = \<lparr>rc_deadline = 0, rc_peer_identity = [], rc_peer_principal = []\<rparr>"

definition sample_request :: Request where
  "sample_request = \<lparr>rq_service = ascii ''svc'', rq_method = ascii ''get'', rq_request_id = ascii ''r1'',
     rq_message_id = [], rq_request_schema = ascii ''q'', rq_response_schema = ascii ''p'', rq_payload = [1, 2, 3],
     rq_metadata = [(ascii ''trace.id'', ascii ''42'')], rq_traffic = TcService, rq_reply = RmRequired,
     rq_ordering_key = [], rq_sequence = 0, rq_context = no_context\<rparr>"

theorem request_crosses_the_wire_witness:
  "ToSessionFrame sample_request FkCall 7 500 None = Inr sample_call
     \<and> EncodeSessionFrame (tiny_serialize sample_call) sample_call = Inr [8, 2]
     \<and> DecodeSessionFrame (tiny_parse sample_call) [8, 2] = Inr sample_call
     \<and> RequestFromSessionFrame sample_call no_context = Inr sample_request"
proof -
  have ok: "ValidateKindRules sample_call False = Inr ()" by code_simp
  have sent: "ToSessionFrame sample_request FkCall 7 500 None = Inr sample_call"
    by code_simp
  show ?thesis
    using request_crosses_the_wire [OF tiny_protobuf_ok sent tiny_encode [OF ok], of no_context] sent tiny_encode [OF ok]
    by (simp add: sample_request_def)
qed

lemma frame_ok_data_traffic: "frame_ok f \<Longrightarrow> sf_kind f = FkResponse \<Longrightarrow> sf_traffic f \<noteq> TcSystem"
  by (simp only: frame_ok_def Let_def) blast

lemma ResponseToSessionFrame_Inr:
  assumes "ResponseToSessionFrame r epoch = Inr f"
  shows "wire_view (f\<lparr>sf_traffic := traffic\<rparr>) = f\<lparr>sf_traffic := traffic\<rparr>" "sf_kind f = FkResponse"
    "ResponseFromSessionFrame (f\<lparr>sf_traffic := traffic\<rparr>) = Inr r"
  using assms by (auto simp: ResponseToSessionFrame_def ResponseFromSessionFrame_def wire_view_def default_SessionFrame_def)

text \<open>A successful response crosses the wire unchanged, whatever data traffic class the session
  sends it on.\<close>

theorem response_crosses_the_wire:
  assumes "protobuf_ok serialize parse" "ResponseToSessionFrame r epoch = Inr f"
    and "EncodeSessionFrame serialize (f\<lparr>sf_traffic := traffic\<rparr>) = Inr bs"
  shows "DecodeSessionFrame parse bs = Inr (f\<lparr>sf_traffic := traffic\<rparr>)
     \<and> ResponseFromSessionFrame (f\<lparr>sf_traffic := traffic\<rparr>) = Inr r \<and> traffic \<noteq> TcSystem"
  using DecodeSessionFrame_encoded [OF assms(1,3)] ResponseToSessionFrame_Inr [OF assms(2)]
    frame_ok_data_traffic [of "f\<lparr>sf_traffic := traffic\<rparr>"] by simp

definition sample_response :: Response where
  "sample_response = \<lparr>rs_request_id = ascii ''r1'', rs_service = ascii ''svc'', rs_method = ascii ''get'',
     rs_request_schema = ascii ''q'', rs_response_schema = ascii ''p'', rs_payload = [9], rs_metadata = []\<rparr>"

definition sample_response_frame :: SessionFrame where
  "sample_response_frame = (case ResponseToSessionFrame sample_response 7 of Inr f \<Rightarrow> f | Inl _ \<Rightarrow> default_SessionFrame)"

theorem response_crosses_the_wire_witness:
  "ResponseToSessionFrame sample_response 7 = Inr sample_response_frame
     \<and> DecodeSessionFrame (tiny_parse (sample_response_frame\<lparr>sf_traffic := TcActor\<rparr>)) [8, 2]
         = Inr (sample_response_frame\<lparr>sf_traffic := TcActor\<rparr>)
     \<and> ResponseFromSessionFrame (sample_response_frame\<lparr>sf_traffic := TcActor\<rparr>) = Inr sample_response"
proof -
  have sent: "ResponseToSessionFrame sample_response 7 = Inr sample_response_frame"
    by (simp add: sample_response_frame_def ResponseToSessionFrame_def)
  have ok: "ValidateKindRules (sample_response_frame\<lparr>sf_traffic := TcActor\<rparr>) False = Inr ()" by code_simp
  show ?thesis
    using response_crosses_the_wire [OF tiny_protobuf_ok sent tiny_encode [OF ok]] sent by simp
qed

end
