(* ===== verification/FrameDecoder.thy ===== *)
theory FrameDecoder
  imports SessionCodec "HOL-Library.Sublist"
begin

text \<open>
  \<^verbatim>\<open>bbt/infra/rpc/Codec.cc\<close> lines 775 to 979: the big-endian length prefix of a frame, the framed encoder
  and the incremental \<^verbatim>\<open>SessionFrameDecoder\<close>, and the inner loops of \<^verbatim>\<open>SessionCore::ReaderLoop\<close>
  (\<^verbatim>\<open>bbt/infra/rpc/Session.cc\<close>) that feed it. The input of \<^verbatim>\<open>Feed\<close> is a byte list, so the null pointer with
  a non-zero size has no counterpart, and \<open>data + offset\<close> is the list of the bytes not yet copied.
\<close>

section \<open>The length prefix\<close>

definition kRpcV2MaxFrameBytes :: nat where "kRpcV2MaxFrameBytes = 1024 * 1024 * 1024"
definition kRpcV2HelloMaxFrameBytes :: nat where "kRpcV2HelloMaxFrameBytes = 64 * 1024"

definition EncodeFramePrefix :: "u32 \<Rightarrow> byte list" where
  "EncodeFramePrefix n = [ucast (drop_bit 24 n), ucast (drop_bit 16 n), ucast (drop_bit 8 n), ucast n]"

definition DecodeFramePrefix :: "byte list \<Rightarrow> u32" where
  "DecodeFramePrefix bs =
     or (or (or (push_bit 24 (ucast (bs ! 0))) (push_bit 16 (ucast (bs ! 1)))) (push_bit 8 (ucast (bs ! 2))))
        (ucast (bs ! 3))"

definition FrameByteLimit :: "FrameKind \<Rightarrow> nat \<Rightarrow> nat" where
  "FrameByteLimit kind max_frame_bytes =
     (if kind = FkHello \<or> kind = FkHelloAck then min max_frame_bytes kRpcV2HelloMaxFrameBytes
      else max_frame_bytes)"

definition EncodeFramedSessionFrame ::
  "(SessionFrameMsg \<Rightarrow> byte list option) \<Rightarrow> SessionFrame \<Rightarrow> nat \<Rightarrow> byte list result" where
  "EncodeFramedSessionFrame serialize f max_frame_bytes =
     (if max_frame_bytes = 0 \<or> max_frame_bytes > kRpcV2MaxFrameBytes
      then Inl (MakeError InvalidArgument (ascii ''max_frame_bytes out of range''))
      else case EncodeSessionFrame serialize f of
        Inl e \<Rightarrow> Inl e
      | Inr body \<Rightarrow>
          (if length body > FrameByteLimit (sf_kind f) max_frame_bytes
           then Inl (MakeError InvalidArgument (ascii ''frame body exceeds kind byte limit''))
           else Inr (EncodeFramePrefix (word_of_nat (length body)) @ body)))"

section \<open>The decoder\<close>

record SessionFrameDecoder =
  fd_max_frame_bytes :: nat
  fd_buffer :: "byte list"
  fd_terminal_error :: "Error option"
  fd_hello_phase :: bool

definition fd_init :: "nat \<Rightarrow> SessionFrameDecoder" where
  "fd_init n = \<lparr>fd_max_frame_bytes = n, fd_buffer = [], fd_terminal_error = None, fd_hello_phase = True\<rparr>"

definition DeclaredLimit :: "SessionFrameDecoder \<Rightarrow> nat" where
  "DeclaredLimit d = (if fd_hello_phase d then min (fd_max_frame_bytes d) kRpcV2HelloMaxFrameBytes
                      else fd_max_frame_bytes d)"

definition PendingLimit :: "SessionFrameDecoder \<Rightarrow> nat" where
  "PendingLimit d = 4 + 2 * min (DeclaredLimit d) kRpcV2MaxFrameBytes"

definition SetHelloPhase :: "bool \<Rightarrow> SessionFrameDecoder \<Rightarrow> SessionFrameDecoder" where
  "SetHelloPhase phase d = d\<lparr>fd_hello_phase := phase\<rparr>"

definition PendingBytes :: "SessionFrameDecoder \<Rightarrow> nat" where
  "PendingBytes d = length (fd_buffer d)"

definition TakePending :: "SessionFrameDecoder \<Rightarrow> byte list \<times> SessionFrameDecoder" where
  "TakePending d = (fd_buffer d, d\<lparr>fd_buffer := []\<rparr>)"

definition fd_fail :: "Error \<Rightarrow> SessionFrameDecoder \<Rightarrow> 'a result \<times> SessionFrameDecoder" where
  "fd_fail e d = (Inl e, d\<lparr>fd_terminal_error := Some e\<rparr>)"

text \<open>Copying the next bytes of the input to the end of the buffer; at most all of them.\<close>

definition copy_in :: "nat \<Rightarrow> byte list \<Rightarrow> byte list \<Rightarrow> byte list \<times> byte list" where
  "copy_in n buffer rest = (buffer @ take n rest, drop n rest)"

lemma copy_in_conserves: "copy_in n buffer rest = (b, r) \<Longrightarrow> b @ r = buffer @ rest"
  by (auto simp: copy_in_def)

lemma copy_in_length: "(b, r) = copy_in n buffer rest \<Longrightarrow> length buffer + length rest = length b + length r"
  by (auto simp: copy_in_def)

lemma copy_in_short: "copy_in n buffer rest = (b, r) \<Longrightarrow> length b < length buffer + n \<Longrightarrow> r = []"
  by (auto simp: copy_in_def)

lemma feed_measure:
  "\<lbrakk>length b1 + length r1 = length b + length r; s < e; e \<le> length b1\<rbrakk>
   \<Longrightarrow> ((hello, limit, b1, e, r1), hello, limit, b, s, r)
     \<in> measure (\<lambda>(hello, limit, buffer, frame_start, rest). length buffer + length rest - frame_start)"
  by simp

text \<open>The loop of \<^verbatim>\<open>Feed\<close>: the buffer, the start of the current frame in it and the input left. The
  result is the error that ends the stream, if any, and the buffer.\<close>

function feed_loop :: "bool \<Rightarrow> nat \<Rightarrow> byte list \<Rightarrow> nat \<Rightarrow> byte list \<Rightarrow> Error option \<times> byte list" where
  "feed_loop hello limit buffer frame_start rest =
     (case copy_in (if length buffer - frame_start < 4 then 4 - (length buffer - frame_start) else 0) buffer rest of
        (buffer1, rest1) \<Rightarrow>
          (if length buffer1 - frame_start < 4 then (None, buffer1)
           else if frame_start \<noteq> 0 \<and> hello then (None, buffer1 @ rest1)
           else if unat (DecodeFramePrefix (drop frame_start buffer1)) > limit
           then (Some (MakeError ProtocolError (ascii ''declared frame length exceeds phase limit'')), buffer1)
           else let frame_end = frame_start + 4 + unat (DecodeFramePrefix (drop frame_start buffer1))
                in if length buffer1 \<ge> frame_end then feed_loop hello limit buffer1 frame_end rest1
                   else if rest1 = [] then (None, buffer1)
                   else case copy_in (frame_end - length buffer1) buffer1 rest1 of
                     (buffer2, rest2) \<Rightarrow>
                       (if length buffer2 < frame_end then (None, buffer2)
                        else if rest2 = [] then (None, buffer2)
                        else feed_loop hello limit buffer2 frame_end rest2)))"
  by pat_completeness auto

termination
  apply (relation "measure (\<lambda>(hello, limit, buffer, frame_start, rest). length buffer + length rest - frame_start)")
    apply simp
   apply (rule feed_measure, simp only: copy_in_length, simp, simp)
  apply (rule feed_measure, simp only: copy_in_length, simp, simp)
  done

declare feed_loop.simps [simp del]

definition Feed :: "SessionFrameDecoder \<Rightarrow> byte list \<Rightarrow> unit result \<times> SessionFrameDecoder" where
  "Feed d data =
     (case fd_terminal_error d of
        Some e \<Rightarrow> (Inl e, d)
      | None \<Rightarrow>
          (if length data > PendingLimit d \<or> length (fd_buffer d) + length data > PendingLimit d
           then fd_fail (MakeError ProtocolError (ascii ''pending decode bytes exceed hard limit'')) d
           else case feed_loop (fd_hello_phase d) (DeclaredLimit d) (fd_buffer d) 0 data of
             (Some e, buffer) \<Rightarrow> fd_fail e (d\<lparr>fd_buffer := buffer\<rparr>)
           | (None, buffer) \<Rightarrow> (Inr (), d\<lparr>fd_buffer := buffer\<rparr>)))"

definition Next ::
  "(byte list \<Rightarrow> SessionFrameMsg option) \<Rightarrow> SessionFrameDecoder \<Rightarrow> SessionFrame option result \<times> SessionFrameDecoder" where
  "Next parse d =
     (case fd_terminal_error d of
        Some e \<Rightarrow> (Inl e, d)
      | None \<Rightarrow>
          (if length (fd_buffer d) < 4 then (Inr None, d)
           else let declared = unat (DecodeFramePrefix (fd_buffer d))
                in if declared = 0
                   then fd_fail (MakeError ProtocolError (ascii ''frame payload_length zero is rejected'')) d
                   else if declared > DeclaredLimit d
                   then fd_fail (MakeError ProtocolError (ascii ''frame payload_length exceeds phase limit'')) d
                   else if length (fd_buffer d) < 4 + declared then (Inr None, d)
                   else case DecodeSessionFrame parse (take declared (drop 4 (fd_buffer d))) of
                     Inl e \<Rightarrow> fd_fail e d
                   | Inr f \<Rightarrow>
                       (if declared > FrameByteLimit (sf_kind f) (fd_max_frame_bytes d)
                        then fd_fail (MakeError ProtocolError (ascii ''frame body exceeds kind byte limit'')) d
                        else (Inr (Some f), d\<lparr>fd_buffer := drop (4 + declared) (fd_buffer d)\<rparr>))))"

definition IsTerminal :: "SessionFrameDecoder \<Rightarrow> bool" where
  "IsTerminal d \<longleftrightarrow> fd_terminal_error d \<noteq> None"

section \<open>The prefix carries the length\<close>

lemma DecodeFramePrefix_Encode [simp]: "DecodeFramePrefix (EncodeFramePrefix n @ rest) = n"
  unfolding DecodeFramePrefix_def EncodeFramePrefix_def
proof (rule bit_word_eqI, goal_cases)
  case (1 i)
  then consider "i < 8" | "8 \<le> i" "i < 16" | "16 \<le> i" "i < 24" | "24 \<le> i" "i < 32" by fastforce
  then show ?case by cases (auto simp: bit_simps)
qed

lemma byte_bit_high [simp]: "\<not> bit (b :: byte) (8 + i)" "\<not> bit (b :: byte) (16 + i)" "\<not> bit (b :: byte) (24 + i)"
  by (auto dest: bit_imp_le_length)

lemma EncodeFramePrefix_Decode: "EncodeFramePrefix (DecodeFramePrefix [a, b, c, d]) = [a, b, c, d]"
  unfolding DecodeFramePrefix_def EncodeFramePrefix_def
  by (auto intro!: bit_word_eqI simp: bit_simps)

lemma length_EncodeFramePrefix [simp]: "length (EncodeFramePrefix n) = 4"
  by (simp add: EncodeFramePrefix_def)

lemma DecodeFramePrefix_append: "4 \<le> length xs \<Longrightarrow> DecodeFramePrefix (xs @ ys) = DecodeFramePrefix xs"
proof -
  assume "4 \<le> length xs"
  then have "(xs @ ys) ! i = xs ! i" if "i < 4" for i using that by (simp add: nth_append)
  then show ?thesis by (simp add: DecodeFramePrefix_def)
qed

section \<open>What the feeding loop does\<close>

text \<open>The announced lengths of a byte sequence that starts with a frame are within the limit; in the
  handshake phase only the first one is looked at.\<close>

function lengths_ok :: "bool \<Rightarrow> nat \<Rightarrow> byte list \<Rightarrow> bool" where
  "lengths_ok hello limit bs =
     (if length bs < 4 then True
      else if unat (DecodeFramePrefix bs) > limit then False
      else if hello \<or> length bs < 4 + unat (DecodeFramePrefix bs) then True
      else lengths_ok hello limit (drop (4 + unat (DecodeFramePrefix bs)) bs))"
  by pat_completeness auto

termination
  by (relation "measure (\<lambda>(hello, limit, bs). length bs)") (simp, simp, linarith)

declare lengths_ok.simps [simp del]

lemma lengths_ok_short: "length bs < 4 \<Longrightarrow> lengths_ok hello limit bs"
  by (simp add: lengths_ok.simps)

lemma lengths_ok_frame:
  "\<lbrakk>unat (DecodeFramePrefix bs) = d; d \<le> limit; 4 + d \<le> length bs\<rbrakk>
     \<Longrightarrow> lengths_ok hello limit bs \<longleftrightarrow> hello \<or> lengths_ok hello limit (drop (4 + d) bs)"
  by (subst lengths_ok.simps) simp

lemma lengths_ok_partial:
  "\<lbrakk>unat (DecodeFramePrefix bs) = d; d \<le> limit; length bs < 4 + d\<rbrakk> \<Longrightarrow> lengths_ok hello limit bs"
  by (subst lengths_ok.simps) simp

definition feed_from_ok :: "bool \<Rightarrow> nat \<Rightarrow> nat \<Rightarrow> byte list \<Rightarrow> bool" where
  "feed_from_ok hello limit frame_start bs \<longleftrightarrow> hello \<and> frame_start \<noteq> 0 \<or> lengths_ok hello limit bs"

lemma feed_loop_result:
  "frame_start \<le> length buffer \<Longrightarrow>
     (if feed_from_ok hello limit frame_start (drop frame_start buffer @ rest)
      then feed_loop hello limit buffer frame_start rest = (None, buffer @ rest)
      else \<exists>b r. b @ r = buffer @ rest \<and> feed_loop hello limit buffer frame_start rest
        = (Some (MakeError ProtocolError (ascii ''declared frame length exceeds phase limit'')), b))"
proof (induction hello limit buffer frame_start rest rule: feed_loop.induct)
  case (1 hello limit buffer frame_start rest)
  let ?bs = "drop frame_start buffer @ rest"
  obtain b1 r1 where c1: "copy_in (if length buffer - frame_start < 4 then 4 - (length buffer - frame_start) else 0)
      buffer rest = (b1, r1)" by fastforce
  define d where "d = unat (DecodeFramePrefix (drop frame_start b1))"
  define fin where "fin = frame_start + 4 + d"
  obtain b2 r2 where c2: "copy_in (fin - length b1) b1 r1 = (b2, r2)" by fastforce
  have w1: "b1 @ r1 = buffer @ rest" and w2: "b2 @ r2 = buffer @ rest"
    using copy_in_conserves [OF c1] copy_in_conserves [OF c2] by simp_all
  have len1: "length buffer \<le> length b1" using c1 by (auto simp: copy_in_def)
  have bs1: "?bs = drop frame_start b1 @ r1"
    using arg_cong [OF w1, of "drop frame_start"] 1(3) len1 by simp
  have bs2: "?bs = drop frame_start b2 @ r2" if "frame_start \<le> length b2"
    using arg_cong [OF w2, of "drop frame_start"] 1(3) that by simp
  note step = feed_loop.simps [of hello limit buffer frame_start rest, unfolded c1 prod.case Let_def,
      folded d_def, folded fin_def, unfolded c2 prod.case]
  have long: "4 \<le> length b1 - frame_start \<Longrightarrow> unat (DecodeFramePrefix ?bs) = d \<and> 4 \<le> length ?bs"
    unfolding bs1 d_def by (simp add: DecodeFramePrefix_append)
  consider (short) "length b1 - frame_start < 4"
    | (later) "4 \<le> length b1 - frame_start" "frame_start \<noteq> 0 \<and> hello"
    | (excess) "4 \<le> length b1 - frame_start" "\<not> (frame_start \<noteq> 0 \<and> hello)" "d > limit"
    | (frame) "4 \<le> length b1 - frame_start" "\<not> (frame_start \<noteq> 0 \<and> hello)" "d \<le> limit" "fin \<le> length b1"
    | (idle) "4 \<le> length b1 - frame_start" "\<not> (frame_start \<noteq> 0 \<and> hello)" "d \<le> limit" "length b1 < fin" "r1 = []"
    | (part) "4 \<le> length b1 - frame_start" "\<not> (frame_start \<noteq> 0 \<and> hello)" "d \<le> limit" "length b1 < fin" "r1 \<noteq> []"
        "length b2 < fin \<or> r2 = []"
    | (more) "4 \<le> length b1 - frame_start" "\<not> (frame_start \<noteq> 0 \<and> hello)" "d \<le> limit" "length b1 < fin" "r1 \<noteq> []"
        "fin \<le> length b2" "r2 \<noteq> []"
    using not_less by blast
  then show ?case
  proof cases
    case short
    then have "length b1 < length buffer + (if length buffer - frame_start < 4 then 4 - (length buffer - frame_start) else 0)"
      using 1(3) len1 by auto
    then have "r1 = []" by (rule copy_in_short [OF c1])
    then have "length ?bs < 4" using short bs1 by simp
    then have "feed_from_ok hello limit frame_start ?bs" by (simp add: feed_from_ok_def lengths_ok_short)
    moreover have "feed_loop hello limit buffer frame_start rest = (None, b1)" using short step by simp
    ultimately show ?thesis using w1 \<open>r1 = []\<close> by simp
  next
    case later
    then show ?thesis using step w1 by (simp add: feed_from_ok_def)
  next
    case excess
    then show ?thesis using step w1 long by (auto simp: feed_from_ok_def lengths_ok.simps [of _ _ ?bs])
  next
    case frame
    have ok: "feed_from_ok hello limit frame_start ?bs = feed_from_ok hello limit fin (drop fin b1 @ r1)"
    proof -
      have "drop (4 + d) ?bs = drop fin b1 @ r1" "4 + d \<le> length ?bs"
        using frame unfolding bs1 by (simp_all add: fin_def add_ac)
      then show ?thesis using frame long lengths_ok_frame [of ?bs d limit hello] by (auto simp: feed_from_ok_def fin_def)
    qed
    have "if feed_from_ok hello limit fin (drop fin b1 @ r1) then feed_loop hello limit b1 fin r1 = (None, b1 @ r1)
      else \<exists>b r. b @ r = b1 @ r1 \<and> feed_loop hello limit b1 fin r1
        = (Some (MakeError ProtocolError (ascii ''declared frame length exceeds phase limit'')), b)"
      using frame by (intro 1(1) [OF c1 [symmetric]]) (simp_all add: d_def fin_def)
    moreover have "feed_loop hello limit buffer frame_start rest = feed_loop hello limit b1 fin r1"
      using frame step by auto
    ultimately show ?thesis unfolding ok w1 by (simp only:)
  next
    case idle
    have "length ?bs < 4 + d" using idle bs1 by (simp add: fin_def)
    then have "feed_from_ok hello limit frame_start ?bs"
      using idle long lengths_ok_partial [of ?bs d limit hello] by (simp add: feed_from_ok_def)
    then show ?thesis using idle step w1 by simp
  next
    case part
    have le: "length b2 \<le> fin" "length b1 \<le> length b2" using c2 part(4) by (auto simp: copy_in_def)
    have "r2 = []" using part copy_in_short [OF c2] by fastforce
    then have bs: "?bs = drop frame_start b2" using part(1) le bs2 by simp
    have "length ?bs < 4 + d \<or> drop (4 + d) ?bs = []" using le unfolding bs by (auto simp: fin_def)
    then have "feed_from_ok hello limit frame_start ?bs"
      using part long lengths_ok_partial [of ?bs d limit hello] lengths_ok_frame [of ?bs d limit hello]
      by (cases "length ?bs < 4 + d") (auto simp: feed_from_ok_def lengths_ok_short)
    moreover have "feed_loop hello limit buffer frame_start rest = (None, b2)" using part step by auto
    ultimately show ?thesis using w2 \<open>r2 = []\<close> by simp
  next
    case more
    have ok: "feed_from_ok hello limit frame_start ?bs = feed_from_ok hello limit fin (drop fin b2 @ r2)"
    proof -
      have bs: "?bs = drop frame_start b2 @ r2" using more(6) by (intro bs2) (simp add: fin_def)
      have "drop (4 + d) ?bs = drop fin b2 @ r2" "4 + d \<le> length ?bs"
        using more unfolding bs by (simp_all add: fin_def add_ac)
      then show ?thesis using more long lengths_ok_frame [of ?bs d limit hello] by (auto simp: feed_from_ok_def fin_def)
    qed
    have "if feed_from_ok hello limit fin (drop fin b2 @ r2) then feed_loop hello limit b2 fin r2 = (None, b2 @ r2)
      else \<exists>b r. b @ r = b2 @ r2 \<and> feed_loop hello limit b2 fin r2
        = (Some (MakeError ProtocolError (ascii ''declared frame length exceeds phase limit'')), b)"
      using more c2 by (intro 1(2) [OF c1 [symmetric]]) (simp_all add: d_def fin_def)
    moreover have "feed_loop hello limit buffer frame_start rest = feed_loop hello limit b2 fin r2"
      using more step by auto
    ultimately show ?thesis unfolding ok w2 by (simp only:)
  qed
qed

lemma Feed_cases:
  assumes "fd_terminal_error d = None"
  shows "Feed d data =
     (if length (fd_buffer d) + length data > PendingLimit d
      then fd_fail (MakeError ProtocolError (ascii ''pending decode bytes exceed hard limit'')) d
      else case feed_loop (fd_hello_phase d) (DeclaredLimit d) (fd_buffer d) 0 data of
        (Some e, buffer) \<Rightarrow> fd_fail e (d\<lparr>fd_buffer := buffer\<rparr>)
      | (None, buffer) \<Rightarrow> (Inr (), d\<lparr>fd_buffer := buffer\<rparr>))"
  using assms by (auto simp: Feed_def)

lemma Feed_accepts:
  assumes "fd_terminal_error d = None" "length (fd_buffer d) + length data \<le> PendingLimit d"
    and "lengths_ok (fd_hello_phase d) (DeclaredLimit d) (fd_buffer d @ data)"
  shows "Feed d data = (Inr (), d\<lparr>fd_buffer := fd_buffer d @ data\<rparr>)"
  using assms feed_loop_result [of 0 "fd_buffer d" "fd_hello_phase d" "DeclaredLimit d" data]
  by (simp add: Feed_cases feed_from_ok_def)

lemma Feed_refuses:
  assumes "fd_terminal_error d = None"
    and "length (fd_buffer d) + length data > PendingLimit d
      \<or> \<not> lengths_ok (fd_hello_phase d) (DeclaredLimit d) (fd_buffer d @ data)"
  shows "\<exists>e b r. Feed d data = fd_fail e (d\<lparr>fd_buffer := b\<rparr>) \<and> er_code e = ProtocolError
     \<and> b @ r = fd_buffer d @ data"
proof (cases "length (fd_buffer d) + length data > PendingLimit d")
  case True
  have "Feed d data = fd_fail (MakeError ProtocolError (ascii ''pending decode bytes exceed hard limit''))
      (d\<lparr>fd_buffer := fd_buffer d\<rparr>)" using assms(1) True by (simp add: Feed_cases)
  then show ?thesis using er_code_MakeError by blast
next
  case False
  then obtain b r where "b @ r = fd_buffer d @ data" "feed_loop (fd_hello_phase d) (DeclaredLimit d) (fd_buffer d) 0 data
      = (Some (MakeError ProtocolError (ascii ''declared frame length exceeds phase limit'')), b)"
    using assms(2) feed_loop_result [of 0 "fd_buffer d" "fd_hello_phase d" "DeclaredLimit d" data]
    by (auto simp: feed_from_ok_def)
  then have "Feed d data = fd_fail (MakeError ProtocolError (ascii ''declared frame length exceeds phase limit''))
      (d\<lparr>fd_buffer := b\<rparr>) \<and> b @ r = fd_buffer d @ data" using assms(1) False by (simp add: Feed_cases)
  then show ?thesis using er_code_MakeError by blast
qed

lemma terminal_sticks:
  assumes "fd_terminal_error d = Some e"
  shows "Feed d data = (Inl e, d)" "Next parse d = (Inl e, d)"
  using assms by (simp_all add: Feed_def Next_def)

lemma Next_fails: "Next parse d = (Inl e, d') \<Longrightarrow> fd_terminal_error d' = Some e"
  by (auto simp: Next_def fd_fail_def Let_def split: option.splits if_splits sum.splits)

lemma Feed_fails: "Feed d data = (Inl e, d') \<Longrightarrow> fd_terminal_error d' = Some e"
  by (auto simp: Feed_def fd_fail_def split: option.splits if_splits prod.splits)

section \<open>The reader of a session\<close>

text \<open>\<^verbatim>\<open>SessionCore::ReaderLoop\<close>: drain the decoder, dispatching every frame, then block in \<^verbatim>\<open>Read\<close> and
  feed the segments it returns. \<open>dead\<close> says, for the frames dispatched so far, whether the session was
  killed; the reads are given as a list, and the loop waits when they are used up.\<close>

datatype reader_end = ReaderWaiting | ReaderDead | ReaderKilled error_code

datatype read_outcome = ReadSegments "byte list list" | ReadFails error_code

lemma Next_shrinks: "Next parse d = (Inr (Some f), d') \<Longrightarrow> length (fd_buffer d') < length (fd_buffer d)"
  by (auto simp: Next_def fd_fail_def Let_def split: option.splits if_splits sum.splits)

function reader_drain ::
  "(byte list \<Rightarrow> SessionFrameMsg option) \<Rightarrow> (SessionFrame list \<Rightarrow> bool) \<Rightarrow> SessionFrame list \<Rightarrow> SessionFrameDecoder
     \<Rightarrow> SessionFrame list \<times> reader_end option \<times> SessionFrameDecoder" where
  "reader_drain parse dead hist d =
     (case Next parse d of
        (Inl e, d1) \<Rightarrow> (hist, Some (ReaderKilled (make_errc protocol_error)), d1)
      | (Inr None, d1) \<Rightarrow> (hist, None, d1)
      | (Inr (Some f), d1) \<Rightarrow>
          (if dead (hist @ [f]) then (hist @ [f], Some ReaderDead, d1)
           else reader_drain parse dead (hist @ [f]) d1))"
  by pat_completeness auto

termination
  by (relation "measure (\<lambda>(parse, dead, hist, d). length (fd_buffer d))") (simp, metis Next_shrinks in_measure split_conv)

declare reader_drain.simps [simp del]

fun feed_segments :: "SessionFrameDecoder \<Rightarrow> byte list list \<Rightarrow> unit result \<times> SessionFrameDecoder" where
  "feed_segments d [] = (Inr (), d)"
| "feed_segments d (seg # segs) =
     (case Feed d seg of (Inl e, d1) \<Rightarrow> (Inl e, d1) | (Inr _, d1) \<Rightarrow> feed_segments d1 segs)"

fun ReaderLoop ::
  "(byte list \<Rightarrow> SessionFrameMsg option) \<Rightarrow> (SessionFrame list \<Rightarrow> bool) \<Rightarrow> read_outcome list \<Rightarrow> SessionFrame list
     \<Rightarrow> SessionFrameDecoder \<Rightarrow> SessionFrame list \<times> reader_end \<times> SessionFrameDecoder" where
  "ReaderLoop parse dead reads hist d =
     (if dead hist then (hist, ReaderDead, d)
      else case reader_drain parse dead hist d of
        (h1, Some stop, d1) \<Rightarrow> (h1, stop, d1)
      | (h1, None, d1) \<Rightarrow>
          (case reads of
             [] \<Rightarrow> (h1, ReaderWaiting, d1)
           | ReadFails e # _ \<Rightarrow>
               (h1, ReaderKilled (if e = make_error_code NetEof then make_errc connection_reset else e), d1)
           | ReadSegments segs # later \<Rightarrow>
               (case feed_segments d1 segs of
                  (Inl _, d2) \<Rightarrow> (h1, ReaderKilled (make_errc protocol_error), d2)
                | (Inr _, d2) \<Rightarrow> ReaderLoop parse dead later h1 d2)))"

declare ReaderLoop.simps [simp del]

section \<open>Frames come out in order\<close>

definition frame_bytes :: "(byte list \<Rightarrow> SessionFrameMsg option) \<Rightarrow> nat \<Rightarrow> SessionFrame \<Rightarrow> byte list \<Rightarrow> bool" where
  "frame_bytes parse m g bs \<longleftrightarrow> (\<exists>body. bs = EncodeFramePrefix (word_of_nat (length body)) @ body \<and> body \<noteq> []
     \<and> length body \<le> FrameByteLimit (sf_kind g) m \<and> m \<le> kRpcV2MaxFrameBytes
     \<and> DecodeSessionFrame parse body = Inr g)"

definition data_phase :: "nat \<Rightarrow> SessionFrameDecoder \<Rightarrow> bool" where
  "data_phase m d \<longleftrightarrow> fd_max_frame_bytes d = m \<and> fd_terminal_error d = None \<and> \<not> fd_hello_phase d"

lemma sf_kind_wire_view [simp]: "sf_kind (wire_view f) = sf_kind f"
  by (simp add: wire_view_def)

lemma EncodeFramed_frame_bytes:
  assumes "protobuf_ok serialize parse" "EncodeFramedSessionFrame serialize f m = Inr bs"
  shows "frame_bytes parse m (wire_view f) bs"
proof -
  obtain body where body: "EncodeSessionFrame serialize f = Inr body" "length body \<le> FrameByteLimit (sf_kind f) m"
    "m \<le> kRpcV2MaxFrameBytes" "bs = EncodeFramePrefix (word_of_nat (length body)) @ body"
    using assms(2) by (auto simp: EncodeFramedSessionFrame_def split: if_splits sum.splits)
  then show ?thesis
    using DecodeSessionFrame_encoded [OF assms(1) body(1)] unfolding frame_bytes_def by auto
qed

lemma frame_bytes_prefix:
  assumes "frame_bytes parse m g bs"
  shows "unat (DecodeFramePrefix (bs @ rest)) = length bs - 4" "4 < length bs" "length bs - 4 \<le> m"
    "length bs - 4 \<le> FrameByteLimit (sf_kind g) m" "m \<le> kRpcV2MaxFrameBytes"
    "DecodeSessionFrame parse (drop 4 bs) = Inr g"
proof -
  obtain body where body: "bs = EncodeFramePrefix (word_of_nat (length body)) @ body" "body \<noteq> []"
    "length body \<le> FrameByteLimit (sf_kind g) m" "m \<le> kRpcV2MaxFrameBytes" "DecodeSessionFrame parse body = Inr g"
    using assms by (auto simp: frame_bytes_def)
  have "length body \<le> m" using body(3) by (auto simp: FrameByteLimit_def split: if_splits)
  then have "unat (word_of_nat (length body) :: u32) = length body"
    using body(4) by (simp add: unat_of_nat kRpcV2MaxFrameBytes_def take_bit_eq_mod)
  then show "unat (DecodeFramePrefix (bs @ rest)) = length bs - 4" "4 < length bs" "length bs - 4 \<le> m"
    "length bs - 4 \<le> FrameByteLimit (sf_kind g) m" "m \<le> kRpcV2MaxFrameBytes"
    "DecodeSessionFrame parse (drop 4 bs) = Inr g"
    using body \<open>length body \<le> m\<close> by simp_all
qed

lemma partial_frame_prefix:
  assumes "frame_bytes parse m g bs" "buffer @ future = bs @ rest" "4 \<le> length buffer"
  shows "unat (DecodeFramePrefix buffer) = length bs - 4"
proof -
  have "DecodeFramePrefix buffer = DecodeFramePrefix (bs @ rest)"
    using DecodeFramePrefix_append [OF assms(3), of future] assms(2) by simp
  then show ?thesis using frame_bytes_prefix(1) [OF assms(1)] by simp
qed

definition decodes :: "nat \<Rightarrow> nat \<Rightarrow> SessionFrameDecoder \<Rightarrow> bool" where
  "decodes m n d \<longleftrightarrow> fd_max_frame_bytes d = m \<and> fd_terminal_error d = None \<and> n - 4 \<le> DeclaredLimit d"

lemma Next_frame:
  assumes "frame_bytes parse m g bs" "decodes m (length bs) d" "fd_buffer d = bs @ rest"
  shows "Next parse d = (Inr (Some g), d\<lparr>fd_buffer := rest\<rparr>)"
  using assms frame_bytes_prefix [OF assms(1)] by (simp add: Next_def decodes_def Let_def)

lemma Next_partial:
  assumes "frame_bytes parse m g bs" "decodes m (length bs) d" "fd_buffer d @ future = bs @ rest"
    and "length (fd_buffer d) < length bs"
  shows "Next parse d = (Inr None, d)"
  using assms frame_bytes_prefix(2,3) [OF assms(1)] partial_frame_prefix [OF assms(1,3)]
  by (auto simp: Next_def decodes_def Let_def not_less)

lemma data_phase_decodes: "frame_bytes parse m g bs \<Longrightarrow> data_phase m d \<Longrightarrow> decodes m (length bs) d"
  using frame_bytes_prefix(2,3) [of parse m g bs] by (simp add: data_phase_def decodes_def DeclaredLimit_def)

lemma append_prefix_split:
  assumes "xs @ ys = bs @ rest" "length bs \<le> length xs"
  shows "\<exists>p. xs = bs @ p \<and> p @ ys = rest"
proof -
  have "take (length bs) xs = bs" using arg_cong [OF assms(1), of "take (length bs)"] assms(2) by simp
  then have "xs = bs @ drop (length bs) xs" by (metis append_take_drop_id)
  moreover have "drop (length bs) xs @ ys = rest" using arg_cong [OF assms(1), of "drop (length bs)"] assms(2) by simp
  ultimately show ?thesis by blast
qed

lemma drain_stream:
  assumes "list_all2 (frame_bytes parse m) gs encs" "data_phase m d" "fd_buffer d @ future = concat encs"
  shows "\<exists>k b. k \<le> length encs \<and> reader_drain parse (\<lambda>_. False) hist d = (hist @ take k gs, None, d\<lparr>fd_buffer := b\<rparr>)
    \<and> b @ future = concat (drop k encs) \<and> (k < length encs \<longrightarrow> length b < length (encs ! k)) \<and> (k = length encs \<longrightarrow> b = [])"
  using assms
proof (induction gs encs arbitrary: hist d rule: list_all2_induct)
  case Nil
  have "Next parse d = (Inr None, d)" using Nil by (simp add: Next_def data_phase_def)
  then have "reader_drain parse (\<lambda>_. False) hist d = (hist @ take 0 [], None, d\<lparr>fd_buffer := []\<rparr>)"
    using Nil by (simp add: reader_drain.simps)
  then show ?case using Nil by (intro exI [of _ 0] exI [of _ "[]"]) simp
next
  case (Cons g gs bs encs)
  show ?case
  proof (cases "length (fd_buffer d) < length bs")
    case True
    have "Next parse d = (Inr None, d)"
      using Next_partial [OF Cons(1) data_phase_decodes [OF Cons(1,4)], of future "concat encs"] Cons(5) True by simp
    then have "reader_drain parse (\<lambda>_. False) hist d = (hist @ take 0 (g # gs), None, d\<lparr>fd_buffer := fd_buffer d\<rparr>)"
      by (simp add: reader_drain.simps)
    then show ?thesis using True Cons(5) by (intro exI [of _ 0] exI [of _ "fd_buffer d"]) simp
  next
    case False
    then obtain rest where rest: "fd_buffer d = bs @ rest" "rest @ future = concat encs"
      using append_prefix_split [of "fd_buffer d" future bs "concat encs"] Cons(5) by fastforce
    have phase: "data_phase m (d\<lparr>fd_buffer := rest\<rparr>)" using Cons(4) by (simp add: data_phase_def)
    obtain k b where k: "k \<le> length encs" "reader_drain parse (\<lambda>_. False) (hist @ [g]) (d\<lparr>fd_buffer := rest\<rparr>)
        = ((hist @ [g]) @ take k gs, None, d\<lparr>fd_buffer := b\<rparr>)" "b @ future = concat (drop k encs)"
        "k < length encs \<longrightarrow> length b < length (encs ! k)" "k = length encs \<longrightarrow> b = []"
      using Cons.IH [OF phase, of "hist @ [g]"] rest(2) by auto
    have "reader_drain parse (\<lambda>_. False) hist d = (hist @ take (Suc k) (g # gs), None, d\<lparr>fd_buffer := b\<rparr>)"
      using Next_frame [OF Cons(1) data_phase_decodes [OF Cons(1,4)] rest(1)] k(2) by (subst reader_drain.simps) simp
    then show ?thesis using k by (intro exI [of _ "Suc k"] exI [of _ b]) simp
  qed
qed

lemma lengths_ok_stream:
  assumes "list_all2 (frame_bytes parse m) gs encs" "bs @ future = concat encs"
  shows "lengths_ok False m bs"
  using assms
proof (induction gs encs arbitrary: bs rule: list_all2_induct)
  case Nil
  then show ?case by (simp add: lengths_ok_short)
next
  case (Cons g gs enc encs)
  have d: "4 \<le> length bs \<Longrightarrow> unat (DecodeFramePrefix bs) = length enc - 4"
    using partial_frame_prefix [OF Cons(1), of bs future "concat encs"] Cons(4) by simp
  note size = frame_bytes_prefix(2,3) [OF Cons(1)]
  consider "length bs < 4" | "4 \<le> length bs" "length bs < length enc" | "length enc \<le> length bs" by fastforce
  then show ?case
  proof cases
    case 1
    then show ?thesis by (rule lengths_ok_short)
  next
    case 2
    then show ?thesis using d size by (intro lengths_ok_partial [of bs "length enc - 4"]) simp_all
  next
    case 3
    then obtain rest where rest: "bs = enc @ rest" "rest @ future = concat encs"
      using append_prefix_split [of bs future enc "concat encs"] Cons(4) by fastforce
    then show ?thesis
      using lengths_ok_frame [of bs "length enc - 4" m False] d size Cons.IH by simp
  qed
qed

lemma feed_segments_stream:
  assumes "list_all2 (frame_bytes parse m) gs encs" "m \<le> kRpcV2MaxFrameBytes"
    and "data_phase m d" "fd_buffer d @ concat segs @ future = concat encs"
    and "length (fd_buffer d) + length (concat segs) \<le> 4 + 2 * m"
  shows "feed_segments d segs = (Inr (), d\<lparr>fd_buffer := fd_buffer d @ concat segs\<rparr>)"
  using assms(3-5)
proof (induction segs arbitrary: d)
  case (Cons seg segs)
  have limits: "PendingLimit d = 4 + 2 * m" "DeclaredLimit d = m" "\<not> fd_hello_phase d" "fd_terminal_error d = None"
    using Cons(2) assms(2) by (simp_all add: PendingLimit_def DeclaredLimit_def data_phase_def)
  have "Feed d seg = (Inr (), d\<lparr>fd_buffer := fd_buffer d @ seg\<rparr>)"
    using Cons(3,4) limits lengths_ok_stream [OF assms(1), of "fd_buffer d @ seg" "concat segs @ future"]
    by (intro Feed_accepts) simp_all
  then show ?case using Cons(2-4) Cons.IH [of "d\<lparr>fd_buffer := fd_buffer d @ seg\<rparr>"] by (simp add: data_phase_def)
qed simp

lemma concat_take_rest:
  "b @ r = concat (drop k encs) \<Longrightarrow> whole @ r = concat encs \<Longrightarrow> concat (take k encs) @ b = whole"
  by (metis append.assoc append_same_eq append_take_drop_id concat_append)

lemma list_all2_drop: "list_all2 P xs ys \<Longrightarrow> list_all2 P (drop k xs) (drop k ys)"
  by (simp add: list_all2_dropI)

lemma ReaderLoop_stream:
  assumes "list_all2 (frame_bytes parse m) gs encs" "m \<le> kRpcV2MaxFrameBytes" "data_phase m d"
    and "fd_buffer d @ concat (map concat reads) @ future = concat encs"
    and "\<forall>segs \<in> set reads. length (concat segs) \<le> m"
  shows "\<exists>k d'. k \<le> length encs \<and> ReaderLoop parse (\<lambda>_. False) (map ReadSegments reads) hist d
      = (hist @ take k gs, ReaderWaiting, d')
    \<and> concat (take k encs) @ fd_buffer d' = fd_buffer d @ concat (map concat reads)
    \<and> (k < length encs \<longrightarrow> length (fd_buffer d') < length (encs ! k)) \<and> (k = length encs \<longrightarrow> fd_buffer d' = [])
    \<and> data_phase m d'"
  using assms
proof (induction reads arbitrary: hist d gs encs)
  case Nil
  obtain k b where k: "k \<le> length encs" "reader_drain parse (\<lambda>_. False) hist d
      = (hist @ take k gs, None, d\<lparr>fd_buffer := b\<rparr>)" "b @ future = concat (drop k encs)"
      "k < length encs \<longrightarrow> length b < length (encs ! k)" "k = length encs \<longrightarrow> b = []"
    using drain_stream [OF Nil(1,3), of future hist] Nil(4) by auto
  have "concat (take k encs) @ b = fd_buffer d"
    using Nil(4) by (intro concat_take_rest [OF k(3)]) simp
  then show ?case using k Nil(3)
    by (intro exI [of _ k] exI [of _ "d\<lparr>fd_buffer := b\<rparr>"]) (simp add: ReaderLoop.simps data_phase_def)
next
  case (Cons segs reads)
  let ?future = "concat segs @ concat (map concat reads) @ future"
  obtain k b where k: "k \<le> length encs" "reader_drain parse (\<lambda>_. False) hist d
      = (hist @ take k gs, None, d\<lparr>fd_buffer := b\<rparr>)" "b @ ?future = concat (drop k encs)"
      "k < length encs \<longrightarrow> length b < length (encs ! k)" "k = length encs \<longrightarrow> b = []"
    using drain_stream [OF Cons(2,4), of ?future hist] Cons(5) by auto
  have taken: "concat (take k encs) @ b = fd_buffer d"
    using Cons(5) by (intro concat_take_rest [OF k(3)]) simp
  have frames: "list_all2 (frame_bytes parse m) (drop k gs) (drop k encs)" using Cons(2) by (rule list_all2_drop)
  have "length b \<le> 4 + m"
  proof (cases "k < length encs")
    case True
    then have "frame_bytes parse m (gs ! k) (encs ! k)" using Cons(2) by (simp add: list_all2_conv_all_nth)
    then show ?thesis using True k(4) frame_bytes_prefix(3) by fastforce
  qed (use k in simp)
  then have fed: "feed_segments (d\<lparr>fd_buffer := b\<rparr>) segs = (Inr (), d\<lparr>fd_buffer := b @ concat segs\<rparr>)"
    using feed_segments_stream [OF frames Cons(3), of "d\<lparr>fd_buffer := b\<rparr>" segs "concat (map concat reads) @ future"]
      Cons(4,6) k(3) by (simp add: data_phase_def)
  obtain j d' where j: "j \<le> length (drop k encs)"
    "ReaderLoop parse (\<lambda>_. False) (map ReadSegments reads) (hist @ take k gs) (d\<lparr>fd_buffer := b @ concat segs\<rparr>)
      = ((hist @ take k gs) @ take j (drop k gs), ReaderWaiting, d')"
    "concat (take j (drop k encs)) @ fd_buffer d' = b @ concat segs @ concat (map concat reads)"
    "j < length (drop k encs) \<longrightarrow> length (fd_buffer d') < length (drop k encs ! j)"
    "j = length (drop k encs) \<longrightarrow> fd_buffer d' = []" "data_phase m d'"
    using Cons.IH [OF frames Cons(3), of "d\<lparr>fd_buffer := b @ concat segs\<rparr>" "hist @ take k gs"] Cons(4,6) k(3)
    by (auto simp: data_phase_def)
  have "ReaderLoop parse (\<lambda>_. False) (map ReadSegments (segs # reads)) hist d
      = (hist @ take (k + j) gs, ReaderWaiting, d')"
    using k(2) fed j(2) by (subst ReaderLoop.simps) (simp add: take_add)
  moreover have "concat (take (k + j) encs) @ fd_buffer d' = fd_buffer d @ concat (map concat (segs # reads))"
    using j(3) by (simp add: take_add taken [symmetric])
  ultimately show ?case using j k(1) by (intro exI [of _ "k + j"] exI [of _ d']) auto
qed

lemma encoded_frames:
  assumes "protobuf_ok serialize parse" "list_all2 (\<lambda>f bs. EncodeFramedSessionFrame serialize f m = Inr bs) fs encs"
  shows "list_all2 (frame_bytes parse m) (map wire_view fs) encs"
  using assms(2) by (induction rule: list_all2_induct) (simp_all add: EncodeFramed_frame_bytes [OF assms(1)])

lemma data_phase_init [simp]: "data_phase m (SetHelloPhase False (fd_init m))" "fd_buffer (SetHelloPhase False (fd_init m)) = []"
  by (simp_all add: data_phase_def SetHelloPhase_def fd_init_def)

section \<open>Properties\<close>

text \<open>C21: The reader of a live session delivers exactly the frames that were sent, in order, however
  the byte stream is cut into reads and segments, as long as no single read returns more than one
  frame limit. Whatever has arrived of the stream of encoded frames, the frames that are complete
  have been dispatched, the bytes of the next frame wait in the decoder, and the session is alive.\<close>

theorem reader_delivers_stream:
  assumes "protobuf_ok serialize parse" "0 < m" "m \<le> kRpcV2MaxFrameBytes"
    and "list_all2 (\<lambda>f bs. EncodeFramedSessionFrame serialize f m = Inr bs) fs encs"
    and "concat (map concat reads) @ future = concat encs" "\<forall>segs \<in> set reads. length (concat segs) \<le> m"
  shows "\<exists>k d. k \<le> length fs \<and> ReaderLoop parse (\<lambda>_. False) (map ReadSegments reads) [] (SetHelloPhase False (fd_init m))
        = (map wire_view (take k fs), ReaderWaiting, d)
      \<and> concat (take k encs) @ fd_buffer d = concat (map concat reads)
      \<and> (k < length fs \<longrightarrow> length (fd_buffer d) < length (encs ! k)) \<and> (k = length fs \<longrightarrow> fd_buffer d = [])"
  using ReaderLoop_stream [OF encoded_frames [OF assms(1,4)] assms(3) data_phase_init(1), of reads future "[]"]
    assms(5,6) list_all2_lengthD [OF assms(4)] by (auto simp: take_map)

definition two_calls :: "byte list list" where
  "two_calls = [EncodeFramePrefix 2 @ [8, 2], EncodeFramePrefix 2 @ [8, 2]]"

lemma two_calls_encoded:
  "list_all2 (\<lambda>f bs. EncodeFramedSessionFrame (tiny_serialize sample_call) f 2 = Inr bs) [sample_call, sample_call] two_calls"
proof -
  have "ValidateKindRules sample_call False = Inr ()" by code_simp
  then show ?thesis
    using tiny_encode [of sample_call]
    by (simp add: two_calls_def EncodeFramedSessionFrame_def kRpcV2MaxFrameBytes_def FrameByteLimit_def sample_call_def)
qed

theorem reader_delivers_stream_witness:
  "\<exists>k d. k \<le> 2 \<and> ReaderLoop (tiny_parse sample_call) (\<lambda>_. False)
        (map ReadSegments [[[0, 0]], [[0], [2]], [[8]], [[2], [0]], [[0, 0]], [[2, 8]], [[2]]]) []
        (SetHelloPhase False (fd_init 2))
      = (map wire_view (take k [sample_call, sample_call]), ReaderWaiting, d)
    \<and> concat (take k two_calls) @ fd_buffer d = [0, 0, 0, 2, 8, 2, 0, 0, 0, 2, 8, 2]
    \<and> (k < 2 \<longrightarrow> length (fd_buffer d) < length (two_calls ! k)) \<and> (k = 2 \<longrightarrow> fd_buffer d = [])"
proof -
  let ?reads = "[[[0, 0]], [[0], [2]], [[8]], [[2], [0]], [[0, 0]], [[2, 8]], [[2]]] :: byte list list list"
  have stream: "concat (map concat ?reads) @ [] = concat two_calls"
    by (simp add: two_calls_def EncodeFramePrefix_def)
  have small: "\<forall>segs \<in> set ?reads. length (concat segs) \<le> 2" by simp
  have limit: "0 < (2 :: nat)" "2 \<le> kRpcV2MaxFrameBytes" by (simp_all add: kRpcV2MaxFrameBytes_def)
  show ?thesis
    using reader_delivers_stream [OF tiny_protobuf_ok limit two_calls_encoded stream small]
    by (simp add: numeral_2_eq_2)
qed

text \<open>C33: A burst of valid frames can kill a session. When one read returns more bytes than the
  decoder's pending limit of four bytes and twice the frame limit, \<^verbatim>\<open>Feed\<close> refuses it and the reader
  kills the session with a protocol error before dispatching anything, whatever the bytes are; the
  witness sends two valid frames, each within the limit.\<close>

theorem valid_burst_kills_session:
  assumes "m \<le> kRpcV2MaxFrameBytes" "4 + 2 * m < length burst"
  shows "\<exists>d. ReaderLoop parse (\<lambda>_. False) [ReadSegments [burst]] [] (SetHelloPhase False (fd_init m))
    = ([], ReaderKilled (make_errc protocol_error), d)"
proof -
  let ?d = "SetHelloPhase False (fd_init m)"
  have "Next parse ?d = (Inr None, ?d)" by (simp add: Next_def SetHelloPhase_def fd_init_def)
  then have drained: "reader_drain parse (\<lambda>_. False) [] ?d = ([], None, ?d)" by (simp add: reader_drain.simps)
  have "PendingLimit ?d = 4 + 2 * m"
    using assms(1) by (simp add: PendingLimit_def DeclaredLimit_def SetHelloPhase_def fd_init_def)
  then obtain e d where "feed_segments ?d [burst] = (Inl e, d)"
    using assms(2) by (simp add: Feed_cases SetHelloPhase_def fd_init_def fd_fail_def)
  with drained show ?thesis by (simp add: ReaderLoop.simps)
qed

theorem valid_burst_kills_session_witness:
  "list_all2 (\<lambda>f bs. EncodeFramedSessionFrame (tiny_serialize sample_call) f 2 = Inr bs) [sample_call, sample_call] two_calls
     \<and> (\<exists>d. ReaderLoop (tiny_parse sample_call) (\<lambda>_. False) [ReadSegments [concat two_calls]] []
           (SetHelloPhase False (fd_init 2)) = ([], ReaderKilled (make_errc protocol_error), d))"
  using two_calls_encoded valid_burst_kills_session [of 2 "concat two_calls" "tiny_parse sample_call"]
  by (simp add: kRpcV2MaxFrameBytes_def two_calls_def)

text \<open>The big-endian length prefix is a bijection between 32-bit lengths and four bytes.\<close>

theorem frame_prefix_roundtrip:
  "DecodeFramePrefix (EncodeFramePrefix n) = n \<and> EncodeFramePrefix (DecodeFramePrefix [a, b, c, d]) = [a, b, c, d]"
  using DecodeFramePrefix_Encode [of n "[]"] EncodeFramePrefix_Decode by simp

text \<open>C31: Feeding is all or nothing as far as the caller can see. A live decoder accepts bytes exactly
  when the pending bytes stay within the hard limit and every length announced in them is within
  the limit of the phase; it then holds the old bytes followed by the new ones. Otherwise it keeps a
  prefix of them, and reports a protocol error that every later \<^verbatim>\<open>Feed\<close> and \<^verbatim>\<open>Next\<close> repeats.\<close>

theorem decoder_feed_contract:
  assumes "fd_terminal_error d = None"
  shows "if length (fd_buffer d) + length data \<le> PendingLimit d
            \<and> lengths_ok (fd_hello_phase d) (DeclaredLimit d) (fd_buffer d @ data)
         then Feed d data = (Inr (), d\<lparr>fd_buffer := fd_buffer d @ data\<rparr>)
         else \<exists>e d'. Feed d data = (Inl e, d') \<and> er_code e = ProtocolError \<and> prefix (fd_buffer d') (fd_buffer d @ data)
           \<and> (\<forall>later. Feed d' later = (Inl e, d')) \<and> Next parse d' = (Inl e, d')"
proof (cases "length (fd_buffer d) + length data \<le> PendingLimit d
    \<and> lengths_ok (fd_hello_phase d) (DeclaredLimit d) (fd_buffer d @ data)")
  case True
  then show ?thesis using Feed_accepts [OF assms] by simp
next
  case False
  then obtain e b r where fed: "Feed d data = fd_fail e (d\<lparr>fd_buffer := b\<rparr>)" "er_code e = ProtocolError"
    "b @ r = fd_buffer d @ data" using Feed_refuses [OF assms, of data] by force
  have "prefix b (fd_buffer d @ data)" using fed(3) by (metis prefixI)
  then show ?thesis
    using False fed terminal_sticks [of "d\<lparr>fd_buffer := b, fd_terminal_error := Some e\<rparr>" e] by (auto simp: fd_fail_def)
qed

theorem decoder_feed_contract_witness:
  "Feed (fd_init 9) [0, 0, 0, 2] = (Inr (), (fd_init 9)\<lparr>fd_buffer := [0, 0, 0, 2]\<rparr>)
     \<and> (\<exists>e d'. Feed (fd_init 9) [0, 0, 0, 99] = (Inl e, d') \<and> er_code e = ProtocolError \<and> Next (\<lambda>_. None) d' = (Inl e, d'))"
proof -
  have "fd_terminal_error (fd_init 9) = None" by (simp add: fd_init_def)
  note contract = decoder_feed_contract [OF this, where parse = "\<lambda>_. None"]
  have "DecodeFramePrefix [0, 0, 0, n] = ucast n" for n :: byte by (simp add: DecodeFramePrefix_def)
  then have "lengths_ok True 9 [0, 0, 0, 2]" "\<not> lengths_ok True 9 [0, 0, 0, 99]"
    by (simp_all add: lengths_ok.simps)
  then show ?thesis
    using contract [of "[0, 0, 0, 2]"] contract [of "[0, 0, 0, 99]"]
    by (auto simp: fd_init_def PendingLimit_def DeclaredLimit_def kRpcV2HelloMaxFrameBytes_def kRpcV2MaxFrameBytes_def)
qed

end
