(* ===== verification/NetErrors.thy ===== *)
theory NetErrors
  imports RpcResult
begin

text \<open>
  The bridge from the errors of the network layer to the errors of the protocol layers
  (\<^verbatim>\<open>bbt/infra/impl/NetErrorImpl.hpp\<close>), and what the RPC transports make of a failed call or write
  (\<^verbatim>\<open>bbt/infra/rpc/detail/Tcp.cc\<close>, \<^verbatim>\<open>bbt/infra/rpc/Session.cc\<close> lines 67 to 128).
\<close>

section \<open>The bridge\<close>

fun category_name :: "err_category \<Rightarrow> bytes" where
  "category_name SystemCategory = ascii ''system''"
| "category_name GenericCategory = ascii ''generic''"
| "category_name NetCategory = ascii ''bbt.net''"

definition NetBaseErrorCode :: "error_code \<Rightarrow> ErrorCode" where
  "NetBaseErrorCode ec =
     (if \<not> ec_fails ec then InternalError
      else if ec_category ec = NetCategory
      then (if ec_value ec = NetErrc_value NetClosed then Closed
            else if ec_value ec = NetErrc_value NetEof then TransportError
            else if ec_value ec = NetErrc_value NetWouldBlock then Overloaded
            else if ec_value ec = NetErrc_value NetBusy then Overloaded
            else if ec_value ec = NetErrc_value NetWriteSettling then Overloaded
            else if ec_value ec = NetErrc_value NetRejected then Overloaded
            else TransportError)
      else if ec_value ec = errc_value timed_out then TimedOut
      else if ec_value ec = errc_value operation_canceled then Cancelled
      else if ec_value ec = errc_value operation_not_permitted then InvalidContext
      else if ec_value ec = errc_value invalid_argument then InvalidArgument
      else if ec_value ec = errc_value operation_not_supported then RuntimeUnavailable
      else if ec_value ec = errc_value no_buffer_space \<or> ec_value ec = errc_value device_or_resource_busy
      then Overloaded
      else TransportError)"

definition NetDomainCode :: "error_code \<Rightarrow> bytes option" where
  "NetDomainCode ec =
     (if ec_category ec \<noteq> NetCategory then None
      else if ec_value ec = NetErrc_value NetClosed then Some (ascii ''net.closed'')
      else if ec_value ec = NetErrc_value NetEof then Some (ascii ''net.eof'')
      else if ec_value ec = NetErrc_value NetWouldBlock then Some (ascii ''net.would_block'')
      else if ec_value ec = NetErrc_value NetBusy then Some (ascii ''net.busy'')
      else if ec_value ec = NetErrc_value NetWriteSettling then Some (ascii ''net.write_settling'')
      else if ec_value ec = NetErrc_value NetRejected then Some (ascii ''net.rejected'')
      else Some (ascii ''net.unknown''))"

definition NetToError :: "error_code \<Rightarrow> bytes \<Rightarrow> Error" where
  "NetToError ec message =
     (let e = (MakeError (NetBaseErrorCode ec) message)
                \<lparr>er_backend_category := category_name (ec_category ec), er_backend_code := word_of_int (ec_value ec)\<rparr>
      in case NetDomainCode ec of Some code \<Rightarrow> e\<lparr>er_domain_code := code\<rparr> | None \<Rightarrow> e)"

section \<open>Failed calls and writes\<close>

definition TcpCallError :: "error_code \<Rightarrow> bytes \<Rightarrow> bool \<Rightarrow> Error" where
  "TcpCallError cause message committed =
     (let e = NetToError cause (ascii ''rpc tcp: '' @ message)
      in if committed
         then let e1 = e\<lparr>er_request_phase := Some RequestCommitted\<rparr>
              in if er_code e1 \<noteq> Cancelled then e1\<lparr>er_code := OutcomeUnknown\<rparr> else e1
         else e)"

definition TcpProtocolError :: "bytes \<Rightarrow> bool \<Rightarrow> Error" where
  "TcpProtocolError message committed =
     (let e = MakeError ProtocolError (ascii ''rpc tcp: '' @ message)
      in if committed then e\<lparr>er_request_phase := Some RequestCommitted\<rparr> else e)"

datatype WritePhase = WpInFlight | WpDone | WpRejected | WpUnknown

record WriteOutcome =
  wo_phase :: WritePhase
  wo_sent_bytes :: nat
  wo_failure :: error_code

text \<open>A report of a write: how the wait ended, the sampled outcome and whether there is a handle to
  observe the operation with.\<close>

record WriteReport =
  wr_wait_error :: error_code
  wr_outcome :: WriteOutcome
  wr_operation_valid :: bool

definition TcpSettleWrite :: "WriteReport \<Rightarrow> bytes \<Rightarrow> unit result" where
  "TcpSettleWrite report message =
     (if \<not> ec_fails (wr_wait_error report) \<and> wo_phase (wr_outcome report) = WpDone
         \<and> \<not> ec_fails (wo_failure (wr_outcome report))
      then Inr ()
      else
        let cause = (if ec_fails (wr_wait_error report) then wr_wait_error report else wo_failure (wr_outcome report));
            e = TcpCallError cause message False;
            e1 = (if er_request_phase e = None then e\<lparr>er_request_phase := Some Writing\<rparr> else e)
        in Inl (if wr_operation_valid report \<and> wo_phase (wr_outcome report) = WpInFlight \<and> er_code e1 \<noteq> Cancelled
                then e1\<lparr>er_code := OutcomeUnknown\<rparr> else e1))"

section \<open>Errors of the session layer\<close>

definition Err :: "ErrorCode \<Rightarrow> bytes \<Rightarrow> Error" where
  "Err code message = MakeError code (ascii ''rpc session: '' @ message)"

definition ErrPhase :: "ErrorCode \<Rightarrow> bytes \<Rightarrow> RequestPhase \<Rightarrow> Error" where
  "ErrPhase code message phase = (Err code message)\<lparr>er_request_phase := Some phase\<rparr>"

definition CallError :: "error_code \<Rightarrow> bytes \<Rightarrow> bool \<Rightarrow> Error" where
  "CallError cause message committed =
     (let e = TcpCallError cause message committed
      in if er_request_phase e = None \<and> committed then e\<lparr>er_request_phase := Some RequestCommitted\<rparr> else e)"

text \<open>The gate of a managed call: the coroutine it runs in, if any, whether its cancellation was
  requested, and the clock against the deadline (both in nanoseconds).\<close>

definition CheckCall :: "bool option \<Rightarrow> int \<Rightarrow> int \<Rightarrow> error_code" where
  "CheckCall current now deadline =
     (case current of
        None \<Rightarrow> make_errc operation_not_permitted
      | Some cancel_requested \<Rightarrow>
          (if cancel_requested then make_errc operation_canceled
           else if now \<ge> deadline then make_errc timed_out
           else no_error))"

text \<open>The budget that goes on the wire, in milliseconds.\<close>

definition kMaxBudgetMs :: int where
  "kMaxBudgetMs = 86400000"

definition Budget :: "int \<Rightarrow> int \<Rightarrow> u32 result" where
  "Budget now deadline =
     (if deadline \<le> now then Inl (Err TimedOut (ascii ''deadline already expired''))
      else let remaining = (deadline - now) div 1000000;
               floored = (if remaining < 1 then 1 else remaining);
               capped = (if floored > kMaxBudgetMs then kMaxBudgetMs else floored)
           in Inr (word_of_int capped))"

section \<open>Properties\<close>

lemma NetToError_fields [simp]:
  "er_code (NetToError ec m) = NetBaseErrorCode ec" "er_request_phase (NetToError ec m) = None"
  "er_backend_code (NetToError ec m) = word_of_int (ec_value ec)"
  by (simp_all add: NetToError_def MakeError_def default_Error_def Let_def split: option.splits)

lemma TcpCallError_fields:
  "er_request_phase (TcpCallError cause m committed) = (if committed then Some RequestCommitted else None)"
  "er_code (TcpCallError cause m committed)
     = (if committed \<and> NetBaseErrorCode cause \<noteq> Cancelled then OutcomeUnknown else NetBaseErrorCode cause)"
  by (simp_all add: TcpCallError_def Let_def)

lemma NetBaseErrorCode_known: "NetBaseErrorCode ec \<noteq> OutcomeUnknown"
  by (simp add: NetBaseErrorCode_def)



text \<open>The remaining budget put on the wire is always one the receiver accepts: between one millisecond
  and a day, refused when the deadline has passed, and never longer than the time that is left, except
  that less than a millisecond counts as one.\<close>

theorem budget_in_range:
  "(case Budget now deadline of
      Inl e \<Rightarrow> deadline \<le> now \<and> er_code e = TimedOut
    | Inr b \<Rightarrow> now < deadline \<and> 1 \<le> uint b \<and> uint b \<le> kMaxBudgetMs
        \<and> (uint b * 1000000 \<le> deadline - now \<or> uint b = 1 \<and> deadline - now < 1000000))"
proof (cases "deadline \<le> now")
  case True
  then show ?thesis by (simp add: Budget_def Err_def MakeError_def)
next
  case False
  let ?r = "(deadline - now) div 1000000"
  let ?c = "if (if ?r < 1 then 1 else ?r) > kMaxBudgetMs then kMaxBudgetMs else (if ?r < 1 then 1 else ?r)"
  have range: "1 \<le> ?c" "?c \<le> kMaxBudgetMs" by (simp_all add: kMaxBudgetMs_def)
  then have "uint (word_of_int ?c :: u32) = ?c" by (simp add: unsigned_of_int take_bit_int_eq_self kMaxBudgetMs_def)
  moreover have "?c * 1000000 \<le> deadline - now \<or> ?c = 1 \<and> deadline - now < 1000000"
    by (simp add: kMaxBudgetMs_def) linarith
  ultimately show ?thesis using False range by (simp add: Budget_def Let_def)
qed

end
