(* ===== verification/Handshake.thy ===== *)
theory Handshake
  imports FrameDecoder NetErrors
begin

text \<open>
  The handshake of a session (\<^verbatim>\<open>bbt/infra/rpc/Session.cc\<close> lines 1890 to 2202): reading handshake frames off
  a connection in small chunks, with the bytes behind a frame kept in a stash, and the exchange of
  hello and acknowledgement frames in both directions. An operation is a function on the state of the
  handshake: what the gate of each round says (after the list is used up it lets the call pass), what
  successive reads return, how successive writes end, the bytes written, the decoder, the stash and the
  identity of the peer. \<open>None\<close> is an operation that is still waiting for a read or a write.
\<close>

section \<open>State and sequencing\<close>

definition kHandshakeFeedChunk :: nat where "kHandshakeFeedChunk = 32 * 1024"

record HandshakeState =
  hs_gates :: "error_code list"
  hs_reads :: "read_outcome list"
  hs_reports :: "WriteReport list"
  hs_sent :: "byte list"
  hs_decoder :: SessionFrameDecoder
  hs_stash :: "byte list"
  hs_peer_identity :: bytes

type_synonym 'a hs = "HandshakeState \<Rightarrow> ('a result \<times> HandshakeState) option"

definition hs_return :: "'a \<Rightarrow> 'a hs" where
  "hs_return x s = Some (Inr x, s)"

definition hs_fail :: "Error \<Rightarrow> 'a hs" where
  "hs_fail e s = Some (Inl e, s)"

definition hs_bind :: "'a hs \<Rightarrow> ('a \<Rightarrow> 'b hs) \<Rightarrow> 'b hs" where
  "hs_bind m k s =
     (case m s of
        None \<Rightarrow> None
      | Some (Inl e, s1) \<Rightarrow> Some (Inl e, s1)
      | Some (Inr x, s1) \<Rightarrow> k x s1)"

section \<open>Reading a handshake frame\<close>

text \<open>The gate for a decoded frame: only handshake kinds pass, and the bytes the decoder still holds go in
  front of the stash.\<close>

definition hs_accept :: "SessionFrame \<Rightarrow> SessionFrame hs" where
  "hs_accept f s =
     (if sf_kind f \<noteq> FkHello \<and> sf_kind f \<noteq> FkHelloAck \<and> sf_kind f \<noteq> FkSessionError
      then hs_fail (Err ProtocolError (ascii ''non-handshake frame during handshake'')) s
      else let (pending, d) = TakePending (hs_decoder s)
           in if PendingBytes (hs_decoder s) \<noteq> 0
              then hs_return f (s\<lparr>hs_decoder := d, hs_stash := pending @ hs_stash s\<rparr>)
              else hs_return f s)"

text \<open>Feeding bytes chunk by chunk, looking for a frame after every chunk; the first frame stops it.\<close>

datatype chunks_result =
    ChunksFail Error SessionFrameDecoder
  | ChunksFrame SessionFrame SessionFrameDecoder "byte list"
  | ChunksDone SessionFrameDecoder

function feed_chunks ::
  "(byte list \<Rightarrow> SessionFrameMsg option) \<Rightarrow> bytes \<Rightarrow> SessionFrameDecoder \<Rightarrow> byte list \<Rightarrow> chunks_result" where
  "feed_chunks parse refusal d data =
     (if data = [] then ChunksDone d
      else case Feed d (take kHandshakeFeedChunk data) of
        (Inl _, d1) \<Rightarrow> ChunksFail (Err ProtocolError refusal) d1
      | (Inr _, d1) \<Rightarrow>
          (case Next parse d1 of
             (Inl e, d2) \<Rightarrow> ChunksFail e d2
           | (Inr (Some f), d2) \<Rightarrow> ChunksFrame f d2 (drop kHandshakeFeedChunk data)
           | (Inr None, d2) \<Rightarrow> feed_chunks parse refusal d2 (drop kHandshakeFeedChunk data)))"
  by pat_completeness auto

termination
  by (relation "measure (\<lambda>(parse, refusal, d, data). length data)") (simp_all add: kHandshakeFeedChunk_def)

declare feed_chunks.simps [simp del]

text \<open>The segments of one read, in order; what follows the frame in its segment and the later segments
  are left over.\<close>

fun feed_batch ::
  "(byte list \<Rightarrow> SessionFrameMsg option) \<Rightarrow> bytes \<Rightarrow> SessionFrameDecoder \<Rightarrow> byte list list \<Rightarrow> chunks_result" where
  "feed_batch parse refusal d [] = ChunksDone d"
| "feed_batch parse refusal d (seg # segs) =
     (case feed_chunks parse refusal d seg of
        ChunksFail e d1 \<Rightarrow> ChunksFail e d1
      | ChunksFrame f d1 rest \<Rightarrow> ChunksFrame f d1 (rest @ concat segs)
      | ChunksDone d1 \<Rightarrow> feed_batch parse refusal d1 segs)"

definition append_stash :: "byte list \<Rightarrow> 'a hs \<Rightarrow> 'a hs" where
  "append_stash rest m s =
     (case m s of
        Some (Inr x, s1) \<Rightarrow> Some (Inr x, s1\<lparr>hs_stash := hs_stash s1 @ rest\<rparr>)
      | other \<Rightarrow> other)"

text \<open>One round of \<^verbatim>\<open>ReadHandshakeFrame\<close> up to the blocking read: the gate, the decoder's own bytes, the
  stash. The result is the outcome of the call, or the state to read from. A failure ends the
  handshake, and the stash is dropped with it.\<close>

definition hs_round ::
  "(byte list \<Rightarrow> SessionFrameMsg option) \<Rightarrow> HandshakeState
     \<Rightarrow> (SessionFrame result \<times> HandshakeState) option + HandshakeState" where
  "hs_round parse s =
     (let gate = (case hs_gates s of g # _ \<Rightarrow> g | [] \<Rightarrow> no_error);
          s0 = s\<lparr>hs_gates := tl (hs_gates s)\<rparr>
      in if ec_fails gate then Inl (hs_fail (CallError gate (ascii ''handshake timed out'') False) s0)
         else case Next parse (hs_decoder s0) of
           (Inl e, d) \<Rightarrow> Inl (hs_fail e (s0\<lparr>hs_decoder := d\<rparr>))
         | (Inr (Some f), d) \<Rightarrow> Inl (hs_accept f (s0\<lparr>hs_decoder := d\<rparr>))
         | (Inr None, d) \<Rightarrow>
             (case feed_chunks parse (ascii ''handshake stash decode rejected'') d (hs_stash s0) of
                ChunksFail e d1 \<Rightarrow> Inl (hs_fail e (s0\<lparr>hs_decoder := d1, hs_stash := []\<rparr>))
              | ChunksFrame f d1 rest \<Rightarrow> Inl (hs_accept f (s0\<lparr>hs_decoder := d1, hs_stash := rest\<rparr>))
              | ChunksDone d1 \<Rightarrow> Inr (s0\<lparr>hs_decoder := d1, hs_stash := []\<rparr>)))"

function ReadHandshakeFrame :: "(byte list \<Rightarrow> SessionFrameMsg option) \<Rightarrow> SessionFrame hs" where
  "ReadHandshakeFrame parse s =
     (case hs_round parse s of
        Inl outcome \<Rightarrow> outcome
      | Inr s1 \<Rightarrow>
          (case hs_reads s of
             [] \<Rightarrow> None
           | ReadFails e # later \<Rightarrow>
               (if e = make_error_code NetEof
                then hs_fail (Err Unavailable (ascii ''peer closed during handshake'')) (s1\<lparr>hs_reads := later\<rparr>)
                else hs_fail (CallError e (ascii ''handshake read failed'') False) (s1\<lparr>hs_reads := later\<rparr>))
           | ReadSegments segs # later \<Rightarrow>
               (let s2 = s1\<lparr>hs_reads := later\<rparr>
                in case feed_batch parse (ascii ''handshake frame decode rejected'') (hs_decoder s2) segs of
                     ChunksFail e d \<Rightarrow> hs_fail e (s2\<lparr>hs_decoder := d\<rparr>)
                   | ChunksFrame f d rest \<Rightarrow> append_stash rest (hs_accept f) (s2\<lparr>hs_decoder := d\<rparr>)
                   | ChunksDone d \<Rightarrow> ReadHandshakeFrame parse (s2\<lparr>hs_decoder := d\<rparr>))))"
  by pat_completeness auto

termination
  by (relation "measure (\<lambda>(parse, s). length (hs_reads s))") auto

declare ReadHandshakeFrame.simps [simp del]

text \<open>The boundary of the handshake: the data phase begins and the stash goes back into the decoder.\<close>

definition CommitStashAfterFinalAck :: "unit hs" where
  "CommitStashAfterFinalAck s =
     (let d = SetHelloPhase False (hs_decoder s)
      in if hs_stash s = [] then hs_return () (s\<lparr>hs_decoder := d\<rparr>)
         else case Feed d (hs_stash s) of
           (Inl _, d1) \<Rightarrow>
             hs_fail (Err ProtocolError (ascii ''handshake stash decode rejected'')) (s\<lparr>hs_decoder := d1, hs_stash := []\<rparr>)
         | (Inr _, d1) \<Rightarrow> hs_return () (s\<lparr>hs_decoder := d1, hs_stash := []\<rparr>))"

section \<open>The exchange\<close>

definition WriteHandshakeFrame ::
  "(SessionFrameMsg \<Rightarrow> byte list option) \<Rightarrow> nat \<Rightarrow> SessionFrame \<Rightarrow> unit hs" where
  "WriteHandshakeFrame serialize max_frame f s =
     (case EncodeFramedSessionFrame serialize f max_frame of
        Inl e \<Rightarrow> hs_fail e s
      | Inr bs \<Rightarrow>
          (case hs_reports s of
             [] \<Rightarrow> None
           | report # later \<Rightarrow>
               (case TcpSettleWrite report (ascii ''handshake write failed'') of
                  Inl e \<Rightarrow> hs_fail e (s\<lparr>hs_reports := later\<rparr>)
                | Inr _ \<Rightarrow> hs_return () (s\<lparr>hs_reports := later, hs_sent := hs_sent s @ bs\<rparr>))))"

definition MakeHello :: "bytes \<Rightarrow> u64 \<Rightarrow> u64 \<Rightarrow> SessionFrame" where
  "MakeHello identity epoch nonce = default_SessionFrame\<lparr>sf_kind := FkHello, sf_traffic := TcSystem,
     sf_peer_identity := identity, sf_session_epoch := epoch, sf_connection_nonce := nonce\<rparr>"

definition MakeHelloAck :: "bytes \<Rightarrow> u64 \<Rightarrow> u64 \<Rightarrow> SessionFrame" where
  "MakeHelloAck identity epoch peer_nonce = default_SessionFrame\<lparr>sf_kind := FkHelloAck, sf_traffic := TcSystem,
     sf_peer_identity := identity, sf_session_epoch := epoch, sf_connection_nonce := peer_nonce\<rparr>"

text \<open>The order of \<^verbatim>\<open>std::string\<close>: bytes compared as unsigned characters.\<close>

fun string_less :: "bytes \<Rightarrow> bytes \<Rightarrow> bool" where
  "string_less xs [] = False"
| "string_less [] (y # ys) = True"
| "string_less (x # xs) (y # ys) = (x < y \<or> x = y \<and> string_less xs ys)"

definition protocol_fail :: "string \<Rightarrow> 'a hs" where
  "protocol_fail message = hs_fail (Err ProtocolError (ascii message))"

definition set_peer :: "bytes \<Rightarrow> unit hs" where
  "set_peer identity s = hs_return () (s\<lparr>hs_peer_identity := identity\<rparr>)"

definition OutboundHandshake ::
  "(SessionFrameMsg \<Rightarrow> byte list option) \<Rightarrow> (byte list \<Rightarrow> SessionFrameMsg option) \<Rightarrow> nat \<Rightarrow> bytes
     \<Rightarrow> u64 \<Rightarrow> u64 \<Rightarrow> u64 hs" where
  "OutboundHandshake serialize parse max_frame local proposal nonce =
     hs_bind (WriteHandshakeFrame serialize max_frame (MakeHello local proposal nonce)) (\<lambda>_.
     hs_bind (ReadHandshakeFrame parse) (\<lambda>remote.
     if sf_kind remote \<noteq> FkHello then protocol_fail ''expected Hello from peer''
     else if sf_peer_identity remote = local then protocol_fail ''self-connection rejected''
     else hs_bind (set_peer (sf_peer_identity remote)) (\<lambda>_.
       let i_own_epoch = string_less local (sf_peer_identity remote)
       in hs_bind (if i_own_epoch
                   then WriteHandshakeFrame serialize max_frame
                     (MakeHelloAck local proposal (sf_connection_nonce remote))
                   else hs_return ()) (\<lambda>_.
          hs_bind (ReadHandshakeFrame parse) (\<lambda>ack.
          if sf_kind ack \<noteq> FkHelloAck then protocol_fail ''expected HelloAck from peer''
          else if sf_peer_identity ack \<noteq> sf_peer_identity remote then protocol_fail ''HelloAck identity mismatch''
          else if i_own_epoch
          then (if sf_session_epoch ack \<noteq> proposal \<or> sf_connection_nonce ack \<noteq> nonce
                then protocol_fail ''HelloAck echo mismatch''
                else hs_bind CommitStashAfterFinalAck (\<lambda>_. hs_return proposal))
          else hs_bind (WriteHandshakeFrame serialize max_frame
                  (MakeHelloAck local (sf_session_epoch ack) (sf_connection_nonce remote))) (\<lambda>_.
               hs_bind CommitStashAfterFinalAck (\<lambda>_. hs_return (sf_session_epoch ack))))))))"

definition InboundHandshake ::
  "(SessionFrameMsg \<Rightarrow> byte list option) \<Rightarrow> (byte list \<Rightarrow> SessionFrameMsg option) \<Rightarrow> nat \<Rightarrow> bytes
     \<Rightarrow> u64 \<Rightarrow> u64 \<Rightarrow> u64 hs" where
  "InboundHandshake serialize parse max_frame local proposal nonce =
     hs_bind (ReadHandshakeFrame parse) (\<lambda>remote.
     if sf_kind remote \<noteq> FkHello then protocol_fail ''expected Hello from inbound peer''
     else if sf_peer_identity remote = local then protocol_fail ''self-connection rejected''
     else hs_bind (set_peer (sf_peer_identity remote)) (\<lambda>_.
       hs_bind (WriteHandshakeFrame serialize max_frame (MakeHello local proposal nonce)) (\<lambda>_.
       if string_less local (sf_peer_identity remote)
       then hs_bind (WriteHandshakeFrame serialize max_frame
                (MakeHelloAck local proposal (sf_connection_nonce remote))) (\<lambda>_.
            hs_bind (ReadHandshakeFrame parse) (\<lambda>ack.
            if sf_kind ack \<noteq> FkHelloAck \<or> sf_session_epoch ack \<noteq> proposal \<or> sf_connection_nonce ack \<noteq> nonce
               \<or> sf_peer_identity ack \<noteq> sf_peer_identity remote
            then protocol_fail ''HelloAck echo mismatch''
            else hs_bind CommitStashAfterFinalAck (\<lambda>_. hs_return proposal)))
       else hs_bind (ReadHandshakeFrame parse) (\<lambda>ack.
            if sf_kind ack \<noteq> FkHelloAck \<or> sf_connection_nonce ack \<noteq> nonce
               \<or> sf_peer_identity ack \<noteq> sf_peer_identity remote
            then protocol_fail ''HelloAck echo mismatch''
            else hs_bind (WriteHandshakeFrame serialize max_frame
                     (MakeHelloAck local (sf_session_epoch ack) (sf_connection_nonce remote))) (\<lambda>_.
                 hs_bind CommitStashAfterFinalAck (\<lambda>_. hs_return (sf_session_epoch ack)))))))"

definition hs_init :: "nat \<Rightarrow> error_code list \<Rightarrow> read_outcome list \<Rightarrow> WriteReport list \<Rightarrow> HandshakeState" where
  "hs_init max_frame gates reads reports =
     \<lparr>hs_gates = gates, hs_reads = reads, hs_reports = reports, hs_sent = [], hs_decoder = fd_init max_frame,
      hs_stash = [], hs_peer_identity = []\<rparr>"

section \<open>Reading one frame off a stream\<close>

definition hello_frame :: "(byte list \<Rightarrow> SessionFrameMsg option) \<Rightarrow> nat \<Rightarrow> SessionFrame \<Rightarrow> byte list \<Rightarrow> bool" where
  "hello_frame parse m f bs \<longleftrightarrow> frame_bytes parse m f bs \<and> (sf_kind f = FkHello \<or> sf_kind f = FkHelloAck)"

definition hello_phase :: "nat \<Rightarrow> SessionFrameDecoder \<Rightarrow> bool" where
  "hello_phase m d \<longleftrightarrow> fd_max_frame_bytes d = m \<and> fd_terminal_error d = None \<and> fd_hello_phase d"

lemma hello_phase_update [simp]: "hello_phase m (d\<lparr>fd_buffer := b\<rparr>) = hello_phase m d"
  by (simp add: hello_phase_def)

lemma hello_decodes:
  assumes "hello_frame parse m f bs" "hello_phase m d"
  shows "frame_bytes parse m f bs" "decodes m (length bs) d" "4 < length bs" "length bs \<le> DeclaredLimit d + 4"
    "DeclaredLimit d \<le> m" "PendingLimit d = 4 + 2 * DeclaredLimit d"
  using assms frame_bytes_prefix(2,4,5) [of parse m f bs]
  by (auto simp: hello_frame_def hello_phase_def decodes_def DeclaredLimit_def FrameByteLimit_def PendingLimit_def)

lemma Feed_hello:
  assumes "hello_frame parse m f bs" "hello_phase m d" "fd_buffer d @ data @ future = bs @ rest"
    and "length (fd_buffer d) < length bs" "length data \<le> DeclaredLimit d"
  shows "Feed d data = (Inr (), d\<lparr>fd_buffer := fd_buffer d @ data\<rparr>)"
proof (rule Feed_accepts)
  note hd = hello_decodes [OF assms(1,2)]
  show "fd_terminal_error d = None" using assms(2) by (simp add: hello_phase_def)
  show "length (fd_buffer d) + length data \<le> PendingLimit d" using assms(4,5) hd(4,6) by simp
  have "4 \<le> length (fd_buffer d @ data) \<Longrightarrow> unat (DecodeFramePrefix (fd_buffer d @ data)) = length bs - 4"
    using partial_frame_prefix [OF hd(1), of "fd_buffer d @ data" future rest] assms(3) by simp
  then show "lengths_ok (fd_hello_phase d) (DeclaredLimit d) (fd_buffer d @ data)"
    using assms(2) hd(4) by (subst lengths_ok.simps) (auto simp: hello_phase_def)
qed

lemma feed_chunks_frame:
  assumes "hello_frame parse m f bs" "hello_phase m d" "fd_buffer d @ data @ future = bs @ rest"
    and "length (fd_buffer d) < length bs" "length data \<le> m"
  shows "if length (fd_buffer d) + length data < length bs
         then feed_chunks parse refusal d data = ChunksDone (d\<lparr>fd_buffer := fd_buffer d @ data\<rparr>)
         else \<exists>pending left. feed_chunks parse refusal d data = ChunksFrame f (d\<lparr>fd_buffer := pending\<rparr>) left
           \<and> fd_buffer d @ data = bs @ pending @ left"
  using assms
proof (induction parse refusal d data rule: feed_chunks.induct)
  case (1 parse refusal d data)
  note hd = hello_decodes [OF 1(2,3)]
  let ?c = "take kHandshakeFeedChunk data" and ?r = "drop kHandshakeFeedChunk data"
  let ?d1 = "d\<lparr>fd_buffer := fd_buffer d @ ?c\<rparr>"
  have cut: "data @ future = ?c @ ?r @ future" by (metis append.assoc append_take_drop_id)
  show ?case
  proof (cases "data = []")
    case True
    then show ?thesis using 1(5) by (simp add: feed_chunks.simps)
  next
    case False
    have "length ?c \<le> DeclaredLimit d"
      using 1(3,6) by (auto simp: hello_phase_def DeclaredLimit_def kHandshakeFeedChunk_def kRpcV2HelloMaxFrameBytes_def)
    then have fed: "Feed d ?c = (Inr (), ?d1)"
      using Feed_hello [OF 1(2,3), of ?c "?r @ future" rest] 1(4,5) cut by simp
    have phase: "hello_phase m ?d1" using 1(3) by simp
    have stream: "fd_buffer ?d1 @ ?r @ future = bs @ rest" using 1(4) cut by simp
    show ?thesis
    proof (cases "length (fd_buffer d) + length ?c < length bs")
      case True
      have next1: "Next parse ?d1 = (Inr None, ?d1)"
        using Next_partial [OF hd(1) hello_decodes(2) [OF 1(2) phase] stream] True by simp
      have "if length (fd_buffer ?d1) + length ?r < length bs
         then feed_chunks parse refusal ?d1 ?r = ChunksDone (?d1\<lparr>fd_buffer := fd_buffer ?d1 @ ?r\<rparr>)
         else \<exists>pending left. feed_chunks parse refusal ?d1 ?r = ChunksFrame f (?d1\<lparr>fd_buffer := pending\<rparr>) left
           \<and> fd_buffer ?d1 @ ?r = bs @ pending @ left"
        using False fed next1 phase stream True 1(2,6) by (intro 1(1)) auto
      moreover have "feed_chunks parse refusal d data = feed_chunks parse refusal ?d1 ?r"
        using False fed next1 by (subst feed_chunks.simps) simp
      moreover have "fd_buffer ?d1 @ ?r = fd_buffer d @ data" by simp
      moreover have "length (fd_buffer ?d1) + length ?r = length (fd_buffer d) + length data"
        by (metis calculation(3) length_append)
      ultimately show ?thesis by (auto split: if_splits)
    next
      case full: False
      then obtain p where p: "fd_buffer d @ ?c = bs @ p"
        using append_prefix_split [of "fd_buffer d @ ?c" "?r @ future" bs rest] stream by fastforce
      have "Next parse ?d1 = (Inr (Some f), d\<lparr>fd_buffer := p\<rparr>)"
        using Next_frame [OF hd(1) hello_decodes(2) [OF 1(2) phase], of p] p by simp
      moreover have "fd_buffer d @ data = bs @ p @ ?r" using p by (metis append.assoc append_take_drop_id)
      moreover have "\<not> length (fd_buffer d) + length data < length bs" using full by simp
      ultimately show ?thesis using False fed by (subst (1 2) feed_chunks.simps) simp
    qed
  qed
qed

lemma feed_batch_frame:
  assumes "hello_frame parse m f bs" "hello_phase m d" "fd_buffer d @ concat segs @ future = bs @ rest"
    and "length (fd_buffer d) < length bs" "length (concat segs) \<le> m"
  shows "if length (fd_buffer d) + length (concat segs) < length bs
         then feed_batch parse refusal d segs = ChunksDone (d\<lparr>fd_buffer := fd_buffer d @ concat segs\<rparr>)
         else \<exists>pending left. feed_batch parse refusal d segs = ChunksFrame f (d\<lparr>fd_buffer := pending\<rparr>) left
           \<and> fd_buffer d @ concat segs = bs @ pending @ left"
  using assms(2-5)
proof (induction segs arbitrary: d)
  case (Cons seg segs)
  note chunks = feed_chunks_frame [OF assms(1) Cons(2), of seg "concat segs @ future" rest refusal]
  show ?case
  proof (cases "length (fd_buffer d) + length seg < length bs")
    case True
    let ?d1 = "d\<lparr>fd_buffer := fd_buffer d @ seg\<rparr>"
    have "feed_chunks parse refusal d seg = ChunksDone ?d1" using chunks Cons(3-5) True by simp
    then have "feed_batch parse refusal d (seg # segs) = feed_batch parse refusal ?d1 segs" by simp
    then show ?thesis using Cons.IH [of ?d1] Cons(2-5) True by (auto simp: add.assoc split: if_splits)
  next
    case False
    then obtain pending left where p: "feed_chunks parse refusal d seg = ChunksFrame f (d\<lparr>fd_buffer := pending\<rparr>) left"
      "fd_buffer d @ seg = bs @ pending @ left" using chunks Cons(3-5) by auto
    then have "fd_buffer d @ concat (seg # segs) = bs @ pending @ left @ concat segs"
      by (metis append.assoc concat.simps(2))
    then show ?thesis using p(1) False by auto
  qed
qed simp

lemma hs_accept_hello:
  assumes "hello_frame parse m f bs"
  shows "hs_accept f s = Some (Inr f, s\<lparr>hs_decoder := (hs_decoder s)\<lparr>fd_buffer := []\<rparr>,
    hs_stash := fd_buffer (hs_decoder s) @ hs_stash s\<rparr>)"
  using assms by (auto simp: hs_accept_def hello_frame_def hs_return_def TakePending_def PendingBytes_def)

text \<open>What a call needs to find its frame: the gate lets it pass, the frame is next in the bytes of the
  decoder, the stash and the reads, and the decoder holds at most a part of it.\<close>

definition hs_stream :: "nat \<Rightarrow> byte list list list \<Rightarrow> byte list \<Rightarrow> HandshakeState \<Rightarrow> bool" where
  "hs_stream m reads stream s \<longleftrightarrow> hello_phase m (hs_decoder s) \<and> hs_gates s = [] \<and> hs_reads s = map ReadSegments reads
     \<and> (\<forall>segs \<in> set reads. length (concat segs) \<le> m) \<and> length (hs_stash s) \<le> m
     \<and> fd_buffer (hs_decoder s) @ hs_stash s @ concat (map concat reads) = stream"

definition hs_kept :: "HandshakeState \<Rightarrow> HandshakeState \<Rightarrow> bool" where
  "hs_kept s s' \<longleftrightarrow> hs_reports s' = hs_reports s \<and> hs_sent s' = hs_sent s \<and> hs_peer_identity s' = hs_peer_identity s"

definition hs_found :: "nat \<Rightarrow> SessionFrame \<Rightarrow> byte list \<Rightarrow> HandshakeState \<Rightarrow> (SessionFrame result \<times> HandshakeState) option \<Rightarrow> bool" where
  "hs_found m f rest s outcome \<longleftrightarrow> (\<exists>reads s'. outcome = Some (Inr f, s') \<and> hs_stream m reads rest s'
     \<and> fd_buffer (hs_decoder s') = [] \<and> hs_kept s s')"

lemma hs_round_stream:
  assumes "hello_frame parse m f bs" "hs_stream m reads (bs @ rest) s" "length (fd_buffer (hs_decoder s)) < length bs"
  shows "if length (fd_buffer (hs_decoder s)) + length (hs_stash s) < length bs
         then \<exists>s1. hs_round parse s = Inr s1 \<and> hs_stream m reads (bs @ rest) s1 \<and> hs_stash s1 = []
           \<and> length (fd_buffer (hs_decoder s1)) < length bs \<and> hs_kept s s1
         else \<exists>outcome. hs_round parse s = Inl outcome \<and> hs_found m f rest s outcome"
proof -
  let ?d = "hs_decoder s" and ?stash = "hs_stash s" and ?future = "concat (map concat reads)"
  have phase: "hello_phase m ?d" and gates: "hs_gates s = []"
    and stream: "fd_buffer ?d @ ?stash @ ?future = bs @ rest" and small: "length ?stash \<le> m"
    using assms(2) by (simp_all add: hs_stream_def)
  note hd = hello_decodes [OF assms(1) phase]
  have next1: "Next parse ?d = (Inr None, ?d)" using Next_partial [OF hd(1,2) _ assms(3)] stream by blast
  note chunks = feed_chunks_frame [OF assms(1) phase stream assms(3) small,
      of "ascii ''handshake stash decode rejected''"]
  show ?thesis
  proof (cases "length (fd_buffer ?d) + length ?stash < length bs")
    case True
    then show ?thesis using chunks next1 gates stream assms(2)
      by (simp add: hs_round_def no_error_def ec_fails_def hs_stream_def hs_kept_def)
  next
    case False
    then obtain pending left where p: "feed_chunks parse (ascii ''handshake stash decode rejected'') ?d ?stash
        = ChunksFrame f (?d\<lparr>fd_buffer := pending\<rparr>) left" "fd_buffer ?d @ ?stash = bs @ pending @ left"
      using chunks by auto
    have "length (pending @ left) \<le> m" using arg_cong [OF p(2), of length] assms(3) small by simp
    moreover have "(pending @ left) @ ?future = rest" using stream p(2) by (metis append.assoc same_append_eq)
    ultimately show ?thesis using False p(1) next1 gates assms(2)
      by (auto simp: hs_round_def no_error_def ec_fails_def hs_accept_hello [OF assms(1)] hs_found_def hs_stream_def hs_kept_def)
  qed
qed

lemma hs_found_kept: "hs_found m f rest s1 outcome \<Longrightarrow> hs_kept s s1 \<Longrightarrow> hs_found m f rest s outcome"
  by (auto simp: hs_found_def hs_kept_def)

lemma ReadHandshakeFrame_stream:
  assumes "hello_frame parse m f bs" "hs_stream m reads (bs @ rest) s" "length (fd_buffer (hs_decoder s)) < length bs"
  shows "hs_found m f rest s (ReadHandshakeFrame parse s)"
  using assms(2,3)
proof (induction reads arbitrary: s)
  case Nil
  have "length (fd_buffer (hs_decoder s)) + length (hs_stash s) = length bs + length rest"
    using Nil(1) by (simp add: hs_stream_def flip: length_append)
  then show ?case using hs_round_stream [OF assms(1) Nil] by (auto simp: ReadHandshakeFrame.simps)
next
  case (Cons segs reads)
  show ?case
  proof (cases "length (fd_buffer (hs_decoder s)) + length (hs_stash s) < length bs")
    case False
    then show ?thesis using hs_round_stream [OF assms(1) Cons(2,3)] by (auto simp: ReadHandshakeFrame.simps)
  next
    case True
    then obtain s1 where s1: "hs_round parse s = Inr s1" "hs_stream m (segs # reads) (bs @ rest) s1" "hs_stash s1 = []"
      "length (fd_buffer (hs_decoder s1)) < length bs" "hs_kept s s1"
      using hs_round_stream [OF assms(1) Cons(2,3)] by auto
    let ?d = "hs_decoder s1" and ?s2 = "s1\<lparr>hs_reads := map ReadSegments reads\<rparr>"
    have phase: "hello_phase m ?d" and small: "length (concat segs) \<le> m"
      and stream: "fd_buffer ?d @ concat segs @ concat (map concat reads) = bs @ rest"
      using s1(2,3) by (simp_all add: hs_stream_def)
    note batch = feed_batch_frame [OF assms(1) phase stream s1(4) small,
        of "ascii ''handshake frame decode rejected''"]
    have reads: "hs_reads s = ReadSegments segs # map ReadSegments reads" using Cons(2) by (simp add: hs_stream_def)
    show ?thesis
    proof (cases "length (fd_buffer ?d) + length (concat segs) < length bs")
      case True
      let ?s3 = "?s2\<lparr>hs_decoder := ?d\<lparr>fd_buffer := fd_buffer ?d @ concat segs\<rparr>\<rparr>"
      have "ReadHandshakeFrame parse s = ReadHandshakeFrame parse ?s3"
        using batch True s1(1) reads by (subst ReadHandshakeFrame.simps) simp
      moreover have "hs_found m f rest ?s3 (ReadHandshakeFrame parse ?s3)"
        using s1(2,3) True by (intro Cons.IH) (simp_all add: hs_stream_def)
      ultimately show ?thesis using hs_found_kept [of m f rest ?s3] s1(5) by (simp add: hs_kept_def)
    next
      case False
      then obtain pending left where p: "feed_batch parse (ascii ''handshake frame decode rejected'') ?d segs
          = ChunksFrame f (?d\<lparr>fd_buffer := pending\<rparr>) left" "fd_buffer ?d @ concat segs = bs @ pending @ left"
        using batch by auto
      have "length (pending @ left) \<le> m" using arg_cong [OF p(2), of length] s1(4) small by simp
      moreover have "(pending @ left) @ concat (map concat reads) = rest"
        using stream p(2) by (metis append.assoc same_append_eq)
      ultimately show ?thesis using p(1) s1 reads
        by (subst ReadHandshakeFrame.simps)
          (auto simp: append_stash_def hs_accept_hello [OF assms(1)] hs_found_def hs_stream_def hs_kept_def)
    qed
  qed
qed

lemma ReadHandshakeFrame_next:
  assumes "hello_frame parse m f bs" "hs_stream m reads (bs @ rest) s" "fd_buffer (hs_decoder s) = []"
  shows "hs_found m f rest s (ReadHandshakeFrame parse s)"
proof -
  have "0 < length bs" using hello_decodes(3) [OF assms(1), of "hs_decoder s"] assms(2) by (auto simp: hs_stream_def)
  then show ?thesis using ReadHandshakeFrame_stream [OF assms(1,2)] assms(3) by simp
qed

section \<open>Both ends\<close>

lemma string_less_total: "a \<noteq> b \<Longrightarrow> string_less b a \<longleftrightarrow> \<not> string_less a b"
  by (induction a b rule: string_less.induct) (auto simp: neq_Nil_conv)

lemma wire_view_hello [simp]:
  "wire_view (MakeHello identity epoch nonce) = MakeHello identity epoch nonce"
  "wire_view (MakeHelloAck identity epoch nonce) = MakeHelloAck identity epoch nonce"
  by (simp_all add: wire_view_def MakeHello_def MakeHelloAck_def default_SessionFrame_def)

lemma hello_fields [simp]:
  "sf_kind (MakeHello i e n) = FkHello" "sf_peer_identity (MakeHello i e n) = i"
  "sf_session_epoch (MakeHello i e n) = e" "sf_connection_nonce (MakeHello i e n) = n"
  "sf_kind (MakeHelloAck i e n) = FkHelloAck" "sf_peer_identity (MakeHelloAck i e n) = i"
  "sf_session_epoch (MakeHelloAck i e n) = e" "sf_connection_nonce (MakeHelloAck i e n) = n"
  by (simp_all add: MakeHello_def MakeHelloAck_def)

lemma hello_frame_encoded:
  assumes "protobuf_ok serialize parse"
  shows "EncodeFramedSessionFrame serialize (MakeHello i e n) m = Inr bs \<Longrightarrow> hello_frame parse m (MakeHello i e n) bs"
    "EncodeFramedSessionFrame serialize (MakeHelloAck i e n) m = Inr bs \<Longrightarrow> hello_frame parse m (MakeHelloAck i e n) bs"
  using EncodeFramed_frame_bytes [OF assms] by (fastforce simp: hello_frame_def)+

definition done_report :: "WriteReport \<Rightarrow> bool" where
  "done_report r \<longleftrightarrow> \<not> ec_fails (wr_wait_error r) \<and> wo_phase (wr_outcome r) = WpDone \<and> \<not> ec_fails (wo_failure (wr_outcome r))"

lemma WriteHandshakeFrame_done:
  assumes "EncodeFramedSessionFrame serialize f m = Inr bs" "hs_reports s = r # later" "done_report r"
  shows "WriteHandshakeFrame serialize m f s = Some (Inr (), s\<lparr>hs_reports := later, hs_sent := hs_sent s @ bs\<rparr>)"
  using assms by (simp add: WriteHandshakeFrame_def TcpSettleWrite_def done_report_def hs_return_def)

text \<open>The bytes that follow the handshake are frames of the session.\<close>

definition data_stream :: "(byte list \<Rightarrow> SessionFrameMsg option) \<Rightarrow> nat \<Rightarrow> byte list \<Rightarrow> bool" where
  "data_stream parse m bs \<longleftrightarrow> (\<exists>gs encs future. list_all2 (frame_bytes parse m) gs encs \<and> bs @ future = concat encs)"

lemma CommitStash_stream:
  assumes "hs_stream m reads rest s" "fd_buffer (hs_decoder s) = []" "data_stream parse m rest" "m \<le> kRpcV2MaxFrameBytes"
  shows "\<exists>s'. CommitStashAfterFinalAck s = Some (Inr (), s') \<and> data_phase m (hs_decoder s') \<and> hs_kept s s'
     \<and> hs_reads s' = map ReadSegments reads \<and> fd_buffer (hs_decoder s') @ concat (map concat reads) = rest
     \<and> (\<forall>segs \<in> set reads. length (concat segs) \<le> m)"
proof -
  let ?d = "SetHelloPhase False (hs_decoder s)"
  have phase: "data_phase m ?d" and stream: "hs_stash s @ concat (map concat reads) = rest"
    and small: "length (hs_stash s) \<le> m" and reads: "hs_reads s = map ReadSegments reads"
    using assms(1,2) by (simp_all add: hs_stream_def hello_phase_def data_phase_def SetHelloPhase_def)
  obtain gs encs future where encs: "list_all2 (frame_bytes parse m) gs encs" "rest @ future = concat encs"
    using assms(3) by (auto simp: data_stream_def)
  have "feed_segments ?d [hs_stash s] = (Inr (), ?d\<lparr>fd_buffer := fd_buffer ?d @ concat [hs_stash s]\<rparr>)"
    using feed_segments_stream [OF encs(1) assms(4) phase, of "[hs_stash s]" "concat (map concat reads) @ future"]
      stream encs(2) small assms(2) by (simp add: SetHelloPhase_def flip: append_assoc)
  then have "Feed ?d (hs_stash s) = (Inr (), ?d\<lparr>fd_buffer := hs_stash s\<rparr>)"
    using assms(2) by (simp add: SetHelloPhase_def split: prod.splits sum.splits)
  then show ?thesis using phase stream reads assms(1,2)
    by (cases "hs_stash s = []")
      (auto simp: CommitStashAfterFinalAck_def hs_return_def hs_kept_def data_phase_def SetHelloPhase_def
        hs_stream_def)
qed

text \<open>How a handshake ends well: the epoch is agreed, the peer is known, exactly two frames were sent, the
  decoder is in the data phase and the bytes behind the handshake are all there.\<close>

definition hs_agreed ::
  "nat \<Rightarrow> u64 \<Rightarrow> bytes \<Rightarrow> byte list \<Rightarrow> byte list \<Rightarrow> (u64 result \<times> HandshakeState) option \<Rightarrow> bool" where
  "hs_agreed m epoch peer sent rest outcome \<longleftrightarrow> (\<exists>reads s. outcome = Some (Inr epoch, s) \<and> hs_peer_identity s = peer
     \<and> hs_sent s = sent \<and> data_phase m (hs_decoder s) \<and> hs_reads s = map ReadSegments reads
     \<and> fd_buffer (hs_decoder s) @ concat (map concat reads) = rest \<and> (\<forall>segs \<in> set reads. length (concat segs) \<le> m))"

lemma hs_stream_kept [simp]:
  "hs_stream m reads bs (s\<lparr>hs_reports := r, hs_sent := t\<rparr>) = hs_stream m reads bs s"
  "hs_stream m reads bs (s\<lparr>hs_peer_identity := i\<rparr>) = hs_stream m reads bs s"
  by (simp_all add: hs_stream_def)

lemma hs_commit_agreed:
  assumes "hs_stream m reads rest s" "fd_buffer (hs_decoder s) = []" "data_stream parse m rest" "m \<le> kRpcV2MaxFrameBytes"
  shows "hs_agreed m epoch (hs_peer_identity s) (hs_sent s) rest (hs_bind CommitStashAfterFinalAck (\<lambda>_. hs_return epoch) s)"
  using CommitStash_stream [OF assms] by (auto simp: hs_agreed_def hs_bind_def hs_return_def hs_kept_def)

lemma OutboundHandshake_agreed:
  assumes pb: "protobuf_ok serialize parse" "m \<le> kRpcV2MaxFrameBytes" and ids: "a \<noteq> b"
    and enc: "EncodeFramedSessionFrame serialize (MakeHello a pa na) m = Inr ha"
      "EncodeFramedSessionFrame serialize (MakeHelloAck a epoch nb) m = Inr aa"
      "EncodeFramedSessionFrame serialize (MakeHello b pb nb) m = Inr hb"
      "EncodeFramedSessionFrame serialize (MakeHelloAck b epoch nx) m = Inr ab"
    and echo: "string_less a b \<Longrightarrow> nx = na" and epoch: "epoch = (if string_less a b then pa else pb)"
    and s: "hs_stream m reads (hb @ ab @ rest) s" "fd_buffer (hs_decoder s) = []" "hs_reports s = [r1, r2]"
      "done_report r1" "done_report r2" "hs_sent s = []"
    and rest: "data_stream parse m rest"
  shows "hs_agreed m epoch b (ha @ aa) rest (OutboundHandshake serialize parse m a pa na s)"
proof -
  let ?s1 = "s\<lparr>hs_reports := [r2], hs_sent := ha\<rparr>"
  have w1: "WriteHandshakeFrame serialize m (MakeHello a pa na) s = Some (Inr (), ?s1)"
    using WriteHandshakeFrame_done [OF enc(1) s(3,4)] s(6) by simp
  obtain reads2 s2 where s2: "ReadHandshakeFrame parse ?s1 = Some (Inr (MakeHello b pb nb), s2)"
    "hs_stream m reads2 (ab @ rest) s2" "fd_buffer (hs_decoder s2) = []" "hs_kept ?s1 s2"
    using ReadHandshakeFrame_next [OF hello_frame_encoded(1) [OF pb(1) enc(3)], of reads "ab @ rest" ?s1] s
    by (auto simp: hs_found_def)
  let ?s3 = "s2\<lparr>hs_peer_identity := b\<rparr>"
  let ?s4 = "?s3\<lparr>hs_reports := [], hs_sent := ha @ aa\<rparr>"
  have w2: "WriteHandshakeFrame serialize m (MakeHelloAck a epoch nb) ?s3 = Some (Inr (), ?s4)"
    using WriteHandshakeFrame_done [OF enc(2), of ?s3 r2 "[]"] s(5) s2(4) by (simp add: hs_kept_def)
  show ?thesis
  proof (cases "string_less a b")
    case True
    obtain reads5 s5 where s5: "ReadHandshakeFrame parse ?s4 = Some (Inr (MakeHelloAck b epoch nx), s5)"
      "hs_stream m reads5 rest s5" "fd_buffer (hs_decoder s5) = []" "hs_kept ?s4 s5"
      using ReadHandshakeFrame_next [OF hello_frame_encoded(2) [OF pb(1) enc(4)], of reads2 rest ?s4] s2
      by (auto simp: hs_found_def)
    have "OutboundHandshake serialize parse m a pa na s = hs_bind CommitStashAfterFinalAck (\<lambda>_. hs_return epoch) s5"
      using True ids w1 s2(1) w2 s5(1) epoch echo
      by (simp add: OutboundHandshake_def hs_bind_def set_peer_def hs_return_def)
    then show ?thesis using hs_commit_agreed [OF s5(2,3) rest pb(2), of epoch] s5(4) by (simp add: hs_kept_def)
  next
    case False
    obtain reads4 s4 where s4: "ReadHandshakeFrame parse ?s3 = Some (Inr (MakeHelloAck b epoch nx), s4)"
      "hs_stream m reads4 rest s4" "fd_buffer (hs_decoder s4) = []" "hs_kept ?s3 s4"
      using ReadHandshakeFrame_next [OF hello_frame_encoded(2) [OF pb(1) enc(4)], of reads2 rest ?s3] s2
      by (auto simp: hs_found_def)
    let ?s5 = "s4\<lparr>hs_reports := [], hs_sent := ha @ aa\<rparr>"
    have w3: "WriteHandshakeFrame serialize m (MakeHelloAck a epoch nb) s4 = Some (Inr (), ?s5)"
      using WriteHandshakeFrame_done [OF enc(2), of s4 r2 "[]"] s(5) s2(4) s4(4) by (simp add: hs_kept_def)
    have "OutboundHandshake serialize parse m a pa na s = hs_bind CommitStashAfterFinalAck (\<lambda>_. hs_return epoch) ?s5"
      using False ids w1 s2(1) s4(1) w3 by (simp add: OutboundHandshake_def hs_bind_def set_peer_def hs_return_def)
    then show ?thesis
      using hs_commit_agreed [of m reads4 rest ?s5 parse epoch] s4 rest pb(2) by (simp add: hs_kept_def)
  qed
qed

lemma InboundHandshake_agreed:
  assumes pb: "protobuf_ok serialize parse" "m \<le> kRpcV2MaxFrameBytes" and ids: "a \<noteq> b"
    and enc: "EncodeFramedSessionFrame serialize (MakeHello a pa na) m = Inr ha"
      "EncodeFramedSessionFrame serialize (MakeHelloAck a epoch nb) m = Inr aa"
      "EncodeFramedSessionFrame serialize (MakeHello b pb nb) m = Inr hb"
      "EncodeFramedSessionFrame serialize (MakeHelloAck b epoch na) m = Inr ab"
    and epoch: "epoch = (if string_less b a then pb else pa)"
    and s: "hs_stream m reads (ha @ aa @ rest) s" "fd_buffer (hs_decoder s) = []" "hs_reports s = [r1, r2]"
      "done_report r1" "done_report r2" "hs_sent s = []"
    and rest: "data_stream parse m rest"
  shows "hs_agreed m epoch a (hb @ ab) rest (InboundHandshake serialize parse m b pb nb s)"
proof -
  obtain reads1 s1 where s1: "ReadHandshakeFrame parse s = Some (Inr (MakeHello a pa na), s1)"
    "hs_stream m reads1 (aa @ rest) s1" "fd_buffer (hs_decoder s1) = []" "hs_kept s s1"
    using ReadHandshakeFrame_next [OF hello_frame_encoded(1) [OF pb(1) enc(1)], of reads "aa @ rest" s] s
    by (auto simp: hs_found_def)
  let ?s2 = "s1\<lparr>hs_peer_identity := a\<rparr>"
  let ?s3 = "?s2\<lparr>hs_reports := [r2], hs_sent := hb\<rparr>"
  have w1: "WriteHandshakeFrame serialize m (MakeHello b pb nb) ?s2 = Some (Inr (), ?s3)"
    using WriteHandshakeFrame_done [OF enc(3), of ?s2 r1 "[r2]"] s(3,4,6) s1(4) by (simp add: hs_kept_def)
  show ?thesis
  proof (cases "string_less b a")
    case True
    let ?s4 = "?s3\<lparr>hs_reports := [], hs_sent := hb @ ab\<rparr>"
    have w2: "WriteHandshakeFrame serialize m (MakeHelloAck b epoch na) ?s3 = Some (Inr (), ?s4)"
      using WriteHandshakeFrame_done [OF enc(4), of ?s3 r2 "[]"] s(5) by simp
    obtain reads5 s5 where s5: "ReadHandshakeFrame parse ?s4 = Some (Inr (MakeHelloAck a epoch nb), s5)"
      "hs_stream m reads5 rest s5" "fd_buffer (hs_decoder s5) = []" "hs_kept ?s4 s5"
      using ReadHandshakeFrame_next [OF hello_frame_encoded(2) [OF pb(1) enc(2)], of reads1 rest ?s4] s1
      by (auto simp: hs_found_def)
    have "InboundHandshake serialize parse m b pb nb s = hs_bind CommitStashAfterFinalAck (\<lambda>_. hs_return epoch) s5"
      using True ids s1(1) w1 w2 s5(1) epoch by (simp add: InboundHandshake_def hs_bind_def set_peer_def hs_return_def)
    then show ?thesis using hs_commit_agreed [OF s5(2,3) rest pb(2), of epoch] s5(4) by (simp add: hs_kept_def)
  next
    case False
    obtain reads4 s4 where s4: "ReadHandshakeFrame parse ?s3 = Some (Inr (MakeHelloAck a epoch nb), s4)"
      "hs_stream m reads4 rest s4" "fd_buffer (hs_decoder s4) = []" "hs_kept ?s3 s4"
      using ReadHandshakeFrame_next [OF hello_frame_encoded(2) [OF pb(1) enc(2)], of reads1 rest ?s3] s1
      by (auto simp: hs_found_def)
    let ?s5 = "s4\<lparr>hs_reports := [], hs_sent := hb @ ab\<rparr>"
    have w3: "WriteHandshakeFrame serialize m (MakeHelloAck b epoch na) s4 = Some (Inr (), ?s5)"
      using WriteHandshakeFrame_done [OF enc(4), of s4 r2 "[]"] s(5) s4(4) by (simp add: hs_kept_def)
    have "InboundHandshake serialize parse m b pb nb s = hs_bind CommitStashAfterFinalAck (\<lambda>_. hs_return epoch) ?s5"
      using False ids s1(1) w1 s4(1) w3 by (simp add: InboundHandshake_def hs_bind_def set_peer_def hs_return_def)
    then show ?thesis
      using hs_commit_agreed [of m reads4 rest ?s5 parse epoch] s4 rest pb(2) by (simp add: hs_kept_def)
  qed
qed

section \<open>Properties\<close>


text \<open>A protobuf stand-in for a few known messages: a message is its number in the table.\<close>

definition table_serialize :: "SessionFrameMsg list \<Rightarrow> SessionFrameMsg \<Rightarrow> byte list option" where
  "table_serialize ms msg = map_option (\<lambda>i. [word_of_nat i]) (List.find (\<lambda>i. ms ! i = msg) [0..<length ms])"

definition table_parse :: "SessionFrameMsg list \<Rightarrow> byte list \<Rightarrow> SessionFrameMsg option" where
  "table_parse ms bs = (case bs of [x] \<Rightarrow> if unat x < length ms then Some (ms ! unat x) else None | _ \<Rightarrow> None)"

lemma table_protobuf_ok: "length ms \<le> 256 \<Longrightarrow> protobuf_ok (table_serialize ms) (table_parse ms)"
  by (auto simp: protobuf_ok_def table_serialize_def table_parse_def find_Some_iff unat_of_nat take_bit_eq_mod)

definition sample_frames :: "SessionFrame list" where
  "sample_frames = [MakeHello (ascii ''a'') 5 11, MakeHelloAck (ascii ''a'') 5 12,
     MakeHello (ascii ''b'') 6 12, MakeHelloAck (ascii ''b'') 5 11]"

definition sample_messages :: "SessionFrameMsg list" where
  "sample_messages = map message_of sample_frames"

definition ok_report :: WriteReport where
  "ok_report = \<lparr>wr_wait_error = no_error, wr_outcome = \<lparr>wo_phase = WpDone, wo_sent_bytes = 5, wo_failure = no_error\<rparr>,
     wr_operation_valid = True\<rparr>"

lemma EncodeFramed_small:
  assumes "EncodeSessionFrame serialize f = Inr [x]" "0 < m" "m \<le> kRpcV2MaxFrameBytes"
  shows "EncodeFramedSessionFrame serialize f m = Inr [0, 0, 0, 1, x]"
  using assms by (auto simp: EncodeFramedSessionFrame_def FrameByteLimit_def kRpcV2HelloMaxFrameBytes_def EncodeFramePrefix_def)

lemma sample_encoded:
  "EncodeSessionFrame (table_serialize sample_messages) (MakeHello (ascii ''a'') 5 11) = Inr [0]"
  "EncodeSessionFrame (table_serialize sample_messages) (MakeHelloAck (ascii ''a'') 5 12) = Inr [1]"
  "EncodeSessionFrame (table_serialize sample_messages) (MakeHello (ascii ''b'') 6 12) = Inr [2]"
  "EncodeSessionFrame (table_serialize sample_messages) (MakeHelloAck (ascii ''b'') 5 11) = Inr [3]"
  by code_simp+

lemma data_stream_empty [simp]: "data_stream parse m []"
  unfolding data_stream_def by (intro exI [of _ "[]"]) simp


text \<open>The dialling end does not check the echoed nonce when the peer owns the epoch. An acknowledgement
  with any nonce at all, not only the one the dialling end sent in its hello, completes the handshake;
  the accepting end compares the nonce in both of its branches.\<close>

theorem outbound_ignores_acknowledged_nonce:
  assumes "protobuf_ok serialize parse" "m \<le> kRpcV2MaxFrameBytes" "a \<noteq> b" "\<not> string_less a b"
    and "EncodeFramedSessionFrame serialize (MakeHello a pa na) m = Inr ha"
      "EncodeFramedSessionFrame serialize (MakeHelloAck a pb nb) m = Inr aa"
      "EncodeFramedSessionFrame serialize (MakeHello b pb nb) m = Inr hb"
      "EncodeFramedSessionFrame serialize (MakeHelloAck b pb any_nonce) m = Inr ab"
    and "length (hb @ ab) \<le> m" "done_report r1" "done_report r2"
  shows "hs_agreed m pb b (ha @ aa) []
      (OutboundHandshake serialize parse m a pa na (hs_init m [] [ReadSegments [hb @ ab]] [r1, r2]))"
  using assms(4,9) by (intro OutboundHandshake_agreed [OF assms(1-3,5-8) _ _ _ _ _ assms(10,11) _ data_stream_empty,
      where reads = "[[hb @ ab]]"]) (simp_all add: hs_stream_def hs_init_def hello_phase_def fd_init_def)

definition stale_messages :: "SessionFrameMsg list" where
  "stale_messages = map message_of [MakeHello (ascii ''b'') 5 11, MakeHelloAck (ascii ''b'') 6 12,
     MakeHello (ascii ''a'') 6 12, MakeHelloAck (ascii ''a'') 6 99]"

lemma stale_encoded:
  "EncodeSessionFrame (table_serialize stale_messages) (MakeHello (ascii ''b'') 5 11) = Inr [0]"
  "EncodeSessionFrame (table_serialize stale_messages) (MakeHelloAck (ascii ''b'') 6 12) = Inr [1]"
  "EncodeSessionFrame (table_serialize stale_messages) (MakeHello (ascii ''a'') 6 12) = Inr [2]"
  "EncodeSessionFrame (table_serialize stale_messages) (MakeHelloAck (ascii ''a'') 6 99) = Inr [3]"
  by code_simp+

theorem outbound_ignores_acknowledged_nonce_witness:
  "hs_agreed 16 6 (ascii ''a'') [0, 0, 0, 1, 0, 0, 0, 0, 1, 1] []
      (OutboundHandshake (table_serialize stale_messages) (table_parse stale_messages) 16 (ascii ''b'') 5 11
        (hs_init 16 [] [ReadSegments [[0, 0, 0, 1, 2, 0, 0, 0, 1, 3]]] [ok_report, ok_report]))"
proof -
  have limit: "0 < (16 :: nat)" "16 \<le> kRpcV2MaxFrameBytes" by (simp_all add: kRpcV2MaxFrameBytes_def)
  note enc = stale_encoded [THEN EncodeFramed_small [OF _ limit]]
  have codec: "protobuf_ok (table_serialize stale_messages) (table_parse stale_messages)"
    by (rule table_protobuf_ok) (simp add: stale_messages_def)
  have ids: "ascii ''b'' \<noteq> ascii ''a''" "\<not> string_less (ascii ''b'') (ascii ''a'')" by code_simp+
  show ?thesis
    using outbound_ignores_acknowledged_nonce [OF codec limit(2) ids enc, where ?r1.0 = ok_report and ?r2.0 = ok_report]
    by (simp add: ok_report_def done_report_def no_error_def ec_fails_def)
qed

end
