(* ===== verification/Lanes.thy ===== *)
theory Lanes
  imports SessionCodec NetErrors
begin

text \<open>
  The options of the RPC layer (\<^verbatim>\<open>bbt/infra/rpc/Options.hpp\<close>, \<^verbatim>\<open>Options.cc\<close>) and the outgoing lanes of a
  session (\<^verbatim>\<open>SessionCore\<close> in \<^verbatim>\<open>bbt/infra/rpc/Session.cc\<close>): three bounded queues, one per traffic class,
  filled by \<^verbatim>\<open>Enqueue\<close> and emptied by the writer through \<^verbatim>\<open>Dequeue\<close>, which serves the system lane first
  and the other two by weighted round robin. The counters keep their width of 64 bits. The lemmas show
  that each lane is a first-in first-out queue with exact accounting, whatever the mix of operations,
  and that neither data lane starves the other. \<^verbatim>\<open>out_signal\<close> only shortens the writer's poll of 25 ms
  and is not modelled.
\<close>

section \<open>Options\<close>

definition kMaxMaxSessions :: nat where "kMaxMaxSessions = 4096"
definition kMinFrameBytes :: nat where "kMinFrameBytes = 1024"
definition kMaxFrameBytes :: nat where "kMaxFrameBytes = 1024 * 1024 * 1024"
definition kMaxQueueBytes :: nat where "kMaxQueueBytes = 256 * 1024 * 1024"

record ClientOptions =
  co_local_identity :: bytes
  co_trusted_network_plaintext :: bool
  co_max_sessions :: nat
  co_max_frame_bytes :: nat
  co_system_queue_bytes :: nat
  co_service_queue_bytes :: nat
  co_actor_queue_bytes :: nat
  co_service_weight :: u32
  co_actor_weight :: u32
  co_control_data_split :: bool

definition ClientOptions_Validate :: "ClientOptions \<Rightarrow> unit result" where
  "ClientOptions_Validate opts =
     (if co_local_identity opts = [] \<or> length (co_local_identity opts) > 256 \<or> \<not> IsValidUtf8 (co_local_identity opts)
      then Inl (MakeError InvalidArgument (ascii ''local_identity empty/too long/not UTF-8''))
      else if co_max_sessions opts = 0 \<or> co_max_sessions opts > kMaxMaxSessions
      then Inl (MakeError InvalidArgument (ascii ''max_sessions out of range''))
      else if co_max_frame_bytes opts < kMinFrameBytes \<or> co_max_frame_bytes opts > kMaxFrameBytes
      then Inl (MakeError InvalidArgument (ascii ''max_frame_bytes out of range''))
      else if co_system_queue_bytes opts = 0 \<or> co_system_queue_bytes opts > kMaxQueueBytes
        \<or> co_service_queue_bytes opts = 0 \<or> co_service_queue_bytes opts > kMaxQueueBytes
        \<or> co_actor_queue_bytes opts = 0 \<or> co_actor_queue_bytes opts > kMaxQueueBytes
      then Inl (MakeError InvalidArgument (ascii ''queue bytes out of range''))
      else if co_service_weight opts = 0 \<or> co_actor_weight opts = 0
      then Inl (MakeError InvalidArgument (ascii ''lane weight must be non-zero''))
      else Inr ())"

text \<open>Deadlines are nanoseconds of the steady clock; \<^verbatim>\<open>Deadline::max()\<close> is the largest of 63 bits.\<close>

definition kDeadlineMax :: int where "kDeadlineMax = 9223372036854775807"

record SendOptions =
  so_deadline :: int
  so_require_remote_acceptance :: bool

definition SendOptions_Validate :: "int \<Rightarrow> SendOptions \<Rightarrow> unit result" where
  "SendOptions_Validate now opts =
     (if so_deadline opts = kDeadlineMax \<or> so_deadline opts \<le> now
      then Inl (MakeError InvalidArgument (ascii ''deadline must be finite and in the future''))
      else Inr ())"

section \<open>The lanes of a session\<close>

record TrafficStats =
  ts_queued :: u64
  ts_dequeued :: u64
  ts_inflight :: u64
  ts_finished :: u64
  ts_dropped :: u64
  ts_bytes_queued :: u64

definition default_TrafficStats :: TrafficStats where
  "default_TrafficStats = \<lparr>ts_queued = 0, ts_dequeued = 0, ts_inflight = 0, ts_finished = 0, ts_dropped = 0,
     ts_bytes_queued = 0\<rparr>"

definition kLaneCount :: nat where "kLaneCount = 3"

fun LaneIndex :: "TrafficClass \<Rightarrow> nat" where
  "LaneIndex TcSystem = 0"
| "LaneIndex TcService = 1"
| "LaneIndex TcActor = 2"

fun LaneCap :: "ClientOptions \<Rightarrow> TrafficClass \<Rightarrow> nat" where
  "LaneCap opts TcSystem = co_system_queue_bytes opts"
| "LaneCap opts TcService = co_service_queue_bytes opts"
| "LaneCap opts TcActor = co_actor_queue_bytes opts"

text \<open>One frame to write. The reply credential \<^verbatim>\<open>settle\<close> is a shared object, named here by its index.\<close>

record OutItem =
  oi_bytes :: "byte list"
  oi_lane :: TrafficClass
  oi_key :: bytes
  oi_deadline :: int
  oi_control_response :: bool
  oi_settle :: "nat option"

record LinkOut =
  lo_q :: "nat \<Rightarrow> OutItem list"
  lo_lanes :: "nat \<Rightarrow> TrafficStats"
  lo_credit :: "nat \<Rightarrow> u32"
  lo_sealed :: bool
  lo_dead :: bool
  lo_outstanding :: u64

definition lo_init :: LinkOut where
  "lo_init = \<lparr>lo_q = (\<lambda>_. []), lo_lanes = (\<lambda>_. default_TrafficStats), lo_credit = (\<lambda>_. 0), lo_sealed = False,
     lo_dead = False, lo_outstanding = 0\<rparr>"

definition lane_stats :: "nat \<Rightarrow> (TrafficStats \<Rightarrow> TrafficStats) \<Rightarrow> 'a LinkOut_scheme \<Rightarrow> 'a LinkOut_scheme" where
  "lane_stats lane f s = s\<lparr>lo_lanes := (lo_lanes s)(lane := f (lo_lanes s lane))\<rparr>"

definition Enqueue :: "ClientOptions \<Rightarrow> OutItem \<Rightarrow> 'a LinkOut_scheme \<Rightarrow> unit result \<times> 'a LinkOut_scheme" where
  "Enqueue opts item s =
     (let lane = LaneIndex (oi_lane item);
          stats = lo_lanes s lane;
          size = word_of_nat (length (oi_bytes item))
      in if lo_sealed s \<or> lo_dead s then (Inl (Err Closed (ascii ''session sealed'')), s)
         else if unat (ts_bytes_queued stats + size) > LaneCap opts (oi_lane item)
         then (Inl (Err Overloaded (ascii ''lane queue full'')), lane_stats lane (\<lambda>st. st\<lparr>ts_dropped := ts_dropped st + 1\<rparr>) s)
         else (Inr (),
           lane_stats lane (\<lambda>st. st\<lparr>ts_queued := ts_queued st + 1, ts_bytes_queued := ts_bytes_queued st + size\<rparr>)
             (s\<lparr>lo_q := (lo_q s)(lane := lo_q s lane @ [item]), lo_outstanding := lo_outstanding s + 1\<rparr>)))"

text \<open>The front of a lane, when there is one: the source calls it only on a lane that is not empty.\<close>

definition TakeQueuedLocked :: "nat \<Rightarrow> 'a LinkOut_scheme \<Rightarrow> (OutItem \<times> 'a LinkOut_scheme) option" where
  "TakeQueuedLocked lane s =
     (case lo_q s lane of
        [] \<Rightarrow> None
      | item # rest \<Rightarrow> Some (item,
          lane_stats lane (\<lambda>st. st\<lparr>ts_queued := ts_queued st - 1,
              ts_bytes_queued := ts_bytes_queued st - word_of_nat (length (oi_bytes item))\<rparr>)
            (s\<lparr>lo_q := (lo_q s)(lane := rest)\<rparr>)))"

definition pop_lane :: "nat \<Rightarrow> 'a LinkOut_scheme \<Rightarrow> (OutItem \<times> 'a LinkOut_scheme) option" where
  "pop_lane lane s = map_option (map_prod id (lane_stats lane (\<lambda>st. st\<lparr>ts_dequeued := ts_dequeued st + 1\<rparr>)))
     (TakeQueuedLocked lane s)"

definition reload_credit :: "ClientOptions \<Rightarrow> 'a LinkOut_scheme \<Rightarrow> 'a LinkOut_scheme" where
  "reload_credit opts s =
     (if lo_credit s 1 = 0 \<and> lo_credit s 2 = 0
      then s\<lparr>lo_credit := (lo_credit s)(1 := co_service_weight opts, 2 := co_actor_weight opts)\<rparr> else s)"

text \<open>A turn of the round robin: the lane still has credit and something to send.\<close>

definition pop_credit :: "nat \<Rightarrow> 'a LinkOut_scheme \<Rightarrow> (OutItem \<times> 'a LinkOut_scheme) option" where
  "pop_credit lane s =
     (if lo_credit s lane = 0 then None
      else map_option (map_prod id (\<lambda>t. t\<lparr>lo_credit := (lo_credit t)(lane := lo_credit t lane - 1)\<rparr>)) (pop_lane lane s))"

definition or_else :: "'b option \<Rightarrow> 'b option \<Rightarrow> 'b option" where
  "or_else a b = (case a of None \<Rightarrow> b | Some x \<Rightarrow> Some x)"

definition Dequeue :: "ClientOptions \<Rightarrow> 'a LinkOut_scheme \<Rightarrow> OutItem option \<times> 'a LinkOut_scheme" where
  "Dequeue opts s =
     (case pop_lane 0 s of
        Some (item, t) \<Rightarrow> (Some item, t)
      | None \<Rightarrow>
          (let s1 = reload_credit opts s
           in case or_else (pop_credit 1 s1) (or_else (pop_credit 2 s1) (or_else (pop_lane 1 s1) (pop_lane 2 s1))) of
                Some (item, t) \<Rightarrow> (Some item, t)
              | None \<Rightarrow> (None, s1)))"

section \<open>Each operation on its own\<close>

lemma lane_stats_select [simp]:
  "lo_q (lane_stats lane f s) = lo_q s" "lo_credit (lane_stats lane f s) = lo_credit s"
  "lo_sealed (lane_stats lane f s) = lo_sealed s" "lo_dead (lane_stats lane f s) = lo_dead s"
  "lo_outstanding (lane_stats lane f s) = lo_outstanding s"
  "lo_lanes (lane_stats lane f s) = (lo_lanes s)(lane := f (lo_lanes s lane))"
  "LinkOut.more (lane_stats lane f s) = LinkOut.more s"
  by (simp_all add: lane_stats_def)

lemma LaneIndex_less [simp]: "LaneIndex t < 3" "LaneIndex t < Suc (Suc (Suc 0))"
  by (cases t; simp)+

lemma LaneIndex_inject [simp]: "LaneIndex t = LaneIndex u \<longleftrightarrow> t = u"
  by (cases t; cases u) simp_all

lemma lane_of_index: "lane < 3 \<Longrightarrow> \<exists>t. lane = LaneIndex t"
  by (metis LaneIndex.simps less_Suc0 less_antisym numeral_2_eq_2 numeral_3_eq_3 One_nat_def)

text \<open>The parts of a session the writer touches when it takes an item: the queue and the counters of one
  lane, and the credits.\<close>

definition dequeued_from :: "nat \<Rightarrow> OutItem \<Rightarrow> 'a LinkOut_scheme \<Rightarrow> 'a LinkOut_scheme \<Rightarrow> bool" where
  "dequeued_from lane item s t \<longleftrightarrow> lane < 3
     \<and> (\<exists>rest. lo_q s lane = item # rest \<and> lo_q t = (lo_q s)(lane := rest))
     \<and> lo_lanes t = (lo_lanes s)(lane := (lo_lanes s lane)
          \<lparr>ts_queued := ts_queued (lo_lanes s lane) - 1,
           ts_bytes_queued := ts_bytes_queued (lo_lanes s lane) - word_of_nat (length (oi_bytes item)),
           ts_dequeued := ts_dequeued (lo_lanes s lane) + 1\<rparr>)
     \<and> lo_sealed t = lo_sealed s \<and> lo_dead t = lo_dead s \<and> lo_outstanding t = lo_outstanding s
     \<and> LinkOut.more t = LinkOut.more s"

lemma pop_lane_Some:
  "pop_lane lane s = Some (item, t) \<Longrightarrow> lane < 3 \<Longrightarrow> dequeued_from lane item s t \<and> lo_credit t = lo_credit s"
  by (auto simp: pop_lane_def TakeQueuedLocked_def dequeued_from_def split: list.splits)

lemma pop_lane_None: "pop_lane lane s = None \<longleftrightarrow> lo_q s lane = []"
  by (simp add: pop_lane_def TakeQueuedLocked_def split: list.splits)

lemma pop_credit_Some:
  "pop_credit lane s = Some (item, t) \<Longrightarrow> lane < 3 \<Longrightarrow> dequeued_from lane item s t \<and> lo_credit s lane \<noteq> 0
     \<and> lo_credit t = (lo_credit s)(lane := lo_credit s lane - 1)"
  by (auto simp: pop_credit_def pop_lane_def TakeQueuedLocked_def dequeued_from_def split: list.splits if_splits)

lemma pop_credit_None: "pop_credit lane s = None \<longleftrightarrow> lo_credit s lane = 0 \<or> lo_q s lane = []"
  by (simp add: pop_credit_def pop_lane_None)

lemma reload_credit_select [simp]:
  "lo_q (reload_credit opts s) = lo_q s" "lo_lanes (reload_credit opts s) = lo_lanes s"
  "lo_sealed (reload_credit opts s) = lo_sealed s" "lo_dead (reload_credit opts s) = lo_dead s"
  "lo_outstanding (reload_credit opts s) = lo_outstanding s" "LinkOut.more (reload_credit opts s) = LinkOut.more s"
  by (simp_all add: reload_credit_def)

lemma dequeued_from_reload [simp]: "dequeued_from lane item (reload_credit opts s) t \<longleftrightarrow> dequeued_from lane item s t"
  by (simp add: dequeued_from_def)

lemma Dequeue_Some:
  assumes "Dequeue opts s = (Some item, t)"
  shows "\<exists>lane. dequeued_from lane item s t"
  using assms unfolding Dequeue_def Let_def or_else_def
  by (auto split: option.splits dest!: pop_lane_Some pop_credit_Some)

lemma Dequeue_None: "Dequeue opts s = (None, t) \<Longrightarrow> (\<forall>lane < 3. lo_q s lane = []) \<and> t = reload_credit opts s"
  by (auto simp: Dequeue_def Let_def or_else_def pop_lane_None pop_credit_None less_Suc_eq numeral_3_eq_3 numeral_2_eq_2
      split: option.splits)

section \<open>Sequences of operations\<close>

datatype lane_op = LanePut OutItem | LaneGet

datatype lane_event = Accepted OutItem | Refused OutItem | Taken OutItem | Idle

fun lane_apply :: "ClientOptions \<Rightarrow> lane_op \<Rightarrow> 'a LinkOut_scheme \<Rightarrow> lane_event \<times> 'a LinkOut_scheme" where
  "lane_apply opts (LanePut item) s =
     (case Enqueue opts item s of (Inr _, t) \<Rightarrow> (Accepted item, t) | (Inl _, t) \<Rightarrow> (Refused item, t))"
| "lane_apply opts LaneGet s = (case Dequeue opts s of (Some item, t) \<Rightarrow> (Taken item, t) | (None, t) \<Rightarrow> (Idle, t))"

fun lane_run :: "ClientOptions \<Rightarrow> lane_op list \<Rightarrow> 'a LinkOut_scheme \<Rightarrow> lane_event list \<times> 'a LinkOut_scheme" where
  "lane_run opts [] s = ([], s)"
| "lane_run opts (p # ops) s =
     (let (ev, t) = lane_apply opts p s; (evs, u) = lane_run opts ops t in (ev # evs, u))"

fun accepted_in :: "TrafficClass \<Rightarrow> lane_event list \<Rightarrow> OutItem list" where
  "accepted_in t [] = []"
| "accepted_in t (Accepted item # evs) = (if oi_lane item = t then item # accepted_in t evs else accepted_in t evs)"
| "accepted_in t (ev # evs) = accepted_in t evs"

fun taken_from :: "TrafficClass \<Rightarrow> lane_event list \<Rightarrow> OutItem list" where
  "taken_from t [] = []"
| "taken_from t (Taken item # evs) = (if oi_lane item = t then item # taken_from t evs else taken_from t evs)"
| "taken_from t (ev # evs) = taken_from t evs"

definition lane_bytes :: "OutItem list \<Rightarrow> nat" where
  "lane_bytes items = sum_list (map (\<lambda>item. length (oi_bytes item)) items)"

lemma lane_bytes_simps [simp]:
  "lane_bytes [] = 0" "lane_bytes (item # items) = length (oi_bytes item) + lane_bytes items"
  "lane_bytes (xs @ ys) = lane_bytes xs + lane_bytes ys"
  by (simp_all add: lane_bytes_def)

text \<open>The invariant of the lanes: every item is in the lane of its class, the gauges are exact and the
  bytes are within the cap of the class.\<close>

definition lanes_ok :: "ClientOptions \<Rightarrow> 'a LinkOut_scheme \<Rightarrow> bool" where
  "lanes_ok opts s \<longleftrightarrow> (\<forall>t. (\<forall>item \<in> set (lo_q s (LaneIndex t)). oi_lane item = t)
     \<and> ts_queued (lo_lanes s (LaneIndex t)) = word_of_nat (length (lo_q s (LaneIndex t)))
     \<and> ts_bytes_queued (lo_lanes s (LaneIndex t)) = word_of_nat (lane_bytes (lo_q s (LaneIndex t)))
     \<and> lane_bytes (lo_q s (LaneIndex t)) \<le> LaneCap opts t)"

lemma lanes_okD:
  assumes "lanes_ok opts s"
  shows "\<And>item. item \<in> set (lo_q s (LaneIndex t)) \<Longrightarrow> oi_lane item = t"
    "ts_queued (lo_lanes s (LaneIndex t)) = word_of_nat (length (lo_q s (LaneIndex t)))"
    "ts_bytes_queued (lo_lanes s (LaneIndex t)) = word_of_nat (lane_bytes (lo_q s (LaneIndex t)))"
    "lane_bytes (lo_q s (LaneIndex t)) \<le> LaneCap opts t"
  using assms by (simp_all add: lanes_ok_def)

text \<open>An item fits an object of the address space, and so does a lane.\<close>

definition item_ok :: "OutItem \<Rightarrow> bool" where
  "item_ok item \<longleftrightarrow> length (oi_bytes item) < 2 ^ 63"

lemma LaneCap_bound: "ClientOptions_Validate opts = Inr () \<Longrightarrow> LaneCap opts t < 2 ^ 63"
  by (cases t) (auto simp: ClientOptions_Validate_def kMaxQueueBytes_def split: if_splits)

lemma bytes_sum_exact:
  assumes "ClientOptions_Validate opts = Inr ()" "lanes_ok opts s" "item_ok item"
  shows "unat (ts_bytes_queued (lo_lanes s (LaneIndex t)) + word_of_nat (length (oi_bytes item)))
    = lane_bytes (lo_q s (LaneIndex t)) + length (oi_bytes item)"
proof -
  have "lane_bytes (lo_q s (LaneIndex t)) + length (oi_bytes item) < 2 ^ 64"
    using LaneCap_bound [OF assms(1), of t] lanes_okD(4) [OF assms(2), of t] assms(3) by (simp add: item_ok_def)
  then show ?thesis
    unfolding lanes_okD(3) [OF assms(2)] by (simp add: unsigned_of_nat take_bit_nat_eq_self flip: of_nat_add)
qed

lemma Enqueue_Inr:
  assumes "Enqueue opts item s = (Inr (), t)"
  shows "lo_q t = (lo_q s)(LaneIndex (oi_lane item) := lo_q s (LaneIndex (oi_lane item)) @ [item])"
    "ts_queued (lo_lanes t lane) = ts_queued (lo_lanes s lane) + (if lane = LaneIndex (oi_lane item) then 1 else 0)"
    "ts_bytes_queued (lo_lanes t lane) = ts_bytes_queued (lo_lanes s lane)
       + (if lane = LaneIndex (oi_lane item) then word_of_nat (length (oi_bytes item)) else 0)"
    "lo_sealed t = lo_sealed s" "lo_dead t = lo_dead s" "\<not> lo_sealed s" "\<not> lo_dead s"
    "lo_outstanding t = lo_outstanding s + 1" "LinkOut.more t = LinkOut.more s" "lo_credit t = lo_credit s"
    "unat (ts_bytes_queued (lo_lanes s (LaneIndex (oi_lane item))) + word_of_nat (length (oi_bytes item)))
       \<le> LaneCap opts (oi_lane item)"
  using assms by (auto simp: Enqueue_def Let_def split: if_splits)

lemma Enqueue_Inl:
  assumes "Enqueue opts item s = (Inl e, t)"
  shows "lo_q t = lo_q s" "ts_queued (lo_lanes t lane) = ts_queued (lo_lanes s lane)"
    "ts_bytes_queued (lo_lanes t lane) = ts_bytes_queued (lo_lanes s lane)"
    "lo_sealed t = lo_sealed s" "lo_dead t = lo_dead s" "lo_outstanding t = lo_outstanding s"
    "LinkOut.more t = LinkOut.more s" "lo_credit t = lo_credit s"
    "er_code e = (if lo_sealed s \<or> lo_dead s then Closed else Overloaded)"
  using assms by (auto simp: Enqueue_def Let_def Err_def MakeError_def split: if_splits)

lemma Enqueue_lanes_ok:
  assumes "ClientOptions_Validate opts = Inr ()" "lanes_ok opts s" "item_ok item" "Enqueue opts item s = (r, t)"
  shows "lanes_ok opts t"
proof (cases r)
  case (Inl e)
  with assms(2,4) Enqueue_Inl [of opts item s e t] show ?thesis by (simp add: lanes_ok_def)
next
  case (Inr u)
  with assms(4) have put: "Enqueue opts item s = (Inr (), t)" by simp
  note ok = lanes_okD [OF assms(2)]
  show ?thesis unfolding lanes_ok_def
  proof
    fix c
    show "(\<forall>item \<in> set (lo_q t (LaneIndex c)). oi_lane item = c)
      \<and> ts_queued (lo_lanes t (LaneIndex c)) = word_of_nat (length (lo_q t (LaneIndex c)))
      \<and> ts_bytes_queued (lo_lanes t (LaneIndex c)) = word_of_nat (lane_bytes (lo_q t (LaneIndex c)))
      \<and> lane_bytes (lo_q t (LaneIndex c)) \<le> LaneCap opts c"
      using Enqueue_Inr(11) [OF put] ok bytes_sum_exact [OF assms(1-3), of "oi_lane item"]
      by (auto simp: Enqueue_Inr(1-3) [OF put])
  qed
qed

lemma dequeued_lanes_ok:
  assumes "lanes_ok opts s" "dequeued_from lane item s t"
  shows "lanes_ok opts t" "LaneIndex (oi_lane item) = lane"
proof -
  obtain c where c: "lane = LaneIndex c" using lane_of_index assms(2) by (auto simp: dequeued_from_def)
  note ok = lanes_okD [OF assms(1)]
  from assms(2) c obtain rest where q: "lo_q s (LaneIndex c) = item # rest"
    and rest: "lo_q t = (lo_q s)(LaneIndex c := rest)" by (auto simp: dequeued_from_def)
  from q have "oi_lane item = c" using ok(1) by (metis list.set_intros(1))
  then show "LaneIndex (oi_lane item) = lane" using c by simp
  have stats: "lo_lanes t = (lo_lanes s)(LaneIndex c := (lo_lanes s (LaneIndex c))
          \<lparr>ts_queued := ts_queued (lo_lanes s (LaneIndex c)) - 1,
           ts_bytes_queued := ts_bytes_queued (lo_lanes s (LaneIndex c)) - word_of_nat (length (oi_bytes item)),
           ts_dequeued := ts_dequeued (lo_lanes s (LaneIndex c)) + 1\<rparr>)"
    using assms(2) c by (simp add: dequeued_from_def)
  show "lanes_ok opts t" unfolding lanes_ok_def
  proof
    fix d
    show "(\<forall>item \<in> set (lo_q t (LaneIndex d)). oi_lane item = d)
      \<and> ts_queued (lo_lanes t (LaneIndex d)) = word_of_nat (length (lo_q t (LaneIndex d)))
      \<and> ts_bytes_queued (lo_lanes t (LaneIndex d)) = word_of_nat (lane_bytes (lo_q t (LaneIndex d)))
      \<and> lane_bytes (lo_q t (LaneIndex d)) \<le> LaneCap opts d"
      using ok(1) [of _ d] ok(2-4) [of d] q by (cases "d = c") (auto simp: rest stats)
  qed
qed

lemma lane_apply_step:
  assumes "ClientOptions_Validate opts = Inr ()" "lanes_ok opts s" "\<And>item. p = LanePut item \<Longrightarrow> item_ok item"
    and "lane_apply opts p s = (ev, t)"
  shows "lanes_ok opts t \<and> lo_q s (LaneIndex c) @ accepted_in c [ev] = taken_from c [ev] @ lo_q t (LaneIndex c)"
proof (cases p)
  case (LanePut item)
  obtain r u where put: "Enqueue opts item s = (r, u)" by fastforce
  have "lanes_ok opts u" using Enqueue_lanes_ok assms(1-3) put LanePut by blast
  with assms(4) LanePut put show ?thesis
    by (cases r) (auto simp: Enqueue_Inr(1) Enqueue_Inl(1))
next
  case LaneGet
  obtain r u where get: "Dequeue opts s = (r, u)" by fastforce
  show ?thesis
  proof (cases r)
    case None
    with get assms(2,4) LaneGet show ?thesis by (auto simp: lanes_ok_def dest!: Dequeue_None)
  next
    case (Some item)
    then obtain lane where deq: "dequeued_from lane item s u" using Dequeue_Some get by blast
    note ok = dequeued_lanes_ok [OF assms(2) deq]
    show ?thesis using ok deq get assms(4) LaneGet Some by (auto simp: dequeued_from_def)
  qed
qed

lemma lane_run_step:
  assumes "ClientOptions_Validate opts = Inr ()" "lanes_ok opts s" "\<forall>item. LanePut item \<in> set ops \<longrightarrow> item_ok item"
    and "lane_run opts ops s = (evs, t)"
  shows "lanes_ok opts t \<and> lo_q s (LaneIndex c) @ accepted_in c evs = taken_from c evs @ lo_q t (LaneIndex c)"
  using assms(2-4)
proof (induction ops arbitrary: s evs)
  case (Cons p ops)
  obtain ev u where one: "lane_apply opts p s = (ev, u)" by fastforce
  obtain evs' where rest: "lane_run opts ops u = (evs', t)" and evs: "evs = ev # evs'"
    using Cons.prems(3) one by (auto split: prod.splits)
  have step: "lanes_ok opts u \<and> lo_q s (LaneIndex c) @ accepted_in c [ev] = taken_from c [ev] @ lo_q u (LaneIndex c)"
    using lane_apply_step [OF assms(1) Cons.prems(1) _ one] Cons.prems(2) by auto
  then have later: "lanes_ok opts t \<and> lo_q u (LaneIndex c) @ accepted_in c evs' = taken_from c evs' @ lo_q t (LaneIndex c)"
    using Cons.IH [OF _ _ rest] Cons.prems(2) by simp
  have "accepted_in c evs = accepted_in c [ev] @ accepted_in c evs'" "taken_from c evs = taken_from c [ev] @ taken_from c evs'"
    unfolding evs by (cases ev; simp)+
  with step later show ?case by (metis append_assoc)
qed simp

lemma lanes_ok_init: "lanes_ok opts lo_init"
  by (simp add: lanes_ok_def lo_init_def default_TrafficStats_def)

section \<open>Fairness\<close>

text \<open>The credits of a round never exceed the weights.\<close>

definition credits_ok :: "ClientOptions \<Rightarrow> 'a LinkOut_scheme \<Rightarrow> bool" where
  "credits_ok opts s \<longleftrightarrow> lo_credit s 1 \<le> co_service_weight opts \<and> lo_credit s 2 \<le> co_actor_weight opts"

text \<open>The items of data lanes taken in a run.\<close>

definition data_taken :: "lane_event list \<Rightarrow> nat" where
  "data_taken evs = length (taken_from TcService evs) + length (taken_from TcActor evs)"

lemma Dequeue_system: "pop_lane 0 s = Some (item, t) \<Longrightarrow> Dequeue opts s = (Some item, t)"
  by (simp add: Dequeue_def)

lemma Dequeue_data:
  assumes "Dequeue opts s = (Some item, t)" "lo_q s 0 = []"
  shows "or_else (pop_credit 1 (reload_credit opts s)) (or_else (pop_credit 2 (reload_credit opts s))
     (or_else (pop_lane 1 (reload_credit opts s)) (pop_lane 2 (reload_credit opts s)))) = Some (item, t)"
  using assms pop_lane_None [of 0 s] by (auto simp: Dequeue_def Let_def split: option.splits)

lemma Dequeue_turn:
  assumes "Dequeue opts s = (Some item, t)" "c = lo_credit (reload_credit opts s)"
  shows "dequeued_from 0 item s t \<and> lo_credit t = lo_credit s
     \<or> dequeued_from 1 item s t \<and> (if c 1 = 0 then (c 2 = 0 \<or> lo_q s 2 = []) \<and> lo_credit t = c
                                       else lo_credit t = c(1 := c 1 - 1))
     \<or> dequeued_from 2 item s t \<and> (c 1 = 0 \<or> lo_q s 1 = []) \<and> lo_credit t = (if c 2 = 0 then c else c(2 := c 2 - 1))"
proof (cases "lo_q s 0 = []")
  case False
  then obtain i u where "pop_lane 0 s = Some (i, u)" using pop_lane_None [of 0 s] by fastforce
  with assms(1) pop_lane_Some [of 0 s item t] show ?thesis by (simp add: Dequeue_system)
next
  case True
  let ?r = "reload_credit opts s"
  note data = Dequeue_data [OF assms(1) True]
  consider "pop_credit 1 ?r = Some (item, t)" | "pop_credit 1 ?r = None" "pop_credit 2 ?r = Some (item, t)"
    | "pop_credit 1 ?r = None" "pop_credit 2 ?r = None" "pop_lane 1 ?r = Some (item, t)"
    | "pop_credit 1 ?r = None" "pop_credit 2 ?r = None" "pop_lane 1 ?r = None" "pop_lane 2 ?r = Some (item, t)"
    using data unfolding or_else_def by (auto split: option.splits)
  then show ?thesis
  proof cases
    case 1
    then show ?thesis using pop_credit_Some [OF 1] assms(2) by simp
  next
    case 2
    then show ?thesis using pop_credit_Some [OF 2(2)] pop_credit_None [of 1 ?r] assms(2) by simp
  next
    case 3
    then have "c 1 = 0" using pop_credit_None [of 1 ?r] pop_lane_None [of 1 ?r] assms(2) by auto
    then show ?thesis using 3 pop_lane_Some [OF 3(3)] pop_credit_None [of 2 ?r] assms(2) by simp
  next
    case 4
    then have "lo_q s 1 = []" "c 2 = 0"
      using pop_lane_None [of 1 ?r] pop_credit_None [of 2 ?r] pop_lane_None [of 2 ?r] assms(2) by auto
    then show ?thesis using 4 pop_lane_Some [OF 4(4)] assms(2) by simp
  qed
qed

lemma word_pred_le: "(x :: u32) \<noteq> 0 \<Longrightarrow> x \<le> w \<Longrightarrow> x - 1 \<le> w"
  by (simp add: word_le_nat_alt unat_minus_one)

lemma reload_credits_ok: "credits_ok opts s \<Longrightarrow> credits_ok opts (reload_credit opts s)"
  by (simp add: credits_ok_def reload_credit_def)

lemma Dequeue_credits_ok:
  assumes "Dequeue opts s = (r, t)" "credits_ok opts s"
  shows "credits_ok opts t"
proof (cases r)
  case None
  with assms show ?thesis using Dequeue_None reload_credits_ok by metis
next
  case (Some item)
  show ?thesis
    using Dequeue_turn [OF assms(1) [unfolded Some] refl] reload_credits_ok [OF assms(2)] assms(2)
    by (auto simp: credits_ok_def word_pred_le split: if_splits)
qed

text \<open>What a scheduler owes a lane: a bounded count of turns for others that only the lane's own turn
  renews. A lane with such a count is served, whatever is queued meanwhile.\<close>

locale fair_lane =
  fixes cls :: TrafficClass
    and delay :: "ClientOptions \<Rightarrow> 'a LinkOut_scheme \<Rightarrow> nat"
    and bound :: "ClientOptions \<Rightarrow> nat"
  assumes data_class: "cls \<noteq> TcSystem"
    and delay_bound: "credits_ok opts s \<Longrightarrow> delay opts s \<le> bound opts"
    and delay_credit: "lo_credit s = lo_credit t \<Longrightarrow> delay opts s = delay opts t"
    and delay_get: "\<lbrakk>ClientOptions_Validate opts = Inr (); lanes_ok opts s; credits_ok opts s;
       lo_q s (LaneIndex cls) \<noteq> []; Dequeue opts s = (Some item, t); oi_lane item \<noteq> TcSystem; oi_lane item \<noteq> cls\<rbrakk>
       \<Longrightarrow> delay opts t < delay opts s"
begin

lemma run_serves:
  assumes "ClientOptions_Validate opts = Inr ()"
  shows "\<lbrakk>lanes_ok opts s; credits_ok opts s; \<forall>item. LanePut item \<in> set ops \<longrightarrow> item_ok item;
     lane_run opts ops s = (evs, t); k < length (lo_q s (LaneIndex cls));
     k * (bound opts + 1) + delay opts s < data_taken evs\<rbrakk> \<Longrightarrow> k < length (taken_from cls evs)"
proof (induction ops arbitrary: s evs k)
  case Nil
  then show ?case by (simp add: data_taken_def)
next
  case (Cons p ops)
  obtain ev u where one: "lane_apply opts p s = (ev, u)" by fastforce
  obtain evs' where rest: "lane_run opts ops u = (evs', t)" and evs: "evs = ev # evs'"
    using Cons.prems(4) one by (auto split: prod.splits)
  have items: "\<forall>item. LanePut item \<in> set ops \<longrightarrow> item_ok item" "\<And>item. p = LanePut item \<Longrightarrow> item_ok item"
    using Cons.prems(3) by auto
  have step: "lanes_ok opts u"
    "lo_q s (LaneIndex cls) @ accepted_in cls [ev] = taken_from cls [ev] @ lo_q u (LaneIndex cls)"
    using lane_apply_step [OF assms Cons.prems(1) items(2) one] by auto
  note IH = Cons.IH [OF step(1) _ items(1) rest]
  show ?case
  proof (cases p)
    case (LanePut item)
    then have same: "lo_credit u = lo_credit s" "taken_from c [ev] = []" for c
      using one by (auto split: prod.splits sum.splits dest: Enqueue_Inr(10) Enqueue_Inl(8))
    have "k < length (lo_q u (LaneIndex cls))"
      using Cons.prems(5) arg_cong [OF step(2), of length] same(2) by simp
    moreover have "data_taken evs = data_taken evs'" "taken_from cls evs = taken_from cls evs'"
      using one LanePut unfolding evs data_taken_def by (auto split: prod.splits sum.splits)
    moreover have "credits_ok opts u" using Cons.prems(2) same(1) by (simp add: credits_ok_def)
    ultimately show ?thesis using IH [of k] Cons.prems(6) delay_credit [OF same(1), of opts] by simp
  next
    case LaneGet
    then obtain item where get: "Dequeue opts s = (Some item, u)" and ev: "ev = Taken item"
      using one Cons.prems(5) Dequeue_None [of opts s u] by (auto split: prod.splits option.splits)
    have credits: "credits_ok opts u" using Dequeue_credits_ok [OF get Cons.prems(2)] .
    show ?thesis
    proof (cases "oi_lane item = cls")
      case own: True
      have count: "data_taken evs = Suc (data_taken evs')"
        using data_class own unfolding evs ev data_taken_def by (cases cls) auto
      have queue: "lo_q s (LaneIndex cls) = item # lo_q u (LaneIndex cls)" using step(2) own ev by simp
      show ?thesis
      proof (cases k)
        case 0
        then show ?thesis using own evs ev by simp
      next
        case (Suc j)
        have "j * (bound opts + 1) + delay opts u < data_taken evs'"
          using Cons.prems(6) count Suc delay_bound [OF credits] by simp
        then show ?thesis using IH [OF credits, of j] Cons.prems(5) queue Suc own evs ev by simp
      qed
    next
      case other: False
      have queue: "k < length (lo_q u (LaneIndex cls))" using step(2) other ev Cons.prems(5) by simp
      have taken: "taken_from cls evs = taken_from cls evs'" using other unfolding evs ev by simp
      show ?thesis
      proof (cases "oi_lane item = TcSystem")
        case True
        then have "data_taken evs = data_taken evs'" unfolding evs ev data_taken_def by simp
        moreover have "lo_credit u = lo_credit s"
          using Dequeue_turn [OF get refl] dequeued_lanes_ok(2) [OF Cons.prems(1)] True by fastforce
        ultimately show ?thesis
          using IH [OF credits queue] Cons.prems(6) taken delay_credit [of u s opts] by simp
      next
        case False
        then have "data_taken evs = Suc (data_taken evs')"
          unfolding evs ev data_taken_def by (cases "oi_lane item") auto
        moreover have "delay opts u < delay opts s"
          using delay_get [OF assms Cons.prems(1,2) _ get False other] Cons.prems(5) by fastforce
        ultimately show ?thesis using IH [OF credits queue] Cons.prems(6) taken by simp
      qed
    qed
  qed
qed

end

text \<open>How many service items can still go before the next actor item, and the other way round.\<close>

definition actor_delay :: "ClientOptions \<Rightarrow> 'a LinkOut_scheme \<Rightarrow> nat" where
  "actor_delay opts s =
     (if lo_credit s 1 = 0 \<and> lo_credit s 2 = 0 then unat (co_service_weight opts)
      else unat (lo_credit s 1) + (if lo_credit s 2 = 0 then unat (co_service_weight opts) else 0))"

definition service_delay :: "ClientOptions \<Rightarrow> 'a LinkOut_scheme \<Rightarrow> nat" where
  "service_delay opts s = (if lo_credit s 1 = 0 then unat (lo_credit s 2) else 0)"

lemma weights_positive:
  "ClientOptions_Validate opts = Inr () \<Longrightarrow> co_service_weight opts \<noteq> 0 \<and> co_actor_weight opts \<noteq> 0"
  by (auto simp: ClientOptions_Validate_def split: if_splits)

lemma Dequeue_other_lane:
  assumes "lanes_ok opts s" "Dequeue opts s = (Some item, t)" "c = lo_credit (reload_credit opts s)"
  shows "oi_lane item = TcService \<Longrightarrow> lo_q s 2 \<noteq> [] \<Longrightarrow>
       if c 1 = 0 then c 2 = 0 \<and> lo_credit t = c else lo_credit t = c(1 := c 1 - 1)"
    "oi_lane item = TcActor \<Longrightarrow> lo_q s 1 \<noteq> [] \<Longrightarrow>
       c 1 = 0 \<and> lo_credit t = (if c 2 = 0 then c else c(2 := c 2 - 1))"
  using Dequeue_turn [OF assms(2,3)] dequeued_lanes_ok(2) [OF assms(1)] by (fastforce split: if_splits)+

interpretation actor: fair_lane TcActor actor_delay "\<lambda>opts. 2 * unat (co_service_weight opts)"
proof unfold_locales
  fix opts and s t :: "'a LinkOut_scheme" and item
  assume valid: "ClientOptions_Validate opts = Inr ()" and ok: "lanes_ok opts s" "credits_ok opts s"
    and ready: "lo_q s (LaneIndex TcActor) \<noteq> []" and get: "Dequeue opts s = (Some item, t)"
    and "oi_lane item \<noteq> TcSystem" "oi_lane item \<noteq> TcActor"
  then have "oi_lane item = TcService" by (cases "oi_lane item") auto
  from Dequeue_other_lane(1) [OF ok(1) get refl this] ready weights_positive [OF valid]
  show "actor_delay opts t < actor_delay opts s"
    by (auto simp: actor_delay_def reload_credit_def unat_minus_one unat_gt_0 split: if_splits)
qed (auto simp: actor_delay_def credits_ok_def word_le_nat_alt)

interpretation service: fair_lane TcService service_delay "\<lambda>opts. unat (co_actor_weight opts)"
proof unfold_locales
  fix opts and s t :: "'a LinkOut_scheme" and item
  assume valid: "ClientOptions_Validate opts = Inr ()" and ok: "lanes_ok opts s" "credits_ok opts s"
    and ready: "lo_q s (LaneIndex TcService) \<noteq> []" and get: "Dequeue opts s = (Some item, t)"
    and "oi_lane item \<noteq> TcSystem" "oi_lane item \<noteq> TcService"
  then have "oi_lane item = TcActor" by (cases "oi_lane item") auto
  from Dequeue_other_lane(2) [OF ok(1) get refl this] ready weights_positive [OF valid]
  show "service_delay opts t < service_delay opts s"
    by (auto simp: service_delay_def reload_credit_def unat_minus_one unat_gt_0 split: if_splits)
qed (auto simp: service_delay_def credits_ok_def word_le_nat_alt)

section \<open>Properties\<close>

text \<open>C25: Each lane of a session is a bounded first-in first-out queue. Whatever the mix of enqueued frames,
  refused or not, and of frames taken by the writer, what was accepted in a lane is what was taken from
  it followed by what is still queued, in order; the gauges of the lane are exact and its bytes stay
  within the configured limit.\<close>

theorem lanes_are_bounded_fifos:
  assumes "ClientOptions_Validate opts = Inr ()" "\<forall>item. LanePut item \<in> set ops \<longrightarrow> item_ok item"
    and "lane_run opts ops lo_init = (evs, s)"
  shows "accepted_in c evs = taken_from c evs @ lo_q s (LaneIndex c)
     \<and> lane_bytes (lo_q s (LaneIndex c)) \<le> LaneCap opts c
     \<and> unat (ts_bytes_queued (lo_lanes s (LaneIndex c))) = lane_bytes (lo_q s (LaneIndex c))
     \<and> ts_queued (lo_lanes s (LaneIndex c)) = word_of_nat (length (lo_q s (LaneIndex c)))"
proof -
  have run: "lanes_ok opts s" "lo_q lo_init (LaneIndex c) @ accepted_in c evs = taken_from c evs @ lo_q s (LaneIndex c)"
    using lane_run_step [OF assms(1) lanes_ok_init assms(2,3)] by auto
  have "lane_bytes (lo_q s (LaneIndex c)) < 2 ^ 64"
    using lanes_okD(4) [OF run(1), of c] LaneCap_bound [OF assms(1), of c] by simp
  then show ?thesis using run(2) lanes_okD(2-4) [OF run(1), of c]
    by (simp add: lo_init_def unsigned_of_nat take_bit_nat_eq_self)
qed

definition sample_options :: ClientOptions where
  "sample_options = \<lparr>co_local_identity = ascii ''a'', co_trusted_network_plaintext = True, co_max_sessions = 4,
     co_max_frame_bytes = 1024, co_system_queue_bytes = 8, co_service_queue_bytes = 8, co_actor_queue_bytes = 8,
     co_service_weight = 1, co_actor_weight = 1, co_control_data_split = False\<rparr>"

definition sample_item :: "TrafficClass \<Rightarrow> byte list \<Rightarrow> OutItem" where
  "sample_item c bs = \<lparr>oi_bytes = bs, oi_lane = c, oi_key = [], oi_deadline = 0, oi_control_response = False,
     oi_settle = None\<rparr>"

lemma sample_options_valid: "ClientOptions_Validate sample_options = Inr ()"
proof -
  have "IsValidUtf8 (ascii ''a'')" by code_simp
  then show ?thesis
    by (simp add: ClientOptions_Validate_def sample_options_def kMaxMaxSessions_def kMinFrameBytes_def
        kMaxFrameBytes_def kMaxQueueBytes_def ascii_def)
qed

definition sample_ops :: "lane_op list" where
  "sample_ops = [LanePut (sample_item TcService [1, 2, 3]), LanePut (sample_item TcService [4]),
     LanePut (sample_item TcService [5, 6, 7, 8, 9]), LanePut (sample_item TcActor [7]), LaneGet, LaneGet]"

theorem lanes_are_bounded_fifos_witness:
  "accepted_in TcService (fst (lane_run sample_options sample_ops lo_init)) = [sample_item TcService [1, 2, 3], sample_item TcService [4]]
     \<and> taken_from TcService (fst (lane_run sample_options sample_ops lo_init)) = [sample_item TcService [1, 2, 3]]
     \<and> lo_q (snd (lane_run sample_options sample_ops lo_init)) 1 = [sample_item TcService [4]]"
proof -
  have items: "\<forall>item. LanePut item \<in> set sample_ops \<longrightarrow> item_ok item"
    by (auto simp: sample_ops_def sample_item_def item_ok_def)
  have facts: "accepted_in TcService (fst (lane_run sample_options sample_ops lo_init))
        = [sample_item TcService [1, 2, 3], sample_item TcService [4]]"
    "taken_from TcService (fst (lane_run sample_options sample_ops lo_init)) = [sample_item TcService [1, 2, 3]]"
    by code_simp+
  show ?thesis
    using lanes_are_bounded_fifos [OF sample_options_valid items, of "fst (lane_run sample_options sample_ops lo_init)"
        "snd (lane_run sample_options sample_ops lo_init)" TcService] facts by simp
qed

text \<open>C24: Neither data lane starves. The item at position \<open>k\<close> of the actor lane has been taken once more than
  \<open>k (2w + 1) + 2w\<close> items of the data lanes have, where \<open>w\<close> is the service weight, and the item at
  position \<open>k\<close> of the service lane after \<open>k (v + 1) + v\<close>, where \<open>v\<close> is the actor weight, whatever is
  enqueued meanwhile. Frames of the system lane always go first.\<close>

theorem data_lanes_never_starve:
  assumes "ClientOptions_Validate opts = Inr ()" "lanes_ok opts s" "credits_ok opts s"
    and "\<forall>item. LanePut item \<in> set ops \<longrightarrow> item_ok item" "lane_run opts ops s = (evs, t)"
  shows "(k < length (lo_q s (LaneIndex TcActor)) \<longrightarrow>
        k * (2 * unat (co_service_weight opts) + 1) + 2 * unat (co_service_weight opts) < data_taken evs \<longrightarrow>
        k < length (taken_from TcActor evs))
     \<and> (k < length (lo_q s (LaneIndex TcService)) \<longrightarrow>
        k * (unat (co_actor_weight opts) + 1) + unat (co_actor_weight opts) < data_taken evs \<longrightarrow>
        k < length (taken_from TcService evs))
     \<and> (item # rest = lo_q s (LaneIndex TcSystem) \<longrightarrow> fst (Dequeue opts s) = Some item)"
  using actor.run_serves [OF assms(1-3) assms(4,5), of k] actor.delay_bound [OF assms(3)]
    service.run_serves [OF assms(1-3) assms(4,5), of k] service.delay_bound [OF assms(3)]
  by (auto simp: Dequeue_def pop_lane_def TakeQueuedLocked_def split: list.splits)

definition busy_link :: LinkOut where
  "busy_link = lo_init\<lparr>lo_q := (lo_q lo_init)(1 := [sample_item TcService [1], sample_item TcService [2], sample_item TcService [3]],
       2 := [sample_item TcActor [9]]),
     lo_lanes := (\<lambda>i. default_TrafficStats\<lparr>ts_queued := (if i = 1 then 3 else if i = 2 then 1 else 0),
       ts_bytes_queued := (if i = 1 then 3 else if i = 2 then 1 else 0)\<rparr>)\<rparr>"

theorem data_lanes_never_starve_witness:
  "data_taken (fst (lane_run sample_options [LaneGet, LaneGet, LaneGet] busy_link)) = 3
     \<and> 0 < length (taken_from TcActor (fst (lane_run sample_options [LaneGet, LaneGet, LaneGet] busy_link)))"
proof -
  have lanes: "lanes_ok sample_options busy_link" unfolding lanes_ok_def
  proof
    fix t
    show "(\<forall>item \<in> set (lo_q busy_link (LaneIndex t)). oi_lane item = t)
      \<and> ts_queued (lo_lanes busy_link (LaneIndex t)) = word_of_nat (length (lo_q busy_link (LaneIndex t)))
      \<and> ts_bytes_queued (lo_lanes busy_link (LaneIndex t)) = word_of_nat (lane_bytes (lo_q busy_link (LaneIndex t)))
      \<and> lane_bytes (lo_q busy_link (LaneIndex t)) \<le> LaneCap sample_options t"
      by (cases t) (simp_all add: busy_link_def lo_init_def sample_item_def default_TrafficStats_def sample_options_def)
  qed
  have credits: "credits_ok sample_options busy_link" by (simp add: credits_ok_def busy_link_def lo_init_def)
  have count: "data_taken (fst (lane_run sample_options [LaneGet, LaneGet, LaneGet] busy_link)) = 3"
    "0 < length (lo_q busy_link (LaneIndex TcActor))" "unat (co_service_weight sample_options) = 1"
    by code_simp+
  show ?thesis
    using data_lanes_never_starve [OF sample_options_valid lanes credits, of "[LaneGet, LaneGet, LaneGet]"
        "fst (lane_run sample_options [LaneGet, LaneGet, LaneGet] busy_link)"
        "snd (lane_run sample_options [LaneGet, LaneGet, LaneGet] busy_link)" 0] count by simp
qed

end
