(* ===== verification/Pending.thy ===== *)
theory Pending
  imports SessionCodec NetErrors
begin

text \<open>
  The correlation tables of a session (\<^verbatim>\<open>calls\<close> and \<^verbatim>\<open>sends\<close> of \<^verbatim>\<open>SessionCore\<close> in
  \<^verbatim>\<open>bbt/infra/rpc/Session.cc\<close>): a map from the identifier of a request to a shared object on which the
  caller waits. The object outlives its entry in the map, so the table keeps the objects in a store and
  the map holds their addresses. \<open>PendingCall\<close> and \<open>PendingSend\<close> are the same object, with and without the
  fields a response is compared with. The ghost field \<open>pd_cause\<close> records which path settled an object.
\<close>

section \<open>The table\<close>

datatype settle_cause = ByReply | ByWriter | ByKill

record ('o, 'x) Pending =
  pd_key :: bytes
  pd_expect :: 'x
  pd_outcome :: "'o result"
  pd_committed :: bool
  pd_done :: bool
  pd_cause :: "settle_cause option"

record ('o, 'x) PendingTable =
  pt_map :: "(bytes \<times> nat) list"
  pt_objs :: "('o, 'x) Pending list"

definition pt_init :: "('o, 'x) PendingTable" where
  "pt_init = \<lparr>pt_map = [], pt_objs = []\<rparr>"

definition pt_find :: "bytes \<Rightarrow> ('o, 'x) PendingTable \<Rightarrow> nat option" where
  "pt_find key t = map_of (pt_map t) key"

definition new_Pending :: "bytes \<Rightarrow> 'x \<Rightarrow> ('o, 'x) Pending" where
  "new_Pending key x = \<lparr>pd_key = key, pd_expect = x, pd_outcome = Inl (Err InternalError (ascii ''unset'')),
     pd_committed = False, pd_done = False, pd_cause = None\<rparr>"

definition pt_insert :: "bytes \<Rightarrow> 'x \<Rightarrow> ('o, 'x) PendingTable \<Rightarrow> ('o, 'x) PendingTable" where
  "pt_insert key x t = \<lparr>pt_map = (key, length (pt_objs t)) # pt_map t, pt_objs = pt_objs t @ [new_Pending key x]\<rparr>"

definition pt_erase :: "bytes \<Rightarrow> ('o, 'x) PendingTable \<Rightarrow> ('o, 'x) PendingTable" where
  "pt_erase key t = t\<lparr>pt_map := filter (\<lambda>p. fst p \<noteq> key) (pt_map t)\<rparr>"

definition pt_commit :: "bytes \<Rightarrow> ('o, 'x) PendingTable \<Rightarrow> ('o, 'x) PendingTable" where
  "pt_commit key t =
     (case pt_find key t of
        None \<Rightarrow> t
      | Some i \<Rightarrow> t\<lparr>pt_objs := (pt_objs t)[i := (pt_objs t ! i)\<lparr>pd_committed := True\<rparr>]\<rparr>)"

text \<open>Write the outcome, then \<^verbatim>\<open>done\<close>, then notify the waiter.\<close>

definition settled :: "settle_cause \<Rightarrow> 'o result \<Rightarrow> ('o, 'x) Pending \<Rightarrow> ('o, 'x) Pending" where
  "settled cause outcome p = p\<lparr>pd_outcome := outcome, pd_done := True, pd_cause := Some cause\<rparr>"

definition pt_publish :: "settle_cause \<Rightarrow> nat \<Rightarrow> 'o result \<Rightarrow> ('o, 'x) PendingTable \<Rightarrow> ('o, 'x) PendingTable" where
  "pt_publish cause i outcome t = t\<lparr>pt_objs := (pt_objs t)[i := settled cause outcome (pt_objs t ! i)]\<rparr>"

definition pt_settle :: "settle_cause \<Rightarrow> bytes \<Rightarrow> 'o result \<Rightarrow> ('o, 'x) PendingTable \<Rightarrow> ('o, 'x) PendingTable" where
  "pt_settle cause key outcome t =
     (case pt_find key t of None \<Rightarrow> t | Some i \<Rightarrow> pt_erase key (pt_publish cause i outcome t))"

text \<open>Settle everything that is in the map, each object by what is known of it.\<close>

fun settle_each :: "(bool \<Rightarrow> 'o result) \<Rightarrow> nat list \<Rightarrow> ('o, 'x) Pending list \<Rightarrow> ('o, 'x) Pending list" where
  "settle_each f [] objs = objs"
| "settle_each f (i # is) objs = settle_each f is (objs[i := settled ByKill (f (pd_committed (objs ! i))) (objs ! i)])"

definition pt_fail_all :: "(bool \<Rightarrow> 'o result) \<Rightarrow> ('o, 'x) PendingTable \<Rightarrow> ('o, 'x) PendingTable" where
  "pt_fail_all f t = \<lparr>pt_map = [], pt_objs = settle_each f (map snd (pt_map t)) (pt_objs t)\<rparr>"

section \<open>The invariant\<close>

definition entry_ids :: "('o, 'x) PendingTable \<Rightarrow> nat set" where
  "entry_ids t = snd ` set (pt_map t)"

definition entry_keys :: "('o, 'x) PendingTable \<Rightarrow> bytes set" where
  "entry_keys t = fst ` set (pt_map t)"

definition all_keys :: "('o, 'x) PendingTable \<Rightarrow> bytes set" where
  "all_keys t = pd_key ` set (pt_objs t)"

text \<open>An entry leads to an object that waits under its key; an object that is settled has no entry; no
  key is used twice.\<close>

definition pt_ok :: "('o, 'x) PendingTable \<Rightarrow> bool" where
  "pt_ok t \<longleftrightarrow> distinct (map fst (pt_map t)) \<and> distinct (map pd_key (pt_objs t))
     \<and> (\<forall>(k, i) \<in> set (pt_map t). i < length (pt_objs t) \<and> \<not> pd_done (pt_objs t ! i) \<and> pd_key (pt_objs t ! i) = k)"

lemma pt_okD:
  assumes "pt_ok t" "(k, i) \<in> set (pt_map t)"
  shows "i < length (pt_objs t)" "\<not> pd_done (pt_objs t ! i)" "pd_key (pt_objs t ! i) = k"
  using assms by (auto simp: pt_ok_def)

lemma pt_ok_find: "pt_ok t \<Longrightarrow> pt_find k t = Some i \<longleftrightarrow> (k, i) \<in> set (pt_map t)"
  by (simp add: pt_find_def pt_ok_def map_of_eq_Some_iff)

lemma pt_ok_same_key:
  assumes "pt_ok t" "i < length (pt_objs t)" "j < length (pt_objs t)" "pd_key (pt_objs t ! i) = pd_key (pt_objs t ! j)"
  shows "i = j"
  using assms nth_eq_iff_index_eq [of "map pd_key (pt_objs t)" i j] by (simp add: pt_ok_def)

lemma pt_init_ok: "pt_ok pt_init"
  by (simp add: pt_ok_def pt_init_def)

lemma pt_insert_ok: "pt_ok t \<Longrightarrow> key \<notin> all_keys t \<Longrightarrow> pt_ok (pt_insert key x t)"
proof -
  assume ok: "pt_ok t" and new: "key \<notin> all_keys t"
  have "key \<notin> fst ` set (pt_map t)" using pt_okD(1,3) [OF ok] new by (force simp: all_keys_def)
  then show ?thesis using ok new
    by (auto simp: pt_ok_def pt_insert_def new_Pending_def nth_append all_keys_def image_image)
qed

lemma pt_erase_ok: "pt_ok t \<Longrightarrow> pt_ok (pt_erase key t)"
  by (auto simp: pt_ok_def pt_erase_def distinct_map_filter)

text \<open>Changing an object other than its key and its \<^verbatim>\<open>done\<close> flag, or one without an entry, is harmless.\<close>

lemma pt_update_ok:
  assumes "pt_ok t" "pd_key p = pd_key (pt_objs t ! i)" "i \<in> entry_ids t \<Longrightarrow> \<not> pd_done p"
  shows "pt_ok (t\<lparr>pt_objs := (pt_objs t)[i := p]\<rparr>)"
proof (cases "i < length (pt_objs t)")
  case True
  have keys: "map pd_key ((pt_objs t)[i := p]) = map pd_key (pt_objs t)"
    using assms(2) True by (simp add: map_update list_update_same_conv)
  have "j < length (pt_objs t) \<and> \<not> pd_done ((pt_objs t)[i := p] ! j) \<and> pd_key ((pt_objs t)[i := p] ! j) = k"
    if "(k, j) \<in> set (pt_map t)" for k j
    using pt_okD [OF assms(1) that] assms(2,3) that by (cases "i = j") (force simp: entry_ids_def)+
  then show ?thesis using assms(1) keys by (auto simp: pt_ok_def)
next
  case False
  then have "t\<lparr>pt_objs := (pt_objs t)[i := p]\<rparr> = t" by (cases t) (simp add: list_update_beyond)
  then show ?thesis using assms(1) by simp
qed

lemma pt_commit_ok:
  assumes "pt_ok t"
  shows "pt_ok (pt_commit key t)"
proof (cases "pt_find key t")
  case (Some i)
  then show ?thesis
    using assms pt_okD(2) [OF assms, of key i] pt_ok_find [OF assms, of key i] by (simp add: pt_commit_def pt_update_ok)
qed (simp add: pt_commit_def assms)

lemma pt_publish_ok: "pt_ok t \<Longrightarrow> i \<notin> entry_ids t \<Longrightarrow> pt_ok (pt_publish cause i outcome t)"
  by (auto simp: pt_publish_def settled_def intro!: pt_update_ok)

lemma pt_find_entry: "pt_find key t = Some i \<Longrightarrow> (key, i) \<in> set (pt_map t)"
  by (simp add: pt_find_def map_of_SomeD)

lemma pt_ok_entry_unique: "pt_ok t \<Longrightarrow> (k, i) \<in> set (pt_map t) \<Longrightarrow> (k', i) \<in> set (pt_map t) \<Longrightarrow> k = k'"
  using pt_okD(3) by blast

lemma pt_settle_alt:
  "pt_settle cause key outcome t =
     (case pt_find key t of None \<Rightarrow> t | Some i \<Rightarrow> pt_publish cause i outcome (pt_erase key t))"
  by (simp add: pt_settle_def pt_erase_def pt_publish_def split: option.split)

lemma pt_erase_entry_ids: "pt_ok t \<Longrightarrow> (key, i) \<in> set (pt_map t) \<Longrightarrow> i \<notin> entry_ids (pt_erase key t)"
  using pt_ok_entry_unique by (fastforce simp: entry_ids_def pt_erase_def)

lemma pt_settle_ok: "pt_ok t \<Longrightarrow> pt_ok (pt_settle cause key outcome t)"
  by (auto simp: pt_settle_alt pt_ok_find split: option.split intro!: pt_publish_ok pt_erase_ok dest: pt_erase_entry_ids)

lemma settle_each_nth:
  "length (settle_each f is objs) = length objs"
  "distinct is \<Longrightarrow> j < length objs \<Longrightarrow> settle_each f is objs ! j
     = (if j \<in> set is then settled ByKill (f (pd_committed (objs ! j))) (objs ! j) else objs ! j)"
proof (induction "is" arbitrary: objs)
  case (Cons i "is")
  { case 1 show ?case using Cons.IH(1) by simp next
    case 2 then show ?case using Cons.IH(2) [of "objs[i := settled ByKill (f (pd_committed (objs ! i))) (objs ! i)]"]
      by (cases "j = i") auto }
qed simp_all

lemma pt_ok_distinct_ids: "pt_ok t \<Longrightarrow> distinct (map snd (pt_map t))"
proof -
  assume ok: "pt_ok t"
  then have "distinct (pt_map t)" by (simp add: pt_ok_def distinct_map)
  moreover have "inj_on snd (set (pt_map t))" using pt_ok_entry_unique [OF ok] by (auto intro!: inj_onI)
  ultimately show ?thesis by (simp add: distinct_map)
qed

lemma pt_fail_all_objs:
  "length (pt_objs (pt_fail_all f t)) = length (pt_objs t)"
  "pt_ok t \<Longrightarrow> i < length (pt_objs t) \<Longrightarrow> pt_objs (pt_fail_all f t) ! i
     = (if i \<in> entry_ids t then settled ByKill (f (pd_committed (pt_objs t ! i))) (pt_objs t ! i) else pt_objs t ! i)"
  using settle_each_nth(2) [OF pt_ok_distinct_ids, of t i "pt_objs t" f]
  by (simp_all add: pt_fail_all_def settle_each_nth(1) entry_ids_def)

lemma pt_fail_all_ok: "pt_ok t \<Longrightarrow> pt_ok (pt_fail_all f t)"
proof -
  assume ok: "pt_ok t"
  have "map pd_key (pt_objs (pt_fail_all f t)) = map pd_key (pt_objs t)"
    using pt_fail_all_objs(1) [of f t] pt_fail_all_objs(2) [OF ok, of _ f] by (intro nth_equalityI) (auto simp: settled_def)
  then show ?thesis using ok by (simp add: pt_ok_def pt_fail_all_def)
qed

section \<open>What never changes\<close>

text \<open>Along every operation the store only grows, an object keeps its key and what it expects, a settled
  object keeps its outcome, and a commitment is not taken back.\<close>

definition pt_extends :: "('o, 'x) PendingTable \<Rightarrow> ('o, 'x) PendingTable \<Rightarrow> bool" where
  "pt_extends t u \<longleftrightarrow> length (pt_objs t) \<le> length (pt_objs u)
     \<and> (\<forall>i < length (pt_objs t). pd_key (pt_objs u ! i) = pd_key (pt_objs t ! i)
          \<and> pd_expect (pt_objs u ! i) = pd_expect (pt_objs t ! i)
          \<and> (pd_committed (pt_objs t ! i) \<longrightarrow> pd_committed (pt_objs u ! i))
          \<and> (pd_done (pt_objs t ! i) \<longrightarrow> pt_objs u ! i = pt_objs t ! i))"

lemma pt_extends_refl [simp]: "pt_extends t t"
  by (simp add: pt_extends_def)

lemma pt_extends_trans:
  assumes "pt_extends t u" "pt_extends u v"
  shows "pt_extends t v"
proof -
  have "i < length (pt_objs u)" if "i < length (pt_objs t)" for i using that assms(1) by (simp add: pt_extends_def)
  then show ?thesis using assms unfolding pt_extends_def by fastforce
qed

lemma pt_extends_insert: "pt_extends t (pt_insert key x t)"
  by (simp add: pt_extends_def pt_insert_def nth_append)

lemma pt_extends_erase [simp]: "pt_extends t (pt_erase key t)" "pt_objs (pt_erase key t) = pt_objs t"
  by (simp_all add: pt_extends_def pt_erase_def)

lemma list_update_nth: "j < length xs \<Longrightarrow> xs[i := p] ! j = (if i = j then p else xs ! j)"
  by (cases "i = j") simp_all

lemma pt_extends_update:
  assumes "pd_key p = pd_key (pt_objs t ! i)" "pd_expect p = pd_expect (pt_objs t ! i)"
    "pd_committed (pt_objs t ! i) \<longrightarrow> pd_committed p" "\<not> pd_done (pt_objs t ! i)"
  shows "pt_extends t (t\<lparr>pt_objs := (pt_objs t)[i := p]\<rparr>)"
  using assms by (auto simp: pt_extends_def list_update_nth)

lemma pt_extends_publish: "\<not> pd_done (pt_objs t ! i) \<Longrightarrow> pt_extends t (pt_publish cause i outcome t)"
  by (auto simp: pt_publish_def settled_def intro!: pt_extends_update)

lemma pt_extends_commit: "pt_ok t \<Longrightarrow> pt_extends t (pt_commit key t)"
  by (auto simp: pt_commit_def split: option.split intro!: pt_extends_update dest: pt_okD(2) pt_find_entry)

lemma pt_extends_settle: "pt_ok t \<Longrightarrow> pt_extends t (pt_settle cause key outcome t)"
  by (auto simp: pt_settle_def split: option.split dest!: pt_find_entry
      intro!: pt_extends_trans [OF pt_extends_publish pt_extends_erase(1)] dest: pt_okD(2))

lemma pt_extends_fail_all: "pt_ok t \<Longrightarrow> pt_extends t (pt_fail_all f t)"
  by (auto simp: pt_extends_def pt_fail_all_objs settled_def entry_ids_def dest: pt_okD(2))

section \<open>Keys and entries after each operation\<close>

lemma pt_entries [simp]:
  "entry_ids (pt_insert key x t) = insert (length (pt_objs t)) (entry_ids t)"
  "entry_keys (pt_insert key x t) = insert key (entry_keys t)"
  "entry_ids (pt_commit key t) = entry_ids t" "entry_keys (pt_commit key t) = entry_keys t"
  "entry_ids (pt_publish cause i outcome t) = entry_ids t" "entry_keys (pt_publish cause i outcome t) = entry_keys t"
  "entry_keys (pt_erase key t) = entry_keys t - {key}" "entry_keys (pt_settle cause key outcome t) = entry_keys t - {key}"
  "entry_ids (pt_fail_all f t) = {}" "entry_keys (pt_fail_all f t) = {}"
  "pt_map (pt_commit key t) = pt_map t" "pt_map (pt_publish cause i outcome t) = pt_map t"
  by (auto simp: entry_ids_def entry_keys_def pt_insert_def pt_commit_def pt_publish_def pt_erase_def pt_settle_def
      pt_fail_all_def pt_find_def map_of_eq_None_iff rev_image_eqI split: option.split)

lemma pt_erase_ids: "pt_ok t \<Longrightarrow> entry_ids (pt_erase key t) = entry_ids t - {i. pt_find key t = Some i}"
  by (auto simp: pt_ok_find entry_ids_def pt_erase_def rev_image_eqI dest: pt_ok_entry_unique)

lemma pt_settle_ids: "pt_ok t \<Longrightarrow> entry_ids (pt_settle cause key outcome t) = entry_ids t - {i. pt_find key t = Some i}"
  using pt_erase_ids [of t key]
  by (auto simp: pt_settle_alt entry_ids_def pt_find_def split: option.split)

lemma pt_lengths [simp]:
  "length (pt_objs (pt_insert key x t)) = Suc (length (pt_objs t))" "length (pt_objs (pt_commit key t)) = length (pt_objs t)"
  "length (pt_objs (pt_publish cause i outcome t)) = length (pt_objs t)"
  "length (pt_objs (pt_settle cause key outcome t)) = length (pt_objs t)"
  "length (pt_objs (pt_fail_all f t)) = length (pt_objs t)"
  by (simp_all add: pt_insert_def pt_commit_def pt_publish_def pt_settle_def pt_erase_def pt_fail_all_objs split: option.split)

lemma all_keys_ops [simp]:
  "all_keys (pt_insert key x t) = insert key (all_keys t)" "all_keys (pt_erase key t) = all_keys t"
  by (simp_all add: all_keys_def pt_insert_def pt_erase_def new_Pending_def)

end
