(* ===== verification/SessionLink.thy ===== *)
theory SessionLink
  imports Lanes Pending FrameDecoder
begin

text \<open>
  One live link of a session (\<^verbatim>\<open>SessionCore\<close> in \<^verbatim>\<open>bbt/infra/rpc/Session.cc\<close>) with everything that runs on it
  at the same time: the callers of \<^verbatim>\<open>Call\<close> and \<^verbatim>\<open>Send\<close>, the writer, the reader's dispatch, replies posted by
  the server side, and \<^verbatim>\<open>Kill\<close>, which any of them may start. Each critical section of \<^verbatim>\<open>out_mu\<close> or
  \<^verbatim>\<open>pending_mu\<close> is one step; the program counters name the points in between. The shared objects
  (\<^verbatim>\<open>PendingCall\<close>, \<^verbatim>\<open>PendingSend\<close>, \<^verbatim>\<open>Settle\<close>) are addressed by index. The connection is represented by two
  facts: whether its close was requested, after which it accepts no write (\<^verbatim>\<open>ConnectionState::AcceptWrite\<close>),
  and the ghost list \<open>sc_wire\<close> of the keys of the frames it accepted. Waiters are represented by the
  \<^verbatim>\<open>done\<close> flag they are woken for.
\<close>

section \<open>State\<close>

record CallShape =
  ex_service :: bytes
  ex_method :: bytes
  ex_request_schema :: bytes
  ex_response_schema :: bytes

datatype WaitStatus = WsCompleted | WsTimedOut | WsCancelled | WsInvalidContext | WsAlreadyWaiting | WsRuntimeUnavailable

text \<open>A caller has registered its object and holds the item to enqueue; it waits; it has returned; or it
  starts over on another session because this one was found dead.\<close>

datatype 'o caller_pc = CpRegistered OutItem | CpWaiting | CpReturned "'o result" | CpRetry

datatype writer_pc = WIdle | WHolding OutItem | WWriting OutItem | WAccepted OutItem | WSettling OutItem "Error option"
  | WNoting OutItem "Error option" | WKilling | WExited

datatype reader_pc = RIdle | RCall nat "Response result" | RSend nat "unit result"

datatype kill_pc = KAlive | KDead error_code | KDrained error_code | KClosed | KFailed | KDone

record SessionCore = LinkOut +
  sc_epoch :: u64
  sc_peer_identity :: bytes
  sc_responsibilities :: int
  sc_settles :: "unit result option list"
  sc_calls :: "(Response, CallShape) PendingTable"
  sc_sends :: "(unit, unit) PendingTable"
  sc_seq_counter :: u64
  sc_close_requested :: bool
  sc_writer :: writer_pc
  sc_reader :: reader_pc
  sc_killer :: kill_pc
  sc_call_pcs :: "Response caller_pc list"
  sc_send_pcs :: "unit caller_pc list"
  sc_wire :: "bytes list"

text \<open>A link just installed: its reader and writer are running and it has a connection, each one a
  responsibility.\<close>

definition sc_init :: "u64 \<Rightarrow> bytes \<Rightarrow> SessionCore" where
  "sc_init epoch peer = LinkOut.extend lo_init \<lparr>sc_epoch = epoch, sc_peer_identity = peer, sc_responsibilities = 3,
     sc_settles = [], sc_calls = pt_init, sc_sends = pt_init, sc_seq_counter = 1, sc_close_requested = False,
     sc_writer = WIdle, sc_reader = RIdle, sc_killer = KAlive, sc_call_pcs = [], sc_send_pcs = [], sc_wire = []\<rparr>"

section \<open>Settling what was written\<close>

definition NoteWriteSettled :: "OutItem \<Rightarrow> unit result \<Rightarrow> SessionCore \<Rightarrow> SessionCore" where
  "NoteWriteSettled item outcome s =
     (let s1 = (case oi_settle item of
                  None \<Rightarrow> s
                | Some i \<Rightarrow> (case sc_settles s ! i of
                    Some _ \<Rightarrow> s
                  | None \<Rightarrow> s\<lparr>sc_settles := (sc_settles s)[i := Some outcome]\<rparr>))
      in s1\<lparr>lo_outstanding := lo_outstanding s1 - 1\<rparr>)"

definition FailItemPending :: "OutItem \<Rightarrow> Error \<Rightarrow> SessionCore \<Rightarrow> SessionCore" where
  "FailItemPending item e s =
     (if oi_key item = [] then s
      else case pt_find (oi_key item) (sc_calls s) of
        Some _ \<Rightarrow> s\<lparr>sc_calls := pt_settle ByWriter (oi_key item) (Inl e) (sc_calls s)\<rparr>
      | None \<Rightarrow> s\<lparr>sc_sends := pt_settle ByWriter (oi_key item) (Inl e) (sc_sends s)\<rparr>)"

definition SettledPendingError :: "bool \<Rightarrow> bool \<Rightarrow> Error \<Rightarrow> Error" where
  "SettledPendingError committed_only committed e =
     (if committed_only \<and> \<not> committed then Err Closed (ascii ''session closed before commit'')
      else if \<not> committed_only then e
      else ErrPhase OutcomeUnknown (ascii ''session lost after commit'') RequestCommitted)"

definition FailPending :: "Error \<Rightarrow> bool \<Rightarrow> SessionCore \<Rightarrow> SessionCore" where
  "FailPending e committed_only s =
     s\<lparr>sc_calls := pt_fail_all (\<lambda>committed. Inl (SettledPendingError committed_only committed e)) (sc_calls s),
       sc_sends := pt_fail_all (\<lambda>committed. Inl (SettledPendingError committed_only committed e)) (sc_sends s)\<rparr>"

section \<open>Killing a link\<close>

definition ExitDone :: "SessionCore \<Rightarrow> bool \<times> SessionCore" where
  "ExitDone s = (sc_responsibilities s = 1, s\<lparr>sc_responsibilities := sc_responsibilities s - 1\<rparr>)"

lemma TakeQueuedLocked_shrinks: "TakeQueuedLocked lane s = Some (item, t) \<Longrightarrow> length (lo_q t lane) < length (lo_q s lane)"
  by (auto simp: TakeQueuedLocked_def split: list.splits)

lemma NoteWriteSettled_lanes [simp]:
  "lo_q (NoteWriteSettled item r s) = lo_q s" "lo_lanes (NoteWriteSettled item r s) = lo_lanes s"
  "lo_credit (NoteWriteSettled item r s) = lo_credit s" "lo_sealed (NoteWriteSettled item r s) = lo_sealed s"
  "lo_dead (NoteWriteSettled item r s) = lo_dead s"
  "lo_outstanding (NoteWriteSettled item r s) = lo_outstanding s - 1"
  by (auto simp: NoteWriteSettled_def Let_def split: option.split)

text \<open>Drop what is queued in a lane, publishing a closed outcome for each item.\<close>

function drain_lane :: "nat \<Rightarrow> SessionCore \<Rightarrow> SessionCore" where
  "drain_lane lane s =
     (case TakeQueuedLocked lane s of
        None \<Rightarrow> s
      | Some (item, t) \<Rightarrow> drain_lane lane
          (NoteWriteSettled item (Inl (Err Closed (ascii ''session killed before reply write'')))
            (lane_stats lane (\<lambda>st. st\<lparr>ts_dropped := ts_dropped st + 1\<rparr>) t)))"
  by pat_completeness auto

termination
  by (relation "measure (\<lambda>(lane, s). length (lo_q s lane))") (auto dest: TakeQueuedLocked_shrinks)

declare drain_lane.simps [simp del]

definition kill_begin :: "error_code \<Rightarrow> SessionCore \<Rightarrow> SessionCore" where
  "kill_begin reason s = (if lo_dead s then s else s\<lparr>lo_dead := True, sc_killer := KDead reason\<rparr>)"

definition kill_drain :: "error_code \<Rightarrow> SessionCore \<Rightarrow> SessionCore" where
  "kill_drain reason s = (drain_lane 2 (drain_lane 1 (drain_lane 0 (s\<lparr>lo_sealed := True\<rparr>))))\<lparr>sc_killer := KDrained reason\<rparr>"

definition kill_close :: "SessionCore \<Rightarrow> SessionCore" where
  "kill_close s = s\<lparr>sc_close_requested := True, sc_killer := KClosed\<rparr>"

definition kill_fail :: "SessionCore \<Rightarrow> SessionCore" where
  "kill_fail s = (FailPending default_Error True s)\<lparr>sc_killer := KFailed\<rparr>"

definition kill_exit :: "SessionCore \<Rightarrow> SessionCore" where
  "kill_exit s = (snd (ExitDone s))\<lparr>sc_killer := KDone\<rparr>"

text \<open>The whole of \<^verbatim>\<open>Kill\<close>, run without interruption.\<close>

definition Kill :: "error_code \<Rightarrow> SessionCore \<Rightarrow> SessionCore" where
  "Kill reason s = (if lo_dead s then s else kill_exit (kill_fail (kill_close (kill_drain reason (kill_begin reason s)))))"

section \<open>The writer\<close>

definition writer_take :: "ClientOptions \<Rightarrow> SessionCore \<Rightarrow> SessionCore" where
  "writer_take opts s =
     (case Dequeue opts s of
        (Some item, t) \<Rightarrow> t\<lparr>sc_writer := WHolding item\<rparr>
      | (None, t) \<Rightarrow> (if lo_dead t then t\<lparr>sc_writer := WExited\<rparr> else t))"

definition mark_committed :: "bytes \<Rightarrow> SessionCore \<Rightarrow> SessionCore" where
  "mark_committed key s =
     (if key = [] then s
      else case pt_find key (sc_calls s) of
        Some _ \<Rightarrow> s\<lparr>sc_calls := pt_commit key (sc_calls s)\<rparr>
      | None \<Rightarrow> s\<lparr>sc_sends := pt_commit key (sc_sends s)\<rparr>)"

text \<open>The checkpoint before the write, with its result, an exception caught before the commitment being
  an internal error.\<close>

definition writer_gate :: "unit result \<Rightarrow> OutItem \<Rightarrow> SessionCore \<Rightarrow> SessionCore" where
  "writer_gate gate item s =
     (case gate of
        Inl e \<Rightarrow> s\<lparr>sc_writer := WSettling item (Some e)\<rparr>
      | Inr _ \<Rightarrow> (mark_committed (oi_key item) s)\<lparr>sc_writer := WWriting item\<rparr>)"

definition writer_accept :: "OutItem \<Rightarrow> SessionCore \<Rightarrow> SessionCore" where
  "writer_accept item s = s\<lparr>sc_wire := sc_wire s @ [oi_key item], sc_writer := WAccepted item\<rparr>"

datatype write_result = WriteReported WriteReport | WriteThrew

definition write_failure :: "write_result \<Rightarrow> Error option" where
  "write_failure r =
     (case r of
        WriteReported report \<Rightarrow> (case TcpSettleWrite report (ascii ''frame write failed'') of Inl e \<Rightarrow> Some e | Inr _ \<Rightarrow> None)
      | WriteThrew \<Rightarrow> Some (ErrPhase OutcomeUnknown (ascii ''write path threw after commit'') RequestCommitted))"

definition writer_report :: "write_result \<Rightarrow> OutItem \<Rightarrow> SessionCore \<Rightarrow> SessionCore" where
  "writer_report r item s = s\<lparr>sc_writer := WSettling item (write_failure r)\<rparr>"

definition writer_settle :: "OutItem \<Rightarrow> Error option \<Rightarrow> SessionCore \<Rightarrow> SessionCore" where
  "writer_settle item failure s =
     (case failure of None \<Rightarrow> s | Some e \<Rightarrow> FailItemPending item e s)\<lparr>sc_writer := WNoting item failure\<rparr>"

definition writer_note :: "OutItem \<Rightarrow> Error option \<Rightarrow> SessionCore \<Rightarrow> SessionCore" where
  "writer_note item failure s =
     (NoteWriteSettled item (case failure of None \<Rightarrow> Inr () | Some e \<Rightarrow> Inl e) s)
       \<lparr>sc_writer := (if failure = None then WIdle else WKilling)\<rparr>"

definition writer_kill :: "SessionCore \<Rightarrow> SessionCore" where
  "writer_kill s = (kill_begin (make_errc io_error) s)\<lparr>sc_writer := WExited\<rparr>"

section \<open>Frames from the peer\<close>

definition post_frame :: "(SessionFrameMsg \<Rightarrow> byte list option) \<Rightarrow> ClientOptions \<Rightarrow> int \<Rightarrow> SessionFrame \<Rightarrow> OutItem option" where
  "post_frame serialize opts deadline f =
     (case EncodeFramedSessionFrame serialize f (co_max_frame_bytes opts) of
        Inl _ \<Rightarrow> None
      | Inr bs \<Rightarrow> Some \<lparr>oi_bytes = bs, oi_lane = sf_traffic f, oi_key = [], oi_deadline = deadline,
          oi_control_response = True, oi_settle = None\<rparr>)"

definition session_error_frame :: "u64 \<Rightarrow> Error \<Rightarrow> SessionFrame" where
  "session_error_frame epoch e = default_SessionFrame\<lparr>sf_kind := FkSessionError, sf_traffic := TcSystem,
     sf_session_epoch := epoch, sf_has_outcome := True, sf_success := False, sf_error := e\<rparr>"

definition PostSessionError ::
  "(SessionFrameMsg \<Rightarrow> byte list option) \<Rightarrow> ClientOptions \<Rightarrow> int \<Rightarrow> Error \<Rightarrow> SessionCore \<Rightarrow> SessionCore" where
  "PostSessionError serialize opts now e s =
     (case post_frame serialize opts (now + 5000000000) (session_error_frame (sc_epoch s) e) of
        None \<Rightarrow> s
      | Some item \<Rightarrow> snd (Enqueue opts item s))"

text \<open>The outcome of a call whose response has arrived.\<close>

definition response_outcome :: "SessionFrame \<Rightarrow> CallShape \<Rightarrow> Response result" where
  "response_outcome f x =
     (if sf_has_outcome f \<and> sf_success f
      then (case ResponseFromSessionFrame f of
              Inl _ \<Rightarrow> Inl (ErrPhase ProtocolError (ascii ''response decode failed'') ReplyTerminal)
            | Inr r \<Rightarrow>
                (if sf_service f = ex_service x \<and> sf_method f = ex_method x \<and> sf_request_schema f = ex_request_schema x
                    \<and> sf_response_schema f = ex_response_schema x
                 then Inr r
                 else Inl (ErrPhase ProtocolError (ascii ''response correlation mismatch'') ReplyTerminal)))
      else if sf_has_outcome f
      then Inl (if er_request_phase (sf_error f) = None then (sf_error f)\<lparr>er_request_phase := Some ReplyTerminal\<rparr>
                else sf_error f)
      else Inl (ErrPhase ProtocolError (ascii ''response missing outcome'') ReplyTerminal))"

definition accepted_outcome :: "SessionFrame \<Rightarrow> unit result" where
  "accepted_outcome f =
     (if sf_has_outcome f \<and> sf_success f then Inr ()
      else if sf_has_outcome f then Inl (sf_error f)
      else Inl (ErrPhase ProtocolError (ascii ''send-accepted missing outcome'') ReplyTerminal))"

text \<open>What a frame leads to besides the change of the link: nothing more, a request for the admission of
  the server side, or the start of \<^verbatim>\<open>Kill\<close>.\<close>

datatype dispatch = DispatchDone | DispatchAdmit Request | DispatchKill error_code

text \<open>The deadline of a request from the peer: its budget, capped by the handler budget of the server
  this link belongs to, if any.\<close>

definition inbound_context :: "int \<Rightarrow> int option \<Rightarrow> SessionFrame \<Rightarrow> SessionCore \<Rightarrow> RequestContext" where
  "inbound_context now incoming_timeout f s =
     (let remote = now + int (unat (sf_remaining_budget_ms f)) * 1000000;
          local = (case incoming_timeout of Some d \<Rightarrow> now + d | None \<Rightarrow> kDeadlineMax)
      in \<lparr>rc_deadline = min remote local, rc_peer_identity = sc_peer_identity s, rc_peer_principal = []\<rparr>)"

definition no_request_context :: RequestContext where
  "no_request_context = \<lparr>rc_deadline = kDeadlineMax, rc_peer_identity = [], rc_peer_principal = []\<rparr>"

definition DispatchInbound ::
  "(SessionFrameMsg \<Rightarrow> byte list option) \<Rightarrow> ClientOptions \<Rightarrow> int \<Rightarrow> int option \<Rightarrow> SessionFrame \<Rightarrow> SessionCore
     \<Rightarrow> dispatch \<times> SessionCore" where
  "DispatchInbound serialize opts now incoming_timeout f s =
     (if sf_session_epoch f \<noteq> 0 \<and> sf_session_epoch f \<noteq> sc_epoch s
      then (DispatchDone, lane_stats (LaneIndex (sf_traffic f)) (\<lambda>st. st\<lparr>ts_dropped := ts_dropped st + 1\<rparr>) s)
      else case sf_kind f of
        FkResponse \<Rightarrow>
          (case pt_find (sf_request_id f) (sc_calls s) of
             None \<Rightarrow> (DispatchDone, s)
           | Some i \<Rightarrow> (DispatchDone, s\<lparr>sc_calls := pt_erase (sf_request_id f) (sc_calls s),
               sc_reader := RCall i (response_outcome f (pd_expect (pt_objs (sc_calls s) ! i)))\<rparr>))
      | FkSendAccepted \<Rightarrow>
          (case pt_find (sf_message_id f) (sc_sends s) of
             None \<Rightarrow> (DispatchDone, s)
           | Some i \<Rightarrow> (DispatchDone, s\<lparr>sc_sends := pt_erase (sf_message_id f) (sc_sends s),
               sc_reader := RSend i (accepted_outcome f)\<rparr>))
      | FkSessionError \<Rightarrow> (DispatchKill (make_errc connection_reset), s)
      | FkClose \<Rightarrow> (DispatchKill no_error, s)
      | k \<Rightarrow>
          (if k = FkCall \<or> k = FkSend
           then case RequestFromSessionFrame f no_request_context of
                  Inl e \<Rightarrow> (DispatchDone, PostSessionError serialize opts now e s)
                | Inr r \<Rightarrow> (DispatchAdmit (r\<lparr>rq_context := inbound_context now incoming_timeout f s\<rparr>), s)
           else (DispatchKill (make_errc protocol_error),
             PostSessionError serialize opts now
               (Err ProtocolError (ascii ''unexpected frame kind on live session'')) s)))"

definition reader_publish :: "SessionCore \<Rightarrow> SessionCore" where
  "reader_publish s =
     (case sc_reader s of
        RIdle \<Rightarrow> s
      | RCall i r \<Rightarrow> s\<lparr>sc_calls := pt_publish ByReply i r (sc_calls s), sc_reader := RIdle\<rparr>
      | RSend i r \<Rightarrow> s\<lparr>sc_sends := pt_publish ByReply i r (sc_sends s), sc_reader := RIdle\<rparr>)"

section \<open>Calls and sends\<close>

fun dec_string :: "nat \<Rightarrow> bytes" where
  "dec_string n = (if n < 10 then [48 + word_of_nat n] else dec_string (n div 10) @ [48 + word_of_nat (n mod 10)])"

declare dec_string.simps [simp del]

definition fresh_id :: "string \<Rightarrow> bytes \<Rightarrow> SessionCore \<Rightarrow> bytes \<times> SessionCore" where
  "fresh_id letter given s =
     (if given = [] then (ascii letter @ dec_string (unat (sc_seq_counter s)), s\<lparr>sc_seq_counter := sc_seq_counter s + 1\<rparr>)
      else (given, s))"

text \<open>The frame of a request: an identifier, a budget, the field matrix and the size limit.\<close>

definition request_item ::
  "(SessionFrameMsg \<Rightarrow> byte list option) \<Rightarrow> ClientOptions \<Rightarrow> int \<Rightarrow> int \<Rightarrow> FrameKind \<Rightarrow> bool option \<Rightarrow> u64
     \<Rightarrow> Request \<Rightarrow> OutItem result" where
  "request_item serialize opts now deadline kind acceptance epoch r =
     (case Budget now deadline of
        Inl e \<Rightarrow> Inl e
      | Inr budget \<Rightarrow>
          (case ToSessionFrame r kind epoch budget acceptance of
             Inl e \<Rightarrow> Inl e
           | Inr f \<Rightarrow>
               (case EncodeFramedSessionFrame serialize f (co_max_frame_bytes opts) of
                  Inl e \<Rightarrow> Inl e
                | Inr bs \<Rightarrow> Inr \<lparr>oi_bytes = bs, oi_lane = rq_traffic r,
                    oi_key = (if kind = FkCall then rq_request_id r else rq_message_id r), oi_deadline = deadline,
                    oi_control_response = False, oi_settle = None\<rparr>)))"

definition PrepareCall ::
  "(SessionFrameMsg \<Rightarrow> byte list option) \<Rightarrow> ClientOptions \<Rightarrow> int \<Rightarrow> int \<Rightarrow> Request \<Rightarrow> SessionCore
     \<Rightarrow> (CallShape \<times> OutItem) result \<times> SessionCore" where
  "PrepareCall serialize opts now deadline r s =
     (let (rid, s1) = fresh_id ''r'' (rq_request_id r) s; r1 = r\<lparr>rq_request_id := rid\<rparr>
      in case request_item serialize opts now deadline FkCall None (sc_epoch s) r1 of
           Inl e \<Rightarrow> (Inl e, s1)
         | Inr item \<Rightarrow> (Inr (\<lparr>ex_service = rq_service r, ex_method = rq_method r,
             ex_request_schema = rq_request_schema r, ex_response_schema = rq_response_schema r\<rparr>, item), s1))"

definition PrepareSend ::
  "(SessionFrameMsg \<Rightarrow> byte list option) \<Rightarrow> ClientOptions \<Rightarrow> int \<Rightarrow> SendOptions \<Rightarrow> Request \<Rightarrow> SessionCore
     \<Rightarrow> OutItem result \<times> SessionCore" where
  "PrepareSend serialize opts now send r s =
     (let (mid, s1) = fresh_id ''m'' (rq_message_id r) s; r1 = r\<lparr>rq_message_id := mid\<rparr>
      in (request_item serialize opts now (so_deadline send) FkSend
            (if so_require_remote_acceptance send then Some True else None) (sc_epoch s) r1, s1))"

definition note_inflight :: "TrafficClass \<Rightarrow> (TrafficStats \<Rightarrow> TrafficStats) \<Rightarrow> SessionCore \<Rightarrow> SessionCore" where
  "note_inflight c f s = lane_stats (LaneIndex c) f s"

text \<open>Registration under \<^verbatim>\<open>pending_mu\<close>: a dead link is left for another attempt, a duplicate identifier is
  refused.\<close>

datatype registration = RegRetry | RegDuplicate Error | RegDone

definition CallRegister :: "CallShape \<Rightarrow> OutItem \<Rightarrow> SessionCore \<Rightarrow> registration \<times> SessionCore" where
  "CallRegister x item s =
     (if lo_dead s then (RegRetry, s)
      else if pt_find (oi_key item) (sc_calls s) \<noteq> None
      then (RegDuplicate (Err InvalidArgument (ascii ''duplicate request_id on session'')), s)
      else (RegDone, s\<lparr>sc_calls := pt_insert (oi_key item) x (sc_calls s), sc_call_pcs := sc_call_pcs s @ [CpRegistered item]\<rparr>))"

definition SendRegister :: "OutItem \<Rightarrow> SessionCore \<Rightarrow> registration \<times> SessionCore" where
  "SendRegister item s =
     (if lo_dead s then (RegRetry, s)
      else if pt_find (oi_key item) (sc_sends s) \<noteq> None
      then (RegDuplicate (Err InvalidArgument (ascii ''duplicate message_id on session'')), s)
      else (RegDone, s\<lparr>sc_sends := pt_insert (oi_key item) () (sc_sends s), sc_send_pcs := sc_send_pcs s @ [CpRegistered item]\<rparr>))"

definition inflight_add :: "u64 \<Rightarrow> TrafficStats \<Rightarrow> TrafficStats" where
  "inflight_add d st = st\<lparr>ts_inflight := ts_inflight st + d\<rparr>"

text \<open>Handing the item to the lane. A refusal takes the registration back; on a dead link the caller
  starts over.\<close>

definition after_refusal :: "Error \<Rightarrow> SessionCore \<Rightarrow> 'o caller_pc" where
  "after_refusal e s = (if er_code e = Closed \<and> lo_dead s then CpRetry else CpReturned (Inl e))"

definition CallSubmit :: "ClientOptions \<Rightarrow> nat \<Rightarrow> OutItem \<Rightarrow> SessionCore \<Rightarrow> SessionCore" where
  "CallSubmit opts i item s =
     (case Enqueue opts item (note_inflight (oi_lane item) (inflight_add 1) s) of
        (Inr _, t) \<Rightarrow> t\<lparr>sc_call_pcs := (sc_call_pcs t)[i := CpWaiting]\<rparr>
      | (Inl e, t) \<Rightarrow> (note_inflight (oi_lane item) (inflight_add (- 1)) t)
          \<lparr>sc_calls := pt_erase (oi_key item) (sc_calls t), sc_call_pcs := (sc_call_pcs t)[i := after_refusal e t]\<rparr>)"

definition SendSubmit :: "ClientOptions \<Rightarrow> nat \<Rightarrow> OutItem \<Rightarrow> SessionCore \<Rightarrow> SessionCore" where
  "SendSubmit opts i item s =
     (case Enqueue opts item (note_inflight (oi_lane item) (inflight_add 1) s) of
        (Inr _, t) \<Rightarrow> t\<lparr>sc_send_pcs := (sc_send_pcs t)[i := CpWaiting]\<rparr>
      | (Inl e, t) \<Rightarrow> (note_inflight (oi_lane item) (inflight_add (- 1)) t)
          \<lparr>sc_sends := pt_erase (oi_key item) (sc_sends t), sc_send_pcs := (sc_send_pcs t)[i := after_refusal e t]\<rparr>)"

text \<open>A send without confirmation succeeds as soon as its lane accepts it.\<close>

definition SendLocal :: "ClientOptions \<Rightarrow> OutItem \<Rightarrow> SessionCore \<Rightarrow> unit result \<times> SessionCore" where
  "SendLocal opts item s =
     (case Enqueue opts item (note_inflight (oi_lane item) (inflight_add 1) s) of
        (Inl e, t) \<Rightarrow> (Inl e, note_inflight (oi_lane item) (inflight_add (- 1)) t)
      | (Inr _, t) \<Rightarrow> (Inr (), note_inflight (oi_lane item)
          (\<lambda>st. st\<lparr>ts_inflight := ts_inflight st - 1, ts_finished := ts_finished st + 1\<rparr>) t))"

definition call_finished :: "TrafficStats \<Rightarrow> TrafficStats" where
  "call_finished st = st\<lparr>ts_inflight := ts_inflight st - 1, ts_finished := ts_finished st + 1\<rparr>"

definition call_dropped :: "TrafficStats \<Rightarrow> TrafficStats" where
  "call_dropped st = st\<lparr>ts_inflight := ts_inflight st - 1, ts_dropped := ts_dropped st + 1\<rparr>"

definition CallComplete :: "nat \<Rightarrow> TrafficClass \<Rightarrow> SessionCore \<Rightarrow> SessionCore" where
  "CallComplete i c s = (note_inflight c call_finished s)
     \<lparr>sc_call_pcs := (sc_call_pcs s)[i := CpReturned (pd_outcome (pt_objs (sc_calls s) ! i))]\<rparr>"

definition SendComplete :: "nat \<Rightarrow> TrafficClass \<Rightarrow> SessionCore \<Rightarrow> SessionCore" where
  "SendComplete i c s = (note_inflight c call_finished s)
     \<lparr>sc_send_pcs := (sc_send_pcs s)[i := CpReturned (pd_outcome (pt_objs (sc_sends s) ! i))]\<rparr>"

text \<open>The result of a wait that did not complete, by what the caller knows of the commitment.\<close>

definition give_up_result :: "string \<Rightarrow> string \<Rightarrow> string \<Rightarrow> WaitStatus \<Rightarrow> bool \<Rightarrow> Error" where
  "give_up_result cancelled late timeout status committed =
     (if status = WsCancelled
      then ErrPhase Cancelled (ascii cancelled) (if committed then RequestCommitted else NotStarted)
      else if committed then ErrPhase OutcomeUnknown (ascii late) RequestCommitted
      else Err TimedOut (ascii timeout))"

definition CallGiveUp :: "nat \<Rightarrow> TrafficClass \<Rightarrow> WaitStatus \<Rightarrow> SessionCore \<Rightarrow> SessionCore" where
  "CallGiveUp i c status s =
     (let p = pt_objs (sc_calls s) ! i
      in (note_inflight c call_dropped s)\<lparr>sc_calls := pt_erase (pd_key p) (sc_calls s),
           sc_call_pcs := (sc_call_pcs s)[i := CpReturned (Inl
             (give_up_result ''call cancelled'' ''call timed out after commit'' ''call timed out'' status (pd_committed p)))]\<rparr>)"

definition SendGiveUp :: "nat \<Rightarrow> TrafficClass \<Rightarrow> WaitStatus \<Rightarrow> SessionCore \<Rightarrow> SessionCore" where
  "SendGiveUp i c status s =
     (let p = pt_objs (sc_sends s) ! i
      in (note_inflight c call_dropped s)\<lparr>sc_sends := pt_erase (pd_key p) (sc_sends s),
           sc_send_pcs := (sc_send_pcs s)[i := CpReturned (Inl
             (give_up_result ''send cancelled'' ''send acceptance timed out after commit''
                ''send acceptance timed out'' status (pd_committed p)))]\<rparr>)"

text \<open>A reply posted by the server side with a credential for its outcome.\<close>

definition post_reply :: "ClientOptions \<Rightarrow> OutItem \<Rightarrow> SessionCore \<Rightarrow> unit result \<times> SessionCore" where
  "post_reply opts item s =
     (case Enqueue opts (item\<lparr>oi_settle := Some (length (sc_settles s))\<rparr>) s of
        (Inl e, t) \<Rightarrow> (Inl e, t)
      | (Inr _, t) \<Rightarrow> (Inr (), t\<lparr>sc_settles := sc_settles t @ [None]\<rparr>))"

section \<open>All interleavings\<close>

text \<open>The key of the item the writer holds, and every key seen so far. Generated identifiers are fresh;
  \<open>link_step\<close> lets a caller choose any identifier that is.\<close>

fun writer_item :: "writer_pc \<Rightarrow> OutItem option" where
  "writer_item (WHolding item) = Some item"
| "writer_item (WWriting item) = Some item"
| "writer_item (WAccepted item) = Some item"
| "writer_item (WSettling item failure) = Some item"
| "writer_item (WNoting item failure) = Some item"
| "writer_item _ = None"

definition queued_items :: "'a LinkOut_scheme \<Rightarrow> OutItem list" where
  "queued_items s = lo_q s 0 @ lo_q s 1 @ lo_q s 2"

definition live_items :: "SessionCore \<Rightarrow> OutItem list" where
  "live_items s = queued_items s @ (case writer_item (sc_writer s) of None \<Rightarrow> [] | Some item \<Rightarrow> [item])"

definition used_keys :: "SessionCore \<Rightarrow> bytes set" where
  "used_keys s = all_keys (sc_calls s) \<union> all_keys (sc_sends s) \<union> set (sc_wire s) \<union> oi_key ` set (live_items s)"

text \<open>The last rules of the server side, \<open>reply\<close> to \<open>post_error\<close>, are what the admission of inbound requests
  (\<open>Admission\<close>) does to a link.\<close>

inductive link_step :: "(SessionFrameMsg \<Rightarrow> byte list option) \<Rightarrow> ClientOptions \<Rightarrow> SessionCore \<Rightarrow> SessionCore \<Rightarrow> bool"
  for serialize opts where
  call_register: "PrepareCall serialize opts now deadline r s = (Inr (x, item), s1) \<Longrightarrow> oi_key item \<notin> used_keys s \<Longrightarrow>
    link_step serialize opts s (snd (CallRegister x item s1))"
| send_register: "PrepareSend serialize opts now send r s = (Inr item, s1) \<Longrightarrow> oi_key item \<notin> used_keys s \<Longrightarrow>
    so_require_remote_acceptance send \<Longrightarrow> link_step serialize opts s (snd (SendRegister item s1))"
| send_local: "PrepareSend serialize opts now send r s = (Inr item, s1) \<Longrightarrow> oi_key item \<notin> used_keys s \<Longrightarrow>
    \<not> so_require_remote_acceptance send \<Longrightarrow> link_step serialize opts s (snd (SendLocal opts item s1))"
| call_submit: "i < length (sc_call_pcs s) \<Longrightarrow> sc_call_pcs s ! i = CpRegistered item \<Longrightarrow>
    link_step serialize opts s (CallSubmit opts i item s)"
| send_submit: "i < length (sc_send_pcs s) \<Longrightarrow> sc_send_pcs s ! i = CpRegistered item \<Longrightarrow>
    link_step serialize opts s (SendSubmit opts i item s)"
| call_complete: "i < length (sc_call_pcs s) \<Longrightarrow> sc_call_pcs s ! i = CpWaiting \<Longrightarrow>
    pd_done (pt_objs (sc_calls s) ! i) \<Longrightarrow> link_step serialize opts s (CallComplete i c s)"
| send_complete: "i < length (sc_send_pcs s) \<Longrightarrow> sc_send_pcs s ! i = CpWaiting \<Longrightarrow>
    pd_done (pt_objs (sc_sends s) ! i) \<Longrightarrow> link_step serialize opts s (SendComplete i c s)"
| call_give_up: "i < length (sc_call_pcs s) \<Longrightarrow> sc_call_pcs s ! i = CpWaiting \<Longrightarrow> status \<noteq> WsCompleted \<Longrightarrow>
    link_step serialize opts s (CallGiveUp i c status s)"
| send_give_up: "i < length (sc_send_pcs s) \<Longrightarrow> sc_send_pcs s ! i = CpWaiting \<Longrightarrow> status \<noteq> WsCompleted \<Longrightarrow>
    link_step serialize opts s (SendGiveUp i c status s)"
| reply: "post_frame serialize opts deadline f = Some item \<Longrightarrow> link_step serialize opts s (snd (post_reply opts item s))"
| inbound_counted: "link_step serialize opts s (note_inflight c (inflight_add 1) s)"
| inbound_refused: "link_step serialize opts s (note_inflight c call_dropped s)"
| inbound_dropped: "link_step serialize opts s (note_inflight c (\<lambda>st. st\<lparr>ts_dropped := ts_dropped st + 1\<rparr>) s)"
| post_error: "link_step serialize opts s (PostSessionError serialize opts now e s)"
| take: "sc_writer s = WIdle \<Longrightarrow> link_step serialize opts s (writer_take opts s)"
| gate: "sc_writer s = WHolding item \<Longrightarrow> link_step serialize opts s (writer_gate g item s)"
| accept: "sc_writer s = WWriting item \<Longrightarrow> \<not> sc_close_requested s \<Longrightarrow> link_step serialize opts s (writer_accept item s)"
| report_accepted: "sc_writer s = WAccepted item \<Longrightarrow> link_step serialize opts s (writer_report r item s)"
| report_rejected: "sc_writer s = WWriting item \<Longrightarrow> write_failure r \<noteq> None \<Longrightarrow>
    link_step serialize opts s (writer_report r item s)"
| settle: "sc_writer s = WSettling item failure \<Longrightarrow> link_step serialize opts s (writer_settle item failure s)"
| note_settled: "sc_writer s = WNoting item failure \<Longrightarrow> link_step serialize opts s (writer_note item failure s)"
| writer_kills: "sc_writer s = WKilling \<Longrightarrow> link_step serialize opts s (writer_kill s)"
| dispatch: "sc_reader s = RIdle \<Longrightarrow> DispatchInbound serialize opts now timeout f s = (d, t) \<Longrightarrow>
    link_step serialize opts s (case d of DispatchKill reason \<Rightarrow> kill_begin reason t | _ \<Rightarrow> t)"
| publish: "sc_reader s \<noteq> RIdle \<Longrightarrow> link_step serialize opts s (reader_publish s)"
| kill: "link_step serialize opts s (kill_begin reason s)"
| drain: "sc_killer s = KDead reason \<Longrightarrow> link_step serialize opts s (kill_drain reason s)"
| close: "sc_killer s = KDrained reason \<Longrightarrow> link_step serialize opts s (kill_close s)"
| fail_pending: "sc_killer s = KClosed \<Longrightarrow> link_step serialize opts s (kill_fail s)"
| exit_kill: "sc_killer s = KFailed \<Longrightarrow> link_step serialize opts s (kill_exit s)"
| connection_closes: "link_step serialize opts s (s\<lparr>sc_close_requested := True\<rparr>)"

definition link_reachable ::
  "(SessionFrameMsg \<Rightarrow> byte list option) \<Rightarrow> ClientOptions \<Rightarrow> u64 \<Rightarrow> bytes \<Rightarrow> SessionCore \<Rightarrow> bool" where
  "link_reachable serialize opts epoch peer s \<longleftrightarrow> (link_step serialize opts)\<^sup>*\<^sup>* (sc_init epoch peer) s"

end
