(* ===== verification/LinkInvariant.thy ===== *)
theory LinkInvariant
  imports SessionLink "HOL-Library.Multiset"
begin

text \<open>
  The invariant of a link (\<open>SessionLink\<close>) under every interleaving of its callers, its writer, its reader and
  \<^verbatim>\<open>Kill\<close>. The part about a correlation table is the same for calls and sends and is proved once, over
  the keys the connection has accepted, the key the writer is writing, whether the close of the connection was
  requested, and the object the reader is about to settle.
\<close>

section \<open>Correlation tables\<close>

fun gave_up :: "'o caller_pc \<Rightarrow> bool" where
  "gave_up (CpReturned r) = True"
| "gave_up CpRetry = True"
| "gave_up _ = False"

definition killed_outcome :: "bool \<Rightarrow> 'o result" where
  "killed_outcome committed = Inl (SettledPendingError True committed default_Error)"

record table_env =
  te_wire :: "bytes set"
  te_writing :: "bytes set"
  te_closed :: bool
  te_held :: "nat set"

text \<open>One object, given the addresses in the map and the program counter of its caller: until it is
  settled someone is responsible for it; an object in the map whose key the writer is writing or has
  written is committed; one settled by \<^verbatim>\<open>Kill\<close> without a commitment was never accepted by the
  connection, and no longer can be.\<close>

definition object_inv :: "table_env \<Rightarrow> nat set \<Rightarrow> 'o caller_pc \<Rightarrow> nat \<Rightarrow> ('o, 'x) Pending \<Rightarrow> bool" where
  "object_inv env ids pc i p \<longleftrightarrow> pd_key p \<noteq> []
     \<and> (i \<in> te_held env \<longrightarrow> i \<notin> ids \<and> \<not> pd_done p)
     \<and> (\<not> pd_done p \<longrightarrow> i \<in> ids \<or> i \<in> te_held env \<or> gave_up pc)
     \<and> (\<forall>item. pc = CpRegistered item \<longrightarrow> oi_key item = pd_key p)
     \<and> (i \<in> ids \<longrightarrow> pd_key p \<in> te_wire env \<union> te_writing env \<longrightarrow> pd_committed p)
     \<and> (pd_cause p = Some ByKill \<longrightarrow> pd_outcome p = killed_outcome (pd_committed p)
          \<and> (\<not> pd_committed p \<longrightarrow> te_closed env \<and> pd_key p \<notin> te_wire env))
     \<and> (pd_done p \<longleftrightarrow> pd_cause p \<noteq> None)"

definition table_inv :: "table_env \<Rightarrow> 'o caller_pc list \<Rightarrow> ('o, 'x) PendingTable \<Rightarrow> bool" where
  "table_inv env pcs t \<longleftrightarrow> pt_ok t \<and> length pcs = length (pt_objs t) \<and> te_held env \<subseteq> {..<length (pt_objs t)}
     \<and> (\<forall>i < length (pt_objs t). object_inv env (entry_ids t) (pcs ! i) i (pt_objs t ! i))"

lemma table_invD:
  assumes "table_inv env pcs t"
  shows "pt_ok t" "length pcs = length (pt_objs t)" "te_held env \<subseteq> {..<length (pt_objs t)}"
    "\<And>i. i < length (pt_objs t) \<Longrightarrow> object_inv env (entry_ids t) (pcs ! i) i (pt_objs t ! i)"
  using assms by (simp_all add: table_inv_def)

lemma table_inv_step:
  assumes "table_inv env pcs t" "pt_ok u" "length (pt_objs u) = length (pt_objs t)" "length pcs' = length pcs"
    and "te_held env' \<subseteq> {..<length (pt_objs t)}"
    and "\<And>i. i < length (pt_objs t) \<Longrightarrow> object_inv env (entry_ids t) (pcs ! i) i (pt_objs t ! i)
      \<Longrightarrow> object_inv env' (entry_ids u) (pcs' ! i) i (pt_objs u ! i)"
  shows "table_inv env' pcs' u"
  using assms by (simp add: table_inv_def)

lemma table_inv_init: "te_held env = {} \<Longrightarrow> table_inv env [] pt_init"
  by (simp add: table_inv_def pt_init_ok) (simp add: pt_init_def)

lemma table_inv_env:
  assumes "table_inv env pcs t" "te_held env' = te_held env" "te_closed env \<longrightarrow> te_closed env'"
    "te_wire env' \<union> te_writing env' \<subseteq> te_wire env \<union> te_writing env" "te_closed env \<longrightarrow> te_wire env' \<subseteq> te_wire env"
  shows "table_inv env' pcs t"
proof (rule table_inv_step [OF assms(1)])
  fix i assume "object_inv env (entry_ids t) (pcs ! i) i (pt_objs t ! i)"
  then show "object_inv env' (entry_ids t) (pcs ! i) i (pt_objs t ! i)"
    unfolding object_inv_def using assms(2-5) by auto
qed (use assms(2) table_invD [OF assms(1)] in auto)

lemma table_inv_pc:
  assumes "table_inv env pcs t" "i < length pcs" "\<not> gave_up (pcs ! i)" "\<forall>item. pc \<noteq> CpRegistered item"
  shows "table_inv env (pcs[i := pc]) t"
proof (rule table_inv_step [OF assms(1)])
  fix j assume "j < length (pt_objs t)" "object_inv env (entry_ids t) (pcs ! j) j (pt_objs t ! j)"
  then show "object_inv env (entry_ids t) (pcs[i := pc] ! j) j (pt_objs t ! j)"
    using assms(2-4) by (cases "i = j") (auto simp: object_inv_def)
qed (use table_invD [OF assms(1)] in auto)

lemma table_inv_insert:
  assumes "table_inv env pcs t" "key \<notin> all_keys t" "key \<notin> te_wire env \<union> te_writing env" "key \<noteq> []" "oi_key item = key"
  shows "table_inv env (pcs @ [CpRegistered item]) (pt_insert key x t)"
  unfolding table_inv_def
proof (intro conjI allI impI)
  note D = table_invD [OF assms(1)]
  show "pt_ok (pt_insert key x t)" by (rule pt_insert_ok [OF D(1) assms(2)])
  show "length (pcs @ [CpRegistered item]) = length (pt_objs (pt_insert key x t))" using D(2) by simp
  show "te_held env \<subseteq> {..<length (pt_objs (pt_insert key x t))}"
    using D(3) unfolding pt_lengths lessThan_Suc by blast
  fix i assume i: "i < length (pt_objs (pt_insert key x t))"
  show "object_inv env (entry_ids (pt_insert key x t)) ((pcs @ [CpRegistered item]) ! i) i (pt_objs (pt_insert key x t) ! i)"
  proof (cases "i = length pcs")
    case True
    then have new: "pt_objs (pt_insert key x t) ! i = new_Pending key x" using D(2) by (simp add: pt_insert_def)
    have "i \<notin> te_held env" using D(2,3) True by auto
    moreover have "(pcs @ [CpRegistered item]) ! i = CpRegistered item" using True by simp
    ultimately show ?thesis using new assms(3-5) True D(2) by (auto simp: object_inv_def new_Pending_def)
  next
    case False
    then have "pt_objs (pt_insert key x t) ! i = pt_objs t ! i" "i < length (pt_objs t)"
      using i D(2) by (auto simp: pt_insert_def nth_append)
    then show ?thesis using D(4) [of i] False D(2) by (auto simp: object_inv_def nth_append)
  qed
qed

text \<open>An entry goes away because the reader has taken its object or because its caller has given up.\<close>

lemma table_inv_take:
  assumes "table_inv env pcs t" "pt_find key t = Some i" "te_held env = {}"
  shows "table_inv (env\<lparr>te_held := {i}\<rparr>) pcs (pt_erase key t)"
proof (rule table_inv_step [OF assms(1)])
  note D = table_invD [OF assms(1)]
  have entry: "(key, i) \<in> set (pt_map t)" using pt_ok_find [OF D(1)] assms(2) by simp
  show "pt_ok (pt_erase key t)" "length (pt_objs (pt_erase key t)) = length (pt_objs t)"
    using pt_erase_ok D(1) by auto
  show "te_held (env\<lparr>te_held := {i}\<rparr>) \<subseteq> {..<length (pt_objs t)}" using pt_okD(1) [OF D(1) entry] by simp
  fix j assume "j < length (pt_objs t)" "object_inv env (entry_ids t) (pcs ! j) j (pt_objs t ! j)"
  then show "object_inv (env\<lparr>te_held := {i}\<rparr>) (entry_ids (pt_erase key t)) (pcs ! j) j (pt_objs (pt_erase key t) ! j)"
    using assms(2,3) pt_okD(2) [OF D(1) entry] by (auto simp: object_inv_def pt_erase_ids [OF D(1)])
qed simp

lemma table_inv_give_up:
  assumes "table_inv env pcs t" "i < length pcs" "key = pd_key (pt_objs t ! i)" "gave_up pc"
  shows "table_inv env (pcs[i := pc]) (pt_erase key t)"
proof (rule table_inv_step [OF assms(1)])
  note D = table_invD [OF assms(1)]
  show "pt_ok (pt_erase key t)" "length (pt_objs (pt_erase key t)) = length (pt_objs t)"
    "te_held env \<subseteq> {..<length (pt_objs t)}" using pt_erase_ok D(1,3) by auto
  have same: "j = i" if "pt_find key t = Some j" for j
  proof -
    have "(key, j) \<in> set (pt_map t)" using that pt_ok_find [OF D(1)] by simp
    then show ?thesis using pt_okD(1,3) [OF D(1), of key j] pt_ok_same_key [OF D(1), of j i] assms(2,3) D(2) by simp
  qed
  fix j assume "j < length (pt_objs t)" "object_inv env (entry_ids t) (pcs ! j) j (pt_objs t ! j)"
  then show "object_inv env (entry_ids (pt_erase key t)) (pcs[i := pc] ! j) j (pt_objs (pt_erase key t) ! j)"
    using same assms(2,4) by (cases "j = i") (auto simp: object_inv_def pt_erase_ids [OF D(1)])
qed simp

lemma settled_object_inv:
  assumes "object_inv env ids pc i p" "cause \<noteq> ByKill" "i \<notin> ids'" "i \<notin> te_held env'"
  shows "object_inv env' ids' pc i (settled cause r p)"
  using assms by (auto simp: object_inv_def settled_def)

lemma table_inv_publish:
  assumes "table_inv env pcs t" "te_held env = {i}" "cause \<noteq> ByKill"
  shows "table_inv (env\<lparr>te_held := {}\<rparr>) pcs (pt_publish cause i r t)"
proof (rule table_inv_step [OF assms(1)])
  note D = table_invD [OF assms(1)]
  have i: "i < length (pt_objs t)" "i \<notin> entry_ids t" using D(3) D(4) [of i] assms(2) by (auto simp: object_inv_def)
  then show "pt_ok (pt_publish cause i r t)" using pt_publish_ok D(1) by blast
  fix j assume j: "j < length (pt_objs t)" "object_inv env (entry_ids t) (pcs ! j) j (pt_objs t ! j)"
  show "object_inv (env\<lparr>te_held := {}\<rparr>) (entry_ids (pt_publish cause i r t)) (pcs ! j) j (pt_objs (pt_publish cause i r t) ! j)"
  proof (cases "j = i")
    case True
    then show ?thesis using settled_object_inv [OF j(2) assms(3), of "entry_ids t" "env\<lparr>te_held := {}\<rparr>" r] i
      unfolding pt_entries by (simp add: pt_publish_def)
  next
    case False
    then have "pt_objs (pt_publish cause i r t) ! j = pt_objs t ! j" by (simp add: pt_publish_def)
    then show ?thesis using j(2) False assms(2) unfolding pt_entries by (auto simp: object_inv_def)
  qed
qed simp_all

lemma table_inv_settle:
  assumes "table_inv env pcs t" "cause \<noteq> ByKill"
  shows "table_inv env pcs (pt_settle cause key r t)"
proof (cases "pt_find key t")
  case None
  then show ?thesis using assms(1) by (simp add: pt_settle_def)
next
  case (Some i)
  show ?thesis
  proof (rule table_inv_step [OF assms(1)])
    note D = table_invD [OF assms(1)]
    show "pt_ok (pt_settle cause key r t)" "te_held env \<subseteq> {..<length (pt_objs t)}" using pt_settle_ok D(1,3) by auto
    have entry: "(key, i) \<in> set (pt_map t)" using Some pt_ok_find [OF D(1)] by simp
    have i: "i < length (pt_objs t)" "i \<in> entry_ids t" using pt_okD(1) [OF D(1) entry] entry by (force simp: entry_ids_def)+
    have ids: "entry_ids (pt_settle cause key r t) = entry_ids t - {i}" using pt_settle_ids [OF D(1)] Some by auto
    fix j assume j: "j < length (pt_objs t)" "object_inv env (entry_ids t) (pcs ! j) j (pt_objs t ! j)"
    show "object_inv env (entry_ids (pt_settle cause key r t)) (pcs ! j) j (pt_objs (pt_settle cause key r t) ! j)"
    proof (cases "j = i")
      case True
      then have "j \<notin> te_held env" using j(2) i by (auto simp: object_inv_def)
      then show ?thesis using settled_object_inv [OF j(2) assms(2)] True i Some ids
        by (simp add: pt_settle_def pt_publish_def)
    next
      case False
      then have "pt_objs (pt_settle cause key r t) ! j = pt_objs t ! j" using Some by (simp add: pt_settle_def pt_publish_def)
      then show ?thesis using j(2) False ids by (auto simp: object_inv_def)
    qed
  qed simp_all
qed

lemma table_inv_fail_all:
  assumes "table_inv env pcs t" "te_closed env"
  shows "table_inv env pcs (pt_fail_all killed_outcome t)"
proof (rule table_inv_step [OF assms(1)])
  note D = table_invD [OF assms(1)]
  show "pt_ok (pt_fail_all killed_outcome t)" "te_held env \<subseteq> {..<length (pt_objs t)}" using pt_fail_all_ok D(1,3) by auto
  fix j assume "j < length (pt_objs t)" "object_inv env (entry_ids t) (pcs ! j) j (pt_objs t ! j)"
  then show "object_inv env (entry_ids (pt_fail_all killed_outcome t)) (pcs ! j) j (pt_objs (pt_fail_all killed_outcome t) ! j)"
    using assms(2) by (auto simp: pt_fail_all_objs(2) [OF D(1)] object_inv_def settled_def)
qed simp_all

lemma table_inv_commit:
  assumes "table_inv env pcs t" "te_writing env = {}"
  shows "table_inv (env\<lparr>te_writing := {key}\<rparr>) pcs (pt_commit key t)"
proof (rule table_inv_step [OF assms(1)])
  note D = table_invD [OF assms(1)]
  show "pt_ok (pt_commit key t)" "te_held (env\<lparr>te_writing := {key}\<rparr>) \<subseteq> {..<length (pt_objs t)}"
    using pt_commit_ok D(1,3) by auto
  fix j assume j: "j < length (pt_objs t)" "object_inv env (entry_ids t) (pcs ! j) j (pt_objs t ! j)"
  show "object_inv (env\<lparr>te_writing := {key}\<rparr>) (entry_ids (pt_commit key t)) (pcs ! j) j (pt_objs (pt_commit key t) ! j)"
  proof (cases "pt_find key t")
    case None
    then have "pd_key (pt_objs t ! j) \<noteq> key" if "j \<in> entry_ids t"
      using that pt_okD(3) [OF D(1), of _ j] by (auto simp: entry_ids_def pt_find_def map_of_eq_None_iff rev_image_eqI)
    then show ?thesis using j(2) None assms(2) by (auto simp: pt_commit_def object_inv_def)
  next
    case (Some i)
    then have entry: "(key, i) \<in> set (pt_map t)" using pt_ok_find [OF D(1)] by simp
    note i = pt_okD [OF D(1) entry]
    show ?thesis
    proof (cases "j = i")
      case True
      then have "pt_objs (pt_commit key t) ! j = (pt_objs t ! j)\<lparr>pd_committed := True\<rparr>" using i Some by (simp add: pt_commit_def)
      then show ?thesis using j(2) i True by (auto simp: object_inv_def)
    next
      case False
      then have "pd_key (pt_objs t ! j) \<noteq> key" using pt_ok_same_key [OF D(1), of i j] i j(1) by auto
      moreover have "pt_objs (pt_commit key t) ! j = pt_objs t ! j" using False Some by (simp add: pt_commit_def)
      ultimately show ?thesis using j(2) assms(2) by (auto simp: object_inv_def)
    qed
  qed
qed simp_all

section \<open>The lanes and the settlement of writes\<close>

fun kill_rank :: "kill_pc \<Rightarrow> nat" where
  "kill_rank KAlive = 0"
| "kill_rank (KDead r) = 1"
| "kill_rank (KDrained r) = 2"
| "kill_rank KClosed = 3"
| "kill_rank KFailed = 4"
| "kill_rank KDone = 5"

definition settle_ids :: "OutItem list \<Rightarrow> nat list" where
  "settle_ids items = List.map_filter oi_settle items"

lemma settle_ids_simps [simp]:
  "settle_ids [] = []" "settle_ids (x # xs) = (case oi_settle x of None \<Rightarrow> settle_ids xs | Some i \<Rightarrow> i # settle_ids xs)"
  "settle_ids (xs @ ys) = settle_ids xs @ settle_ids ys"
  by (simp_all add: settle_ids_def map_filter_def split: option.split)

fun registered_item :: "'o caller_pc \<Rightarrow> OutItem option" where
  "registered_item (CpRegistered item) = Some item"
| "registered_item _ = None"

definition plain_item :: "OutItem \<Rightarrow> bool" where
  "plain_item item \<longleftrightarrow> item_ok item \<and> oi_settle item = None"

text \<open>The items accepted and not yet settled are those queued and the one in the writer's hand: their
  number is \<^verbatim>\<open>writes_outstanding\<close>, and the credentials among them are exactly the unsettled ones. Once
  the link is sealed nothing is queued.\<close>

definition out_core :: "ClientOptions \<Rightarrow> SessionCore \<Rightarrow> bool" where
  "out_core opts s \<longleftrightarrow> lanes_ok opts s \<and> lo_outstanding s = word_of_nat (length (live_items s))
     \<and> distinct (settle_ids (live_items s))
     \<and> set (settle_ids (live_items s)) = {i. i < length (sc_settles s) \<and> sc_settles s ! i = None}"

definition callers_ok :: "SessionCore \<Rightarrow> bool" where
  "callers_ok s \<longleftrightarrow> (\<forall>pc \<in> set (sc_call_pcs s). \<forall>item. registered_item pc = Some item \<longrightarrow> plain_item item)
     \<and> (\<forall>pc \<in> set (sc_send_pcs s). \<forall>item. registered_item pc = Some item \<longrightarrow> plain_item item)"

definition seal_ok :: "SessionCore \<Rightarrow> bool" where
  "seal_ok s \<longleftrightarrow> (lo_dead s \<longleftrightarrow> 1 \<le> kill_rank (sc_killer s)) \<and> (lo_sealed s \<longleftrightarrow> 2 \<le> kill_rank (sc_killer s))
     \<and> (lo_sealed s \<longrightarrow> queued_items s = [])"

lemma more_fields:
  assumes "LinkOut.more t = LinkOut.more (s :: SessionCore)"
  shows "sc_epoch t = sc_epoch s" "sc_peer_identity t = sc_peer_identity s" "sc_responsibilities t = sc_responsibilities s"
    "sc_settles t = sc_settles s" "sc_calls t = sc_calls s" "sc_sends t = sc_sends s" "sc_seq_counter t = sc_seq_counter s"
    "sc_close_requested t = sc_close_requested s" "sc_writer t = sc_writer s" "sc_reader t = sc_reader s"
    "sc_killer t = sc_killer s" "sc_call_pcs t = sc_call_pcs s" "sc_send_pcs t = sc_send_pcs s" "sc_wire t = sc_wire s"
  using assms by (cases s; cases t; simp)+

lemma lane_stats_fields [simp]:
  "sc_epoch (lane_stats l f s) = sc_epoch s" "sc_settles (lane_stats l f s) = sc_settles s"
  "sc_calls (lane_stats l f s) = sc_calls s" "sc_sends (lane_stats l f s) = sc_sends s"
  "sc_close_requested (lane_stats l f s) = sc_close_requested s" "sc_writer (lane_stats l f s) = sc_writer s"
  "sc_reader (lane_stats l f s) = sc_reader s" "sc_killer (lane_stats l f s) = sc_killer s"
  "sc_call_pcs (lane_stats l f s) = sc_call_pcs s" "sc_send_pcs (lane_stats l f s) = sc_send_pcs s"
  "sc_wire (lane_stats l f s) = sc_wire s"
  by (simp_all add: lane_stats_def)

lemma note_inflight_lanes [simp]: "note_inflight c f s = lane_stats (LaneIndex c) f s"
  by (simp add: note_inflight_def)

text \<open>Statistics other than the two gauges may change freely.\<close>

definition keeps_gauges :: "(TrafficStats \<Rightarrow> TrafficStats) \<Rightarrow> bool" where
  "keeps_gauges f \<longleftrightarrow> (\<forall>st. ts_queued (f st) = ts_queued st \<and> ts_bytes_queued (f st) = ts_bytes_queued st)"

lemma keeps_gauges_ops [simp]:
  "keeps_gauges (inflight_add d)" "keeps_gauges call_finished" "keeps_gauges call_dropped"
  "keeps_gauges (\<lambda>st. st\<lparr>ts_dropped := ts_dropped st + 1\<rparr>)"
  "keeps_gauges (\<lambda>st. st\<lparr>ts_inflight := ts_inflight st - 1, ts_finished := ts_finished st + 1\<rparr>)"
  by (simp_all add: keeps_gauges_def inflight_add_def call_finished_def call_dropped_def)

lemma live_items_cong:
  "lo_q t = lo_q s \<Longrightarrow> writer_item (sc_writer t) = writer_item (sc_writer s) \<Longrightarrow> live_items t = live_items s"
  by (simp add: live_items_def queued_items_def)

lemma lanes_ok_stats: "keeps_gauges f \<Longrightarrow> lanes_ok opts (lane_stats l f s) \<longleftrightarrow> lanes_ok opts s"
  by (auto simp: lanes_ok_def keeps_gauges_def)

lemma out_core_stats: "out_core opts s \<Longrightarrow> keeps_gauges f \<Longrightarrow> out_core opts (lane_stats l f s)"
  by (simp add: out_core_def lanes_ok_stats live_items_cong [of "lane_stats l f s" s])

text \<open>What the invariant of the lanes looks at.\<close>

lemma out_core_cong:
  assumes "LinkOut.truncate t = LinkOut.truncate s" "writer_item (sc_writer t) = writer_item (sc_writer s)"
    and "sc_settles t = sc_settles s"
  shows "out_core opts t \<longleftrightarrow> out_core opts s"
proof -
  have "lo_q t = lo_q s" "lo_lanes t = lo_lanes s" "lo_outstanding t = lo_outstanding s"
    using assms(1) by (simp_all add: LinkOut.truncate_def LinkOut.ext_inject)
  then show ?thesis using assms(2,3) live_items_cong [of t s] by (simp add: out_core_def lanes_ok_def)
qed

lemma enqueue_live_set:
  assumes "Enqueue opts item s = (Inr (), t)"
  shows "mset (live_items t) = add_mset item (mset (live_items s))"
    "length (live_items t) = Suc (length (live_items s))"
    "mset (settle_ids (live_items t)) = mset (settle_ids [item]) + mset (settle_ids (live_items s))"
proof -
  have "writer_item (sc_writer t) = writer_item (sc_writer s)" using more_fields(9) [OF Enqueue_Inr(9) [OF assms]] by simp
  moreover have "lo_q t = (lo_q s)(LaneIndex (oi_lane item) := lo_q s (LaneIndex (oi_lane item)) @ [item])"
    using Enqueue_Inr(1) [OF assms] .
  ultimately show "mset (live_items t) = add_mset item (mset (live_items s))"
    "length (live_items t) = Suc (length (live_items s))"
    "mset (settle_ids (live_items t)) = mset (settle_ids [item]) + mset (settle_ids (live_items s))"
    by (cases "oi_lane item"; simp add: live_items_def queued_items_def split: option.split)+
qed

lemma out_core_enqueue:
  assumes "ClientOptions_Validate opts = Inr ()" "out_core opts s" "plain_item item" "Enqueue opts item s = (r, t)"
  shows "out_core opts t"
proof (cases r)
  case (Inl e)
  with assms(4) have put: "Enqueue opts item s = (Inl e, t)" by simp
  have "live_items t = live_items s"
    using Enqueue_Inl(1) [OF put] more_fields(9) [OF Enqueue_Inl(7) [OF put]] by (intro live_items_cong) simp_all
  then show ?thesis
    using assms(2) Enqueue_lanes_ok [OF assms(1) _ _ assms(4)] assms(3) Enqueue_Inl(6) [OF put]
      more_fields(4) [OF Enqueue_Inl(7) [OF put]] by (simp add: out_core_def plain_item_def)
next
  case (Inr u)
  with assms(4) have put: "Enqueue opts item s = (Inr (), t)" by simp
  have ids: "mset (settle_ids (live_items t)) = mset (settle_ids (live_items s))"
    using enqueue_live_set(3) [OF put] assms(3) by (simp add: plain_item_def)
  show ?thesis
    using assms(2) Enqueue_lanes_ok [OF assms(1) _ _ assms(4)] assms(3) Enqueue_Inr(8) [OF put]
      more_fields(4) [OF Enqueue_Inr(9) [OF put]] enqueue_live_set(2) [OF put]
      mset_eq_setD [OF ids] mset_eq_imp_distinct_iff [OF ids]
    by (simp add: out_core_def plain_item_def)
qed

lemma out_core_reply:
  assumes "ClientOptions_Validate opts = Inr ()" "out_core opts s" "item_ok item" "post_reply opts item s = (r, t)"
  shows "out_core opts t"
proof -
  let ?item = "item\<lparr>oi_settle := Some (length (sc_settles s))\<rparr>"
  obtain q u where put: "Enqueue opts ?item s = (q, u)" by fastforce
  have lanes: "lanes_ok opts u" using Enqueue_lanes_ok [OF assms(1) _ _ put] assms(2,3) by (simp add: out_core_def item_ok_def)
  show ?thesis
  proof (cases q)
    case (Inl e)
    then have put': "Enqueue opts ?item s = (Inl e, u)" using put by simp
    have "live_items u = live_items s"
      using Enqueue_Inl(1) [OF put'] more_fields(9) [OF Enqueue_Inl(7) [OF put']] by (intro live_items_cong) simp_all
    then show ?thesis using Inl put assms(2,4) lanes Enqueue_Inl(6) [OF put'] more_fields(4) [OF Enqueue_Inl(7) [OF put']]
      by (simp add: post_reply_def out_core_def)
  next
    case (Inr x)
    then have put': "Enqueue opts ?item s = (Inr (), u)" using put by simp
    have t: "t = u\<lparr>sc_settles := sc_settles s @ [None]\<rparr>"
      using assms(4) put Inr more_fields(4) [OF Enqueue_Inr(9) [OF put']] by (simp add: post_reply_def)
    have live: "live_items t = live_items u" unfolding t by (intro live_items_cong) simp_all
    have ids: "mset (settle_ids (live_items t)) = add_mset (length (sc_settles s)) (mset (settle_ids (live_items s)))"
      using enqueue_live_set(3) [OF put'] live by simp
    have fresh: "length (sc_settles s) \<notin> set (settle_ids (live_items s))" using assms(2) by (simp add: out_core_def)
    have "distinct (settle_ids (live_items t))"
      using mset_eq_imp_distinct_iff [of "settle_ids (live_items t)" "length (sc_settles s) # settle_ids (live_items s)"]
        ids fresh assms(2) by (simp add: out_core_def)
    moreover have "set (settle_ids (live_items t)) = insert (length (sc_settles s)) (set (settle_ids (live_items s)))"
      using ids by (metis set_mset_add_mset_insert set_mset_mset)
    moreover have "lanes_ok opts t" using lanes unfolding t by (simp add: lanes_ok_def)
    moreover have "lo_outstanding t = word_of_nat (length (live_items t))"
      using enqueue_live_set(2) [OF put'] live Enqueue_Inr(8) [OF put'] assms(2) unfolding t by (simp add: out_core_def)
    moreover have "{i. i < length (sc_settles t) \<and> sc_settles t ! i = None}
        = insert (length (sc_settles s)) {i. i < length (sc_settles s) \<and> sc_settles s ! i = None}"
      unfolding t by (auto simp: nth_append less_Suc_eq)
    ultimately show ?thesis using assms(2) by (simp add: out_core_def)
  qed
qed

text \<open>An item that has left its queue, or the writer's hand, and is not settled yet.\<close>

definition holding :: "ClientOptions \<Rightarrow> OutItem \<Rightarrow> SessionCore \<Rightarrow> bool" where
  "holding opts item s \<longleftrightarrow> lanes_ok opts s \<and> lo_outstanding s = word_of_nat (Suc (length (live_items s)))
     \<and> distinct (settle_ids (item # live_items s))
     \<and> set (settle_ids (item # live_items s)) = {i. i < length (sc_settles s) \<and> sc_settles s ! i = None}"

lemma NoteWriteSettled_fields [simp]:
  "sc_epoch (NoteWriteSettled item r s) = sc_epoch s" "sc_calls (NoteWriteSettled item r s) = sc_calls s"
  "sc_sends (NoteWriteSettled item r s) = sc_sends s" "sc_close_requested (NoteWriteSettled item r s) = sc_close_requested s"
  "sc_writer (NoteWriteSettled item r s) = sc_writer s" "sc_reader (NoteWriteSettled item r s) = sc_reader s"
  "sc_killer (NoteWriteSettled item r s) = sc_killer s" "sc_call_pcs (NoteWriteSettled item r s) = sc_call_pcs s"
  "sc_send_pcs (NoteWriteSettled item r s) = sc_send_pcs s" "sc_wire (NoteWriteSettled item r s) = sc_wire s"
  "length (sc_settles (NoteWriteSettled item r s)) = length (sc_settles s)"
  by (auto simp: NoteWriteSettled_def Let_def split: option.split)

lemma NoteWriteSettled_settles:
  "sc_settles (NoteWriteSettled item r s) =
     (case oi_settle item of None \<Rightarrow> sc_settles s
      | Some i \<Rightarrow> if sc_settles s ! i = None then (sc_settles s)[i := Some r] else sc_settles s)"
  by (auto simp: NoteWriteSettled_def Let_def split: option.split)

lemma holding_settled:
  assumes "holding opts item s"
  shows "out_core opts (NoteWriteSettled item r s)"
proof -
  have live: "live_items (NoteWriteSettled item r s) = live_items s" by (intro live_items_cong) simp_all
  have lanes: "lanes_ok opts (NoteWriteSettled item r s)" using assms by (simp add: holding_def lanes_ok_def)
  have count: "lo_outstanding (NoteWriteSettled item r s) = word_of_nat (length (live_items s))"
    using assms by (simp add: holding_def)
  show ?thesis
  proof (cases "oi_settle item")
    case None
    then show ?thesis using assms lanes count live by (simp add: out_core_def holding_def NoteWriteSettled_settles)
  next
    case (Some i)
    then have ids: "i \<notin> set (settle_ids (live_items s))" "distinct (settle_ids (live_items s))"
      "insert i (set (settle_ids (live_items s))) = {i. i < length (sc_settles s) \<and> sc_settles s ! i = None}"
      using assms by (simp_all add: holding_def)
    then have i: "i < length (sc_settles s)" "sc_settles s ! i = None" by auto
    have "{j. j < length (sc_settles s) \<and> (sc_settles s)[i := Some r] ! j = None}
        = {j. j < length (sc_settles s) \<and> sc_settles s ! j = None} - {i}"
      using i(1) by (auto simp: nth_list_update split: if_splits)
    then have "{j. j < length (sc_settles s) \<and> (sc_settles s)[i := Some r] ! j = None} = set (settle_ids (live_items s))"
      using ids(1,3) by (metis Diff_insert_absorb)
    then show ?thesis using lanes count live ids(2) i Some by (simp add: out_core_def NoteWriteSettled_settles)
  qed
qed

lemma holding_of_live:
  assumes "out_core opts s" "lanes_ok opts t" "lo_outstanding t = lo_outstanding s" "sc_settles t = sc_settles s"
    and "mset (live_items s) = add_mset item (mset (live_items t))"
  shows "holding opts item t"
proof -
  have ids: "mset (settle_ids (live_items s)) = mset (settle_ids (item # live_items t))"
  proof -
    have "mset (settle_ids xs) = {#the (oi_settle x). x \<in># filter_mset (\<lambda>x. oi_settle x \<noteq> None) (mset xs)#}" for xs
      by (induction xs) (auto split: option.split)
    then show ?thesis using assms(5) by (auto split: option.split)
  qed
  have len: "length (live_items s) = Suc (length (live_items t))" using assms(5) by (metis size_add_mset size_mset)
  show ?thesis
    using assms(1-4) len mset_eq_setD [OF ids] mset_eq_imp_distinct_iff [OF ids] by (simp add: holding_def out_core_def)
qed

lemma holding_writer:
  assumes "out_core opts s" "writer_item (sc_writer s) = Some item" "writer_item pc = None"
  shows "holding opts item (s\<lparr>sc_writer := pc\<rparr>)"
  using assms by (intro holding_of_live [OF assms(1)]) (simp_all add: live_items_def out_core_def lanes_ok_def queued_items_def)

lemma holding_taken:
  assumes "out_core opts s" "dequeued_from lane item s t"
  shows "holding opts item t" "writer_item (sc_writer s) = None \<Longrightarrow> out_core opts (t\<lparr>sc_writer := WHolding item\<rparr>)"
proof -
  have fields: "lo_outstanding t = lo_outstanding s" "sc_settles t = sc_settles s" "sc_writer t = sc_writer s"
    using assms(2) more_fields(4,9) [of t s] by (simp_all add: dequeued_from_def)
  obtain c where c: "lane = LaneIndex c" using lane_of_index assms(2) by (auto simp: dequeued_from_def)
  obtain rest where rest: "lo_q s (LaneIndex c) = item # rest" "lo_q t = (lo_q s)(LaneIndex c := rest)"
    using assms(2) c by (auto simp: dequeued_from_def)
  have queued: "mset (queued_items s) = add_mset item (mset (queued_items t))"
    unfolding queued_items_def rest(2) using rest(1) by (cases c) simp_all
  have lanes: "lanes_ok opts t" using dequeued_lanes_ok(1) [OF _ assms(2)] assms(1) by (simp add: out_core_def)
  have live: "mset (live_items s) = add_mset item (mset (live_items t))"
    using queued fields(3) by (simp add: live_items_def)
  show hold: "holding opts item t" using holding_of_live [OF assms(1) lanes fields(1,2) live] .
  assume idle: "writer_item (sc_writer s) = None"
  then have items: "live_items (t\<lparr>sc_writer := WHolding item\<rparr>) = live_items t @ [item]"
    using fields(3) by (simp add: live_items_def queued_items_def)
  have ids: "mset (settle_ids (live_items t @ [item])) = mset (settle_ids (item # live_items t))"
    by (simp split: option.split)
  show "out_core opts (t\<lparr>sc_writer := WHolding item\<rparr>)"
    using hold lanes mset_eq_setD [OF ids] mset_eq_imp_distinct_iff [OF ids] items
    unfolding out_core_def holding_def by (simp add: lanes_ok_def)
qed

lemma TakeQueued_dequeued:
  assumes "TakeQueuedLocked lane s = Some (item, t)" "out_core opts s" "lane < 3"
  shows "holding opts item t" "LinkOut.more t = LinkOut.more s" "lo_q t = (lo_q s)(lane := tl (lo_q s lane))"
    "lo_sealed t = lo_sealed s" "lo_dead t = lo_dead s"
proof -
  have q: "lo_q s lane = item # tl (lo_q s lane)" "lo_q t = (lo_q s)(lane := tl (lo_q s lane))"
    "lo_outstanding t = lo_outstanding s" "lo_sealed t = lo_sealed s" "lo_dead t = lo_dead s" "LinkOut.more t = LinkOut.more s"
    using assms(1) by (auto simp: TakeQueuedLocked_def split: list.splits)
  then show "LinkOut.more t = LinkOut.more s" "lo_q t = (lo_q s)(lane := tl (lo_q s lane))"
    "lo_sealed t = lo_sealed s" "lo_dead t = lo_dead s" by simp_all
  let ?u = "lane_stats lane (\<lambda>st. st\<lparr>ts_dequeued := ts_dequeued st + 1\<rparr>) t"
  have "pop_lane lane s = Some (item, ?u)" using assms(1) by (simp add: pop_lane_def)
  then have "dequeued_from lane item s ?u" using pop_lane_Some assms(3) by blast
  from holding_taken(1) [OF assms(2) this] have "holding opts item ?u" .
  moreover have "live_items ?u = live_items t" by (intro live_items_cong) simp_all
  moreover have "lanes_ok opts t"
    using \<open>holding opts item ?u\<close> lanes_ok_stats [of "\<lambda>st. st\<lparr>ts_dequeued := ts_dequeued st + 1\<rparr>" opts lane t]
    by (simp add: holding_def keeps_gauges_def)
  ultimately show "holding opts item t" by (simp add: holding_def)
qed

lemma holding_stats: "holding opts item s \<Longrightarrow> keeps_gauges f \<Longrightarrow> holding opts item (lane_stats l f s)"
  by (simp add: holding_def lanes_ok_stats live_items_cong [of "lane_stats l f s" s])

text \<open>Draining a lane settles everything in it and touches nothing else.\<close>

lemma drain_lane_core:
  assumes "out_core opts s" "lane < 3"
  shows "out_core opts (drain_lane lane s) \<and> lo_q (drain_lane lane s) = (lo_q s)(lane := [])
    \<and> lo_sealed (drain_lane lane s) = lo_sealed s \<and> lo_dead (drain_lane lane s) = lo_dead s
    \<and> length (sc_settles (drain_lane lane s)) = length (sc_settles s)"
  using assms
proof (induction lane s rule: drain_lane.induct)
  case (1 lane s)
  show ?case
  proof (cases "TakeQueuedLocked lane s")
    case None
    then have "lo_q s lane = []" by (simp add: TakeQueuedLocked_def split: list.splits)
    then show ?thesis using 1(2) None by (simp add: drain_lane.simps [of lane s] fun_upd_idem)
  next
    case (Some r)
    then obtain item t where take: "TakeQueuedLocked lane s = Some (item, t)" by (cases r) auto
    let ?u = "NoteWriteSettled item (Inl (Err Closed (ascii ''session killed before reply write'')))
      (lane_stats lane (\<lambda>st. st\<lparr>ts_dropped := ts_dropped st + 1\<rparr>) t)"
    note D = TakeQueued_dequeued [OF take 1(2,3)]
    have "out_core opts ?u" using D(1) by (intro holding_settled holding_stats) simp_all
    from 1(1) [OF take refl this 1(3)] D(3-5) more_fields(4) [OF D(2)] take
    show ?thesis by (simp add: drain_lane.simps [of lane s] fun_eq_iff)
  qed
qed

lemma drain_lane_fields:
  "sc_calls (drain_lane lane s) = sc_calls s \<and> sc_sends (drain_lane lane s) = sc_sends s
   \<and> sc_close_requested (drain_lane lane s) = sc_close_requested s \<and> sc_writer (drain_lane lane s) = sc_writer s
   \<and> sc_reader (drain_lane lane s) = sc_reader s \<and> sc_killer (drain_lane lane s) = sc_killer s
   \<and> sc_call_pcs (drain_lane lane s) = sc_call_pcs s \<and> sc_send_pcs (drain_lane lane s) = sc_send_pcs s
   \<and> sc_wire (drain_lane lane s) = sc_wire s"
proof (induction lane s rule: drain_lane.induct)
  case (1 lane s)
  show ?case
  proof (cases "TakeQueuedLocked lane s")
    case None
    then show ?thesis by (simp add: drain_lane.simps [of lane s])
  next
    case (Some r)
    then obtain item t where take: "TakeQueuedLocked lane s = Some (item, t)" by (cases r) auto
    have "LinkOut.more t = LinkOut.more s" using take by (auto simp: TakeQueuedLocked_def split: list.splits)
    from 1 [OF take refl] more_fields [OF this] take show ?thesis by (simp add: drain_lane.simps [of lane s])
  qed
qed

section \<open>The whole link\<close>

fun writing_keys :: "writer_pc \<Rightarrow> bytes set" where
  "writing_keys (WWriting item) = {oi_key item}"
| "writing_keys _ = {}"

fun call_held :: "reader_pc \<Rightarrow> nat set" where
  "call_held (RCall i r) = {i}"
| "call_held _ = {}"

fun send_held :: "reader_pc \<Rightarrow> nat set" where
  "send_held (RSend i r) = {i}"
| "send_held _ = {}"

definition link_env :: "SessionCore \<Rightarrow> nat set \<Rightarrow> table_env" where
  "link_env s held = \<lparr>te_wire = set (sc_wire s), te_writing = writing_keys (sc_writer s),
     te_closed = sc_close_requested s, te_held = held\<rparr>"

definition tables_ok :: "SessionCore \<Rightarrow> bool" where
  "tables_ok s \<longleftrightarrow> table_inv (link_env s (call_held (sc_reader s))) (sc_call_pcs s) (sc_calls s)
     \<and> table_inv (link_env s (send_held (sc_reader s))) (sc_send_pcs s) (sc_sends s)
     \<and> all_keys (sc_calls s) \<inter> all_keys (sc_sends s) = {}
     \<and> (3 \<le> kill_rank (sc_killer s) \<longrightarrow> sc_close_requested s)
     \<and> (4 \<le> kill_rank (sc_killer s) \<longrightarrow> pt_map (sc_calls s) = [] \<and> pt_map (sc_sends s) = [])"

definition link_inv :: "ClientOptions \<Rightarrow> SessionCore \<Rightarrow> bool" where
  "link_inv opts s \<longleftrightarrow> out_core opts s \<and> callers_ok s \<and> seal_ok s \<and> tables_ok s"

lemmas link_parts = link_inv_def tables_ok_def link_env_def seal_ok_def callers_ok_def

lemma sc_init_fields [simp]:
  "lo_q (sc_init epoch peer) = (\<lambda>_. [])" "lo_lanes (sc_init epoch peer) = (\<lambda>_. default_TrafficStats)"
  "lo_outstanding (sc_init epoch peer) = 0" "lo_sealed (sc_init epoch peer) = False" "lo_dead (sc_init epoch peer) = False"
  "sc_settles (sc_init epoch peer) = []" "sc_calls (sc_init epoch peer) = pt_init" "sc_sends (sc_init epoch peer) = pt_init"
  "sc_close_requested (sc_init epoch peer) = False" "sc_writer (sc_init epoch peer) = WIdle"
  "sc_reader (sc_init epoch peer) = RIdle" "sc_killer (sc_init epoch peer) = KAlive"
  "sc_call_pcs (sc_init epoch peer) = []" "sc_send_pcs (sc_init epoch peer) = []" "sc_wire (sc_init epoch peer) = []"
  "sc_epoch (sc_init epoch peer) = epoch"
  by (simp_all add: sc_init_def lo_init_def LinkOut.extend_def)

lemma link_inv_init: "link_inv opts (sc_init epoch peer)"
  by (simp add: link_parts out_core_def lanes_ok_def default_TrafficStats_def live_items_def queued_items_def
      table_inv_init all_keys_def) (simp add: pt_init_def)

lemma find_all_keys: "pt_ok t \<Longrightarrow> pt_find key t = Some i \<Longrightarrow> key \<in> all_keys t"
  using pt_okD(1,3) [of t key i] by (auto simp: pt_ok_find all_keys_def)

text \<open>With disjoint tables, looking in the calls first and in the sends otherwise is the same as looking in
  both.\<close>

lemma find_None_other:
  assumes "pt_ok t" "pt_ok u" "all_keys t \<inter> all_keys u = {}" "pt_find key t \<noteq> None"
  shows "pt_find key u = None"
  using assms(3,4) find_all_keys [OF assms(1)] find_all_keys [OF assms(2)] by (metis disjoint_iff not_None_eq)

lemma find_empty_key: "table_inv env pcs t \<Longrightarrow> pt_find [] t = None"
proof -
  assume inv: "table_inv env pcs t"
  have "i < length (pt_objs t) \<Longrightarrow> pd_key (pt_objs t ! i) \<noteq> []" for i
    using table_invD(4) [OF inv] by (simp add: object_inv_def)
  then show ?thesis using table_invD(1) [OF inv] pt_okD(1,3) [of t "[]"]
    by (cases "pt_find [] t") (auto simp: pt_ok_find)
qed

lemma mark_committed_both:
  assumes "tables_ok s"
  shows "mark_committed key s = s\<lparr>sc_calls := pt_commit key (sc_calls s), sc_sends := pt_commit key (sc_sends s)\<rparr>"
proof -
  note inv = assms [unfolded tables_ok_def]
  have ok: "pt_ok (sc_calls s)" "pt_ok (sc_sends s)" "all_keys (sc_calls s) \<inter> all_keys (sc_sends s) = {}"
    using inv table_invD(1) by blast+
  have empty: "pt_find [] (sc_calls s) = None" "pt_find [] (sc_sends s) = None" using inv find_empty_key by blast+
  show ?thesis
    using find_None_other [OF ok, of key] empty
    by (cases "pt_find key (sc_calls s)") (auto simp: mark_committed_def pt_commit_def split: option.split)
qed

lemma FailItemPending_both:
  assumes "tables_ok s"
  shows "FailItemPending item e s = s\<lparr>sc_calls := pt_settle ByWriter (oi_key item) (Inl e) (sc_calls s),
    sc_sends := pt_settle ByWriter (oi_key item) (Inl e) (sc_sends s)\<rparr>"
proof -
  note inv = assms [unfolded tables_ok_def]
  have ok: "pt_ok (sc_calls s)" "pt_ok (sc_sends s)" "all_keys (sc_calls s) \<inter> all_keys (sc_sends s) = {}"
    using inv table_invD(1) by blast+
  have empty: "pt_find [] (sc_calls s) = None" "pt_find [] (sc_sends s) = None" using inv find_empty_key by blast+
  show ?thesis
    using find_None_other [OF ok, of "oi_key item"] empty
    by (cases "pt_find (oi_key item) (sc_calls s)") (auto simp: FailItemPending_def pt_settle_def split: option.split)
qed

end
