(* ===== verification/LinkSteps.thy ===== *)
theory LinkSteps
  imports LinkInvariant
begin

text \<open>
  Every step of a link keeps the invariant of \<open>LinkInvariant\<close>: the callers' critical sections, the writer's, the
  reader's dispatch, and the stages of \<^verbatim>\<open>Kill\<close>, in any order.
\<close>

section \<open>The parts\<close>

lemma link_invD:
  assumes "link_inv opts s"
  shows "out_core opts s" "callers_ok s" "seal_ok s" "tables_ok s"
  using assms by (simp_all add: link_inv_def)

lemma tables_okD:
  assumes "tables_ok s"
  shows "table_inv (link_env s (call_held (sc_reader s))) (sc_call_pcs s) (sc_calls s)"
    "table_inv (link_env s (send_held (sc_reader s))) (sc_send_pcs s) (sc_sends s)"
    "all_keys (sc_calls s) \<inter> all_keys (sc_sends s) = {}" "pt_ok (sc_calls s)" "pt_ok (sc_sends s)"
    "length (sc_call_pcs s) = length (pt_objs (sc_calls s))" "length (sc_send_pcs s) = length (pt_objs (sc_sends s))"
  using assms table_invD(1,2) by (auto simp: tables_ok_def)

text \<open>What the parts look at.\<close>

lemma out_core_eq:
  assumes "lo_q t = lo_q s" "lo_lanes t = lo_lanes s" "lo_outstanding t = lo_outstanding s"
    and "writer_item (sc_writer t) = writer_item (sc_writer s)" "sc_settles t = sc_settles s"
  shows "out_core opts t \<longleftrightarrow> out_core opts s"
  using assms live_items_cong [OF assms(1,4)] by (simp add: out_core_def lanes_ok_def)

lemma seal_ok_eq:
  assumes "lo_q t = lo_q s" "lo_sealed t = lo_sealed s" "lo_dead t = lo_dead s" "sc_killer t = sc_killer s"
  shows "seal_ok t \<longleftrightarrow> seal_ok s"
  using assms by (simp add: seal_ok_def queued_items_def)

lemma tables_ok_eq:
  assumes "sc_calls t = sc_calls s" "sc_sends t = sc_sends s" "sc_call_pcs t = sc_call_pcs s" "sc_send_pcs t = sc_send_pcs s"
    "sc_reader t = sc_reader s" "sc_wire t = sc_wire s" "writing_keys (sc_writer t) = writing_keys (sc_writer s)"
    "sc_close_requested t = sc_close_requested s" "sc_killer t = sc_killer s"
  shows "tables_ok t \<longleftrightarrow> tables_ok s"
  using assms by (simp add: tables_ok_def link_env_def)

lemma callers_ok_eq:
  "sc_call_pcs t = sc_call_pcs s \<Longrightarrow> sc_send_pcs t = sc_send_pcs s \<Longrightarrow> callers_ok t \<longleftrightarrow> callers_ok s"
  by (simp add: callers_ok_def)

lemma link_inv_seq: "link_inv opts s \<Longrightarrow> link_inv opts (s\<lparr>sc_seq_counter := n\<rparr>)"
  using out_core_eq [of "s\<lparr>sc_seq_counter := n\<rparr>" s] seal_ok_eq [of "s\<lparr>sc_seq_counter := n\<rparr>" s]
    tables_ok_eq [of "s\<lparr>sc_seq_counter := n\<rparr>" s] callers_ok_eq [of "s\<lparr>sc_seq_counter := n\<rparr>" s]
  by (simp add: link_inv_def)

lemma used_keys_seq [simp]: "used_keys (s\<lparr>sc_seq_counter := n\<rparr>) = used_keys s"
  by (simp add: used_keys_def live_items_def queued_items_def)

lemma link_inv_stats: "link_inv opts s \<Longrightarrow> keeps_gauges f \<Longrightarrow> link_inv opts (lane_stats l f s)"
  using out_core_stats [of opts s f l] seal_ok_eq [of "lane_stats l f s" s]
    tables_ok_eq [of "lane_stats l f s" s] callers_ok_eq [of "lane_stats l f s" s]
  by (simp add: link_inv_def)

lemma link_inv_enqueue:
  assumes "ClientOptions_Validate opts = Inr ()" "link_inv opts s" "plain_item item" "Enqueue opts item s = (r, t)"
  shows "link_inv opts t"
proof -
  have same: "LinkOut.more t = LinkOut.more s" "lo_sealed t = lo_sealed s" "lo_dead t = lo_dead s"
    "lo_sealed s \<longrightarrow> lo_q t = lo_q s"
    using assms(4) Enqueue_Inl(1,4,5,7) [of opts item s _ t] Enqueue_Inr(4-6,9) [of opts item s t] by (cases r; auto)+
  have "seal_ok t"
    using link_invD(3) [OF assms(2)] same(2-4) more_fields(11) [OF same(1)] by (auto simp: seal_ok_def queued_items_def)
  then show ?thesis
    using assms(2) out_core_enqueue [OF assms(1) _ assms(3,4)] tables_ok_eq [of t s] callers_ok_eq [of t s]
      more_fields [OF same(1)] by (simp add: link_inv_def)
qed

lemma EncodeFramed_length:
  "EncodeFramedSessionFrame serialize f m = Inr bs \<Longrightarrow> length bs < 2 ^ 63"
  by (auto simp: EncodeFramedSessionFrame_def FrameByteLimit_def kRpcV2MaxFrameBytes_def kRpcV2HelloMaxFrameBytes_def
      length_EncodeFramePrefix split: if_splits sum.splits)

lemma frame_ok_ids:
  "frame_ok f \<Longrightarrow> sf_kind f = FkCall \<Longrightarrow> sf_request_id f \<noteq> []" "frame_ok f \<Longrightarrow> sf_kind f = FkSend \<Longrightarrow> sf_message_id f \<noteq> []"
  by (simp_all add: frame_ok_def Let_def)

lemma request_item_ok:
  assumes "request_item serialize opts now deadline kind acceptance epoch r = Inr item" "kind \<in> {FkCall, FkSend}"
  shows "plain_item item" "oi_key item \<noteq> []"
proof -
  from assms(1) obtain budget f bs where parts: "ToSessionFrame r kind epoch budget acceptance = Inr f"
    "EncodeFramedSessionFrame serialize f (co_max_frame_bytes opts) = Inr bs" "oi_bytes item = bs" "oi_settle item = None"
    "oi_key item = (if kind = FkCall then rq_request_id r else rq_message_id r)"
    by (auto simp: request_item_def split: sum.splits)
  show "plain_item item" using EncodeFramed_length [OF parts(2)] parts(3,4) by (simp add: plain_item_def item_ok_def)
  have ok: "frame_ok f" "sf_kind f = kind" using ToSessionFrame_Inr(1,3) [OF parts(1)] .
  have ids: "sf_request_id f = rq_request_id r" "sf_message_id f = rq_message_id r"
    using parts(1) by (auto simp: ToSessionFrame_def Let_def split: if_splits)
  show "oi_key item \<noteq> []"
    using frame_ok_ids [OF ok(1)] ok(2) assms(2) ids parts(5) by (auto split: if_splits)
qed

lemma PrepareCall_ok:
  assumes "PrepareCall serialize opts now deadline r s = (Inr (x, item), s1)"
  shows "plain_item item" "oi_key item \<noteq> []" "\<exists>n. s1 = s\<lparr>sc_seq_counter := n\<rparr>"
proof -
  obtain rid where fresh: "fresh_id ''r'' (rq_request_id r) s = (rid, s1)"
    and made: "request_item serialize opts now deadline FkCall None (sc_epoch s) (r\<lparr>rq_request_id := rid\<rparr>) = Inr item"
    using assms by (auto simp: PrepareCall_def Let_def split: prod.splits sum.splits)
  show "plain_item item" "oi_key item \<noteq> []" using request_item_ok [OF made] by auto
  show "\<exists>n. s1 = s\<lparr>sc_seq_counter := n\<rparr>"
    using fresh by (cases s) (auto simp: fresh_id_def split: if_splits)
qed

lemma PrepareSend_ok:
  assumes "PrepareSend serialize opts now send r s = (Inr item, s1)"
  shows "plain_item item" "oi_key item \<noteq> []" "\<exists>n. s1 = s\<lparr>sc_seq_counter := n\<rparr>"
proof -
  obtain mid where fresh: "fresh_id ''m'' (rq_message_id r) s = (mid, s1)"
    and made: "request_item serialize opts now (so_deadline send) FkSend
      (if so_require_remote_acceptance send then Some True else None) (sc_epoch s) (r\<lparr>rq_message_id := mid\<rparr>) = Inr item"
    using assms by (auto simp: PrepareSend_def Let_def split: prod.splits)
  show "plain_item item" "oi_key item \<noteq> []" using request_item_ok [OF made] by auto
  show "\<exists>n. s1 = s\<lparr>sc_seq_counter := n\<rparr>"
    using fresh by (cases s) (auto simp: fresh_id_def split: if_splits)
qed

lemma used_keysD:
  assumes "key \<notin> used_keys s"
  shows "key \<notin> all_keys (sc_calls s)" "key \<notin> all_keys (sc_sends s)" "key \<notin> set (sc_wire s) \<union> writing_keys (sc_writer s)"
  using assms by (cases "sc_writer s"; auto simp: used_keys_def live_items_def)+

lemma rank_alive: "seal_ok s \<Longrightarrow> \<not> lo_dead s \<Longrightarrow> sc_killer s = KAlive"
  by (cases "sc_killer s") (auto simp: seal_ok_def)

lemma link_inv_call_register:
  assumes "link_inv opts s" "plain_item item" "oi_key item \<noteq> []" "oi_key item \<notin> used_keys s"
  shows "link_inv opts (snd (CallRegister x item s))"
proof (cases "\<not> lo_dead s \<and> pt_find (oi_key item) (sc_calls s) = None")
  case True
  let ?t = "snd (CallRegister x item s)"
  have t: "?t = s\<lparr>sc_calls := pt_insert (oi_key item) x (sc_calls s), sc_call_pcs := sc_call_pcs s @ [CpRegistered item]\<rparr>"
    using True by (simp add: CallRegister_def)
  note keys = used_keysD [OF assms(4)]
  note tab = tables_okD [OF link_invD(4) [OF assms(1)]]
  have "table_inv (link_env s (call_held (sc_reader s))) (sc_call_pcs s @ [CpRegistered item]) (pt_insert (oi_key item) x (sc_calls s))"
    using keys assms(3) by (intro table_inv_insert [OF tab(1)]) (simp_all add: link_env_def)
  then have "tables_ok ?t"
    using tab(2,3) keys(2) rank_alive [OF link_invD(3) [OF assms(1)]] True by (simp add: tables_ok_def t link_env_def)
  moreover have "callers_ok ?t" using link_invD(2) [OF assms(1)] assms(2) by (auto simp: t callers_ok_def)
  ultimately show ?thesis
    using assms(1) out_core_eq [of ?t s] seal_ok_eq [of ?t s] by (simp add: link_inv_def t)
next
  case False
  then show ?thesis using assms(1) by (auto simp: CallRegister_def)
qed

lemma link_inv_send_register:
  assumes "link_inv opts s" "plain_item item" "oi_key item \<noteq> []" "oi_key item \<notin> used_keys s"
  shows "link_inv opts (snd (SendRegister item s))"
proof (cases "\<not> lo_dead s \<and> pt_find (oi_key item) (sc_sends s) = None")
  case True
  let ?t = "snd (SendRegister item s)"
  have t: "?t = s\<lparr>sc_sends := pt_insert (oi_key item) () (sc_sends s), sc_send_pcs := sc_send_pcs s @ [CpRegistered item]\<rparr>"
    using True by (simp add: SendRegister_def)
  note keys = used_keysD [OF assms(4)]
  note tab = tables_okD [OF link_invD(4) [OF assms(1)]]
  have "table_inv (link_env s (send_held (sc_reader s))) (sc_send_pcs s @ [CpRegistered item]) (pt_insert (oi_key item) () (sc_sends s))"
    using keys assms(3) by (intro table_inv_insert [OF tab(2)]) (simp_all add: link_env_def)
  then have "tables_ok ?t"
    using tab(1,3) keys(1) rank_alive [OF link_invD(3) [OF assms(1)]] True by (simp add: tables_ok_def t link_env_def)
  moreover have "callers_ok ?t" using link_invD(2) [OF assms(1)] assms(2) by (auto simp: t callers_ok_def)
  ultimately show ?thesis
    using assms(1) out_core_eq [of ?t s] seal_ok_eq [of ?t s] by (simp add: link_inv_def t)
next
  case False
  then show ?thesis using assms(1) by (auto simp: SendRegister_def)
qed

lemma callers_ok_pc:
  assumes "callers_ok s" "registered_item pc = None"
  shows "callers_ok (s\<lparr>sc_call_pcs := (sc_call_pcs s)[i := pc]\<rparr>)"
  using assms set_update_subset_insert [of "sc_call_pcs s" i pc] unfolding callers_ok_def by (auto simp: subset_iff)

lemma callers_ok_send_pc:
  assumes "callers_ok s" "registered_item pc = None"
  shows "callers_ok (s\<lparr>sc_send_pcs := (sc_send_pcs s)[i := pc]\<rparr>)"
  using assms set_update_subset_insert [of "sc_send_pcs s" i pc] unfolding callers_ok_def by (auto simp: subset_iff)

lemma gave_up_unregistered: "gave_up pc \<Longrightarrow> registered_item pc = None"
  by (cases pc) auto

lemma link_inv_call_pc:
  assumes "link_inv opts s" "i < length (sc_call_pcs s)" "\<not> gave_up (sc_call_pcs s ! i)" "registered_item pc = None"
  shows "link_inv opts (s\<lparr>sc_call_pcs := (sc_call_pcs s)[i := pc]\<rparr>)" (is "link_inv opts ?t")
proof -
  note tab = tables_okD [OF link_invD(4) [OF assms(1)]]
  have "table_inv (link_env s (call_held (sc_reader s))) ((sc_call_pcs s)[i := pc]) (sc_calls s)"
    using assms(2-4) by (intro table_inv_pc [OF tab(1)]) auto
  then have "tables_ok ?t" using link_invD(4) [OF assms(1)] by (simp add: tables_ok_def link_env_def)
  moreover have "callers_ok ?t"
    using callers_ok_pc [OF link_invD(2) [OF assms(1)] assms(4)] .
  ultimately show ?thesis using assms(1) out_core_eq [of ?t s] seal_ok_eq [of ?t s] by (simp add: link_inv_def)
qed

lemma link_inv_send_pc:
  assumes "link_inv opts s" "i < length (sc_send_pcs s)" "\<not> gave_up (sc_send_pcs s ! i)" "registered_item pc = None"
  shows "link_inv opts (s\<lparr>sc_send_pcs := (sc_send_pcs s)[i := pc]\<rparr>)" (is "link_inv opts ?t")
proof -
  note tab = tables_okD [OF link_invD(4) [OF assms(1)]]
  have "table_inv (link_env s (send_held (sc_reader s))) ((sc_send_pcs s)[i := pc]) (sc_sends s)"
    using assms(2-4) by (intro table_inv_pc [OF tab(2)]) auto
  then have "tables_ok ?t" using link_invD(4) [OF assms(1)] by (simp add: tables_ok_def link_env_def)
  moreover have "callers_ok ?t"
    using callers_ok_send_pc [OF link_invD(2) [OF assms(1)] assms(4)] .
  ultimately show ?thesis using assms(1) out_core_eq [of ?t s] seal_ok_eq [of ?t s] by (simp add: link_inv_def)
qed

lemma link_inv_call_drop:
  assumes "link_inv opts s" "i < length (sc_call_pcs s)" "key = pd_key (pt_objs (sc_calls s) ! i)" "gave_up pc"
  shows "link_inv opts (s\<lparr>sc_calls := pt_erase key (sc_calls s), sc_call_pcs := (sc_call_pcs s)[i := pc]\<rparr>)" (is "link_inv opts ?t")
proof -
  note tab = tables_okD [OF link_invD(4) [OF assms(1)]]
  have "table_inv (link_env s (call_held (sc_reader s))) ((sc_call_pcs s)[i := pc]) (pt_erase key (sc_calls s))"
    using assms(2-4) by (intro table_inv_give_up [OF tab(1)]) auto
  then have "tables_ok ?t"
    using link_invD(4) [OF assms(1)] by (auto simp: tables_ok_def link_env_def pt_erase_def all_keys_def)
  moreover have "callers_ok ?t"
    using callers_ok_pc [OF link_invD(2) [OF assms(1)] gave_up_unregistered [OF assms(4)]]
    by (simp add: callers_ok_def)
  ultimately show ?thesis using assms(1) out_core_eq [of ?t s] seal_ok_eq [of ?t s] by (simp add: link_inv_def)
qed

lemma link_inv_send_drop:
  assumes "link_inv opts s" "i < length (sc_send_pcs s)" "key = pd_key (pt_objs (sc_sends s) ! i)" "gave_up pc"
  shows "link_inv opts (s\<lparr>sc_sends := pt_erase key (sc_sends s), sc_send_pcs := (sc_send_pcs s)[i := pc]\<rparr>)" (is "link_inv opts ?t")
proof -
  note tab = tables_okD [OF link_invD(4) [OF assms(1)]]
  have "table_inv (link_env s (send_held (sc_reader s))) ((sc_send_pcs s)[i := pc]) (pt_erase key (sc_sends s))"
    using assms(2-4) by (intro table_inv_give_up [OF tab(2)]) auto
  then have "tables_ok ?t"
    using link_invD(4) [OF assms(1)] by (auto simp: tables_ok_def link_env_def pt_erase_def all_keys_def)
  moreover have "callers_ok ?t"
    using callers_ok_send_pc [OF link_invD(2) [OF assms(1)] gave_up_unregistered [OF assms(4)]]
    by (simp add: callers_ok_def)
  ultimately show ?thesis using assms(1) out_core_eq [of ?t s] seal_ok_eq [of ?t s] by (simp add: link_inv_def)
qed

lemma registered_call:
  assumes "link_inv opts s" "i < length (sc_call_pcs s)" "sc_call_pcs s ! i = CpRegistered item"
  shows "plain_item item" "oi_key item = pd_key (pt_objs (sc_calls s) ! i)"
proof -
  note tab = tables_okD [OF link_invD(4) [OF assms(1)]]
  show "plain_item item"
    using link_invD(2) [OF assms(1)] nth_mem [OF assms(2)] assms(3) by (auto simp: callers_ok_def)
  show "oi_key item = pd_key (pt_objs (sc_calls s) ! i)"
    using table_invD(4) [OF tab(1), of i] assms(2,3) tab(6) by (simp add: object_inv_def)
qed

lemma registered_send:
  assumes "link_inv opts s" "i < length (sc_send_pcs s)" "sc_send_pcs s ! i = CpRegistered item"
  shows "plain_item item" "oi_key item = pd_key (pt_objs (sc_sends s) ! i)"
proof -
  note tab = tables_okD [OF link_invD(4) [OF assms(1)]]
  show "plain_item item"
    using link_invD(2) [OF assms(1)] nth_mem [OF assms(2)] assms(3) by (auto simp: callers_ok_def)
  show "oi_key item = pd_key (pt_objs (sc_sends s) ! i)"
    using table_invD(4) [OF tab(2), of i] assms(2,3) tab(7) by (simp add: object_inv_def)
qed

lemma Enqueue_more: "Enqueue opts item s = (r, t) \<Longrightarrow> LinkOut.more t = LinkOut.more s"
  using Enqueue_Inr(9) Enqueue_Inl(7) by (cases r) auto

lemma gave_up_after_refusal: "gave_up (after_refusal e t)"
  by (simp add: after_refusal_def)

lemma link_inv_call_submit:
  assumes "ClientOptions_Validate opts = Inr ()" "link_inv opts s" "i < length (sc_call_pcs s)" "sc_call_pcs s ! i = CpRegistered item"
  shows "link_inv opts (CallSubmit opts i item s)"
proof -
  let ?s = "lane_stats (LaneIndex (oi_lane item)) (inflight_add 1) s"
  obtain r t where put: "Enqueue opts item ?s = (r, t)" by fastforce
  have inv: "link_inv opts ?s" using assms(2) by (simp add: link_inv_stats)
  have t: "link_inv opts t" using link_inv_enqueue [OF assms(1) inv registered_call(1) [OF assms(2-4)] put] .
  note same = more_fields [OF Enqueue_more [OF put]]
  show ?thesis
  proof (cases r)
    case (Inl e)
    let ?u = "lane_stats (LaneIndex (oi_lane item)) (inflight_add (- 1)) t"
    have "link_inv opts (?u\<lparr>sc_calls := pt_erase (oi_key item) (sc_calls ?u), sc_call_pcs := (sc_call_pcs ?u)[i := after_refusal e t]\<rparr>)"
      using same assms(3) registered_call(2) [OF assms(2-4)]
      by (intro link_inv_call_drop link_inv_stats [OF t]) (simp_all add: gave_up_after_refusal)
    then show ?thesis using put Inl by (simp add: CallSubmit_def)
  next
    case (Inr x)
    then show ?thesis using put link_inv_call_pc [OF t, of i CpWaiting] same assms(3,4) by (simp add: CallSubmit_def)
  qed
qed

lemma link_inv_send_submit:
  assumes "ClientOptions_Validate opts = Inr ()" "link_inv opts s" "i < length (sc_send_pcs s)" "sc_send_pcs s ! i = CpRegistered item"
  shows "link_inv opts (SendSubmit opts i item s)"
proof -
  let ?s = "lane_stats (LaneIndex (oi_lane item)) (inflight_add 1) s"
  obtain r t where put: "Enqueue opts item ?s = (r, t)" by fastforce
  have inv: "link_inv opts ?s" using assms(2) by (simp add: link_inv_stats)
  have t: "link_inv opts t" using link_inv_enqueue [OF assms(1) inv registered_send(1) [OF assms(2-4)] put] .
  note same = more_fields [OF Enqueue_more [OF put]]
  show ?thesis
  proof (cases r)
    case (Inl e)
    let ?u = "lane_stats (LaneIndex (oi_lane item)) (inflight_add (- 1)) t"
    have "link_inv opts (?u\<lparr>sc_sends := pt_erase (oi_key item) (sc_sends ?u), sc_send_pcs := (sc_send_pcs ?u)[i := after_refusal e t]\<rparr>)"
      using same assms(3) registered_send(2) [OF assms(2-4)]
      by (intro link_inv_send_drop link_inv_stats [OF t]) (simp_all add: gave_up_after_refusal)
    then show ?thesis using put Inl by (simp add: SendSubmit_def)
  next
    case (Inr x)
    then show ?thesis using put link_inv_send_pc [OF t, of i CpWaiting] same assms(3,4) by (simp add: SendSubmit_def)
  qed
qed

lemma link_inv_send_local:
  assumes "ClientOptions_Validate opts = Inr ()" "link_inv opts s" "plain_item item"
  shows "link_inv opts (snd (SendLocal opts item s))"
proof -
  obtain r t where put: "Enqueue opts item (lane_stats (LaneIndex (oi_lane item)) (inflight_add 1) s) = (r, t)" by fastforce
  have "link_inv opts t" using link_inv_enqueue [OF assms(1) link_inv_stats [OF assms(2)] assms(3) put] by simp
  then show ?thesis using put by (cases r) (simp_all add: SendLocal_def link_inv_stats)
qed

lemma link_inv_call_complete:
  assumes "link_inv opts s" "i < length (sc_call_pcs s)" "sc_call_pcs s ! i = CpWaiting"
  shows "link_inv opts (CallComplete i c s)"
  using link_inv_call_pc [OF link_inv_stats [OF assms(1), of call_finished "LaneIndex c"], of i] assms(2,3)
  by (simp add: CallComplete_def)

lemma link_inv_send_complete:
  assumes "link_inv opts s" "i < length (sc_send_pcs s)" "sc_send_pcs s ! i = CpWaiting"
  shows "link_inv opts (SendComplete i c s)"
  using link_inv_send_pc [OF link_inv_stats [OF assms(1), of call_finished "LaneIndex c"], of i] assms(2,3)
  by (simp add: SendComplete_def)

lemma link_inv_call_give_up:
  assumes "link_inv opts s" "i < length (sc_call_pcs s)"
  shows "link_inv opts (CallGiveUp i c status s)"
  using link_inv_call_drop [OF link_inv_stats [OF assms(1), of call_dropped "LaneIndex c"], of i] assms(2)
  by (simp add: CallGiveUp_def Let_def)

lemma link_inv_send_give_up:
  assumes "link_inv opts s" "i < length (sc_send_pcs s)"
  shows "link_inv opts (SendGiveUp i c status s)"
  using link_inv_send_drop [OF link_inv_stats [OF assms(1), of call_dropped "LaneIndex c"], of i] assms(2)
  by (simp add: SendGiveUp_def Let_def)

section \<open>Replies and the writer\<close>

lemma post_frame_plain: "post_frame serialize opts deadline f = Some item \<Longrightarrow> plain_item item"
  using EncodeFramed_length by (auto simp: post_frame_def plain_item_def item_ok_def split: sum.splits)

lemma Enqueue_out_fields:
  assumes "Enqueue opts item s = (r, t)"
  shows "LinkOut.more t = LinkOut.more s" "lo_sealed t = lo_sealed s" "lo_dead t = lo_dead s" "lo_sealed s \<Longrightarrow> lo_q t = lo_q s"
  using assms Enqueue_Inl(1,4,5,7) [of opts item s _ t] Enqueue_Inr(4-6,9) [of opts item s t] by (cases r; auto)+

lemma link_inv_reply:
  assumes "ClientOptions_Validate opts = Inr ()" "link_inv opts s" "item_ok item"
  shows "link_inv opts (snd (post_reply opts item s))"
proof -
  obtain r t where reply: "post_reply opts item s = (r, t)" by fastforce
  obtain q u where put: "Enqueue opts (item\<lparr>oi_settle := Some (length (sc_settles s))\<rparr>) s = (q, u)" by fastforce
  note same = Enqueue_out_fields [OF put]
  have core: "out_core opts t" using out_core_reply [OF assms(1) _ assms(3) reply] assms(2) by (simp add: link_inv_def)
  have "t = u \<or> t = u\<lparr>sc_settles := sc_settles u @ [None]\<rparr>"
    using reply put by (auto simp: post_reply_def split: sum.splits)
  then have "link_inv opts t"
    using core link_invD(2-4) [OF assms(2)] same more_fields [OF same(1)] tables_ok_eq [of t s] callers_ok_eq [of t s]
    by (auto simp: link_inv_def seal_ok_def queued_items_def)
  then show ?thesis using reply by simp
qed

lemma link_inv_writer:
  assumes "link_inv opts s" "writer_item pc = writer_item (sc_writer s)" "writing_keys pc = writing_keys (sc_writer s)"
  shows "link_inv opts (s\<lparr>sc_writer := pc\<rparr>)"
  using assms out_core_eq [of "s\<lparr>sc_writer := pc\<rparr>" s] seal_ok_eq [of "s\<lparr>sc_writer := pc\<rparr>" s]
    tables_ok_eq [of "s\<lparr>sc_writer := pc\<rparr>" s] callers_ok_eq [of "s\<lparr>sc_writer := pc\<rparr>" s]
  by (simp add: link_inv_def)

lemma link_inv_take:
  assumes "link_inv opts s" "sc_writer s = WIdle"
  shows "link_inv opts (writer_take opts s)"
proof -
  obtain r t where deq: "Dequeue opts s = (r, t)" by fastforce
  show ?thesis
  proof (cases r)
    case None
    then have t: "t = reload_credit opts s" using Dequeue_None deq by blast
    have same: "LinkOut.more t = LinkOut.more s" "lo_q t = lo_q s" "lo_lanes t = lo_lanes s" "lo_outstanding t = lo_outstanding s"
      "lo_sealed t = lo_sealed s" "lo_dead t = lo_dead s" unfolding t by (simp_all add: reload_credit_def Let_def)
    have "link_inv opts t"
      using assms(1) out_core_eq [of t s] seal_ok_eq [of t s] tables_ok_eq [of t s] callers_ok_eq [of t s]
        same(2-) more_fields [OF same(1)] by (simp add: link_inv_def)
    moreover have "sc_writer t = WIdle" using more_fields(9) [OF same(1)] assms(2) by simp
    ultimately show ?thesis using deq None link_inv_writer [of opts t WExited] by (simp add: writer_take_def)
  next
    case (Some item)
    then obtain lane where from_lane: "dequeued_from lane item s t" using Dequeue_Some deq by blast
    then have same: "LinkOut.more t = LinkOut.more s" "lo_sealed t = lo_sealed s" "lo_dead t = lo_dead s"
      "lane < 3" "lo_q s lane \<noteq> []" by (auto simp: dequeued_from_def)
    have live: "\<not> lo_sealed s"
      using link_invD(3) [OF assms(1)] same(4,5) by (auto simp: seal_ok_def queued_items_def less_Suc_eq numeral_3_eq_3 numeral_2_eq_2)
    have "out_core opts (t\<lparr>sc_writer := WHolding item\<rparr>)"
      using holding_taken(2) [OF link_invD(1) [OF assms(1)] from_lane] assms(2) by simp
    then have "link_inv opts (t\<lparr>sc_writer := WHolding item\<rparr>)"
      using link_invD(2-4) [OF assms(1)] same(1-3) live more_fields [OF same(1)] assms(2)
        tables_ok_eq [of "t\<lparr>sc_writer := WHolding item\<rparr>" s] callers_ok_eq [of "t\<lparr>sc_writer := WHolding item\<rparr>" s]
      by (simp add: link_inv_def seal_ok_def)
    then show ?thesis using deq Some by (simp add: writer_take_def)
  qed
qed

lemma all_keys_settling [simp]:
  "all_keys (pt_commit key t) = all_keys t"
  "all_keys (pt_settle cause key r t) = all_keys t" "all_keys (pt_publish cause i r t) = all_keys t"
  "pt_ok t \<Longrightarrow> all_keys (pt_fail_all f t) = all_keys t"
proof -
  have upd: "pd_key ` set (xs[i := p]) = pd_key ` set xs" if "pd_key p = pd_key (xs ! i)" for i p and xs :: "('o, 'x) Pending list"
  proof -
    have "map pd_key (xs[i := p]) = map pd_key xs"
      by (cases "i < length xs") (simp_all add: map_update list_update_same_conv list_update_beyond that)
    then show ?thesis by (metis list.set_map)
  qed
  show "all_keys (pt_commit key t) = all_keys t"
    "all_keys (pt_settle cause key r t) = all_keys t" "all_keys (pt_publish cause i r t) = all_keys t"
    by (auto simp: all_keys_def pt_commit_def pt_settle_def pt_publish_def pt_erase_def settled_def upd split: option.split)
  assume ok: "pt_ok t"
  have "map pd_key (pt_objs (pt_fail_all f t)) = map pd_key (pt_objs t)"
    using pt_fail_all_objs(1) [of f t] pt_fail_all_objs(2) [OF ok, of _ f] by (intro nth_equalityI) (auto simp: settled_def)
  then show "all_keys (pt_fail_all f t) = all_keys t" unfolding all_keys_def by (metis list.set_map)
qed

lemma link_inv_gate:
  assumes "link_inv opts s" "sc_writer s = WHolding item"
  shows "link_inv opts (writer_gate gate item s)"
proof (cases gate)
  case (Inl e)
  then show ?thesis using link_inv_writer [OF assms(1), of "WSettling item (Some e)"] assms(2) by (simp add: writer_gate_def)
next
  case (Inr u)
  let ?t = "writer_gate gate item s" and ?k = "oi_key item"
  have t: "?t = s\<lparr>sc_calls := pt_commit ?k (sc_calls s), sc_sends := pt_commit ?k (sc_sends s), sc_writer := WWriting item\<rparr>"
    using Inr mark_committed_both [OF link_invD(4) [OF assms(1)]] by (simp add: writer_gate_def)
  note tab = tables_okD [OF link_invD(4) [OF assms(1)]]
  have "tables_ok ?t"
    using table_inv_commit [OF tab(1), of ?k] table_inv_commit [OF tab(2), of ?k] link_invD(4) [OF assms(1)] assms(2)
    by (simp add: tables_ok_def link_env_def t)
  then show ?thesis
    using assms out_core_eq [of ?t s] seal_ok_eq [of ?t s] callers_ok_eq [of ?t s] by (simp add: link_inv_def t)
qed

lemma link_inv_accept:
  assumes "link_inv opts s" "sc_writer s = WWriting item" "\<not> sc_close_requested s"
  shows "link_inv opts (writer_accept item s)" (is "link_inv opts ?t")
proof -
  note tab = tables_okD [OF link_invD(4) [OF assms(1)]]
  have "table_inv (link_env ?t (call_held (sc_reader s))) (sc_call_pcs s) (sc_calls s)"
    "table_inv (link_env ?t (send_held (sc_reader s))) (sc_send_pcs s) (sc_sends s)"
    using assms(2,3) by (intro table_inv_env [OF tab(1)] table_inv_env [OF tab(2)]; simp add: link_env_def writer_accept_def)+
  then have "tables_ok ?t" using link_invD(4) [OF assms(1)] by (simp add: tables_ok_def writer_accept_def)
  then show ?thesis
    using assms out_core_eq [of ?t s] seal_ok_eq [of ?t s] callers_ok_eq [of ?t s]
    by (simp add: link_inv_def writer_accept_def)
qed

lemma link_inv_report:
  assumes "link_inv opts s" "writer_item (sc_writer s) = Some item"
  shows "link_inv opts (writer_report r item s)" (is "link_inv opts ?t")
proof -
  note tab = tables_okD [OF link_invD(4) [OF assms(1)]]
  have "table_inv (link_env ?t (call_held (sc_reader s))) (sc_call_pcs s) (sc_calls s)"
    "table_inv (link_env ?t (send_held (sc_reader s))) (sc_send_pcs s) (sc_sends s)"
    by (intro table_inv_env [OF tab(1)] table_inv_env [OF tab(2)]; simp add: link_env_def writer_report_def)+
  then have "tables_ok ?t" using link_invD(4) [OF assms(1)] by (simp add: tables_ok_def writer_report_def)
  then show ?thesis
    using assms out_core_eq [of ?t s] seal_ok_eq [of ?t s] callers_ok_eq [of ?t s]
    by (simp add: link_inv_def writer_report_def)
qed

lemma pt_settle_empty: "pt_map t = [] \<Longrightarrow> pt_map (pt_settle cause key r t) = []"
  by (simp add: pt_settle_def pt_find_def)

lemma link_inv_fail_item:
  assumes "link_inv opts s"
  shows "link_inv opts (FailItemPending item e s)" (is "link_inv opts ?t")
proof -
  note tab = tables_okD [OF link_invD(4) [OF assms(1)]]
  have "tables_ok ?t"
    using table_inv_settle [OF tab(1), of ByWriter "oi_key item" "Inl e"]
      table_inv_settle [OF tab(2), of ByWriter "oi_key item" "Inl e"] link_invD(4) [OF assms(1)]
    by (simp add: tables_ok_def link_env_def FailItemPending_both pt_settle_empty)
  then show ?thesis
    using assms out_core_eq [of ?t s] seal_ok_eq [of ?t s] callers_ok_eq [of ?t s] link_invD(4) [OF assms]
    by (simp add: link_inv_def FailItemPending_both)
qed

lemma link_inv_settle:
  assumes "link_inv opts s" "sc_writer s = WSettling item failure"
  shows "link_inv opts (writer_settle item failure s)"
proof (cases failure)
  case None
  then show ?thesis using link_inv_writer [OF assms(1), of "WNoting item failure"] assms(2) by (simp add: writer_settle_def)
next
  case (Some e)
  have "sc_writer (FailItemPending item e s) = sc_writer s"
    using FailItemPending_both [OF link_invD(4) [OF assms(1)]] by simp
  then show ?thesis
    using link_inv_writer [OF link_inv_fail_item [OF assms(1)], of "WNoting item failure" item e] assms(2) Some
    by (simp add: writer_settle_def)
qed

lemma NoteWriteSettled_writer:
  "(NoteWriteSettled item r s)\<lparr>sc_writer := pc\<rparr> = NoteWriteSettled item r (s\<lparr>sc_writer := pc\<rparr>)"
  by (simp add: NoteWriteSettled_def Let_def split: option.split)

lemma link_inv_note:
  assumes "link_inv opts s" "sc_writer s = WNoting item failure"
  shows "link_inv opts (writer_note item failure s)" (is "link_inv opts ?t")
proof -
  have "out_core opts ?t"
    unfolding writer_note_def NoteWriteSettled_writer
    using holding_writer [OF link_invD(1) [OF assms(1)]] assms(2) by (intro holding_settled) simp
  then show ?thesis
    using assms seal_ok_eq [of ?t s] callers_ok_eq [of ?t s] tables_ok_eq [of ?t s]
    by (simp add: link_inv_def writer_note_def)
qed

section \<open>Kill\<close>

lemma link_inv_kill_begin:
  assumes "link_inv opts s"
  shows "link_inv opts (kill_begin reason s)" (is "link_inv opts ?t")
proof (cases "lo_dead s")
  case False
  have alive: "sc_killer s = KAlive" using rank_alive [OF link_invD(3) [OF assms] False] .
  have "seal_ok ?t" using link_invD(3) [OF assms] False alive by (simp add: kill_begin_def seal_ok_def queued_items_def)
  moreover have "tables_ok ?t"
    using link_invD(4) [OF assms] False alive by (simp add: kill_begin_def tables_ok_def link_env_def)
  ultimately show ?thesis
    using assms False out_core_eq [of ?t s] callers_ok_eq [of ?t s] by (simp add: link_inv_def kill_begin_def)
qed (simp add: kill_begin_def assms)

lemma kill_begin_fields [simp]:
  "sc_writer (kill_begin reason s) = sc_writer s" "sc_reader (kill_begin reason s) = sc_reader s"
  "sc_calls (kill_begin reason s) = sc_calls s" "sc_sends (kill_begin reason s) = sc_sends s"
  by (simp_all add: kill_begin_def)

lemma link_inv_writer_kill:
  assumes "link_inv opts s" "sc_writer s = WKilling"
  shows "link_inv opts (writer_kill s)"
  unfolding writer_kill_def using assms by (intro link_inv_writer link_inv_kill_begin) simp_all

lemma seal_core: "out_core opts s \<Longrightarrow> out_core opts (s\<lparr>lo_sealed := True\<rparr>)"
  using out_core_eq [of "s\<lparr>lo_sealed := True\<rparr>" s] by simp

lemma kill_drain_core:
  assumes "out_core opts s"
  shows "out_core opts (kill_drain reason s)" "queued_items (kill_drain reason s) = []" "lo_sealed (kill_drain reason s)"
    "lo_dead (kill_drain reason s) = lo_dead s" "length (sc_settles (kill_drain reason s)) = length (sc_settles s)"
proof -
  let ?a = "drain_lane 0 (s\<lparr>lo_sealed := True\<rparr>)" and ?b = "drain_lane 1 (drain_lane 0 (s\<lparr>lo_sealed := True\<rparr>))"
  have a: "out_core opts ?a" "lo_q ?a = (lo_q s)(0 := [])" "lo_sealed ?a" "lo_dead ?a = lo_dead s"
    "length (sc_settles ?a) = length (sc_settles s)"
    using drain_lane_core [OF seal_core [OF assms], of 0] by simp_all
  have b: "out_core opts ?b" "lo_q ?b = (lo_q s)(0 := [], 1 := [])" "lo_sealed ?b" "lo_dead ?b = lo_dead s"
    "length (sc_settles ?b) = length (sc_settles s)"
    using drain_lane_core [OF a(1), of 1] a(2-) by simp_all
  have c: "out_core opts (drain_lane 2 ?b)" "lo_q (drain_lane 2 ?b) = (lo_q s)(0 := [], 1 := [], 2 := [])"
    "lo_sealed (drain_lane 2 ?b)" "lo_dead (drain_lane 2 ?b) = lo_dead s"
    "length (sc_settles (drain_lane 2 ?b)) = length (sc_settles s)"
    using drain_lane_core [OF b(1), of 2] b(2-) by simp_all
  show "out_core opts (kill_drain reason s)"
    using c(1) out_core_eq [of "kill_drain reason s" "drain_lane 2 ?b"] by (simp add: kill_drain_def)
  show "queued_items (kill_drain reason s) = []" "lo_sealed (kill_drain reason s)"
    "lo_dead (kill_drain reason s) = lo_dead s" "length (sc_settles (kill_drain reason s)) = length (sc_settles s)"
    using c(2-) by (simp_all add: kill_drain_def queued_items_def)
qed

lemma kill_drain_fields [simp]:
  "sc_calls (kill_drain reason s) = sc_calls s" "sc_sends (kill_drain reason s) = sc_sends s"
  "sc_close_requested (kill_drain reason s) = sc_close_requested s" "sc_writer (kill_drain reason s) = sc_writer s"
  "sc_reader (kill_drain reason s) = sc_reader s" "sc_killer (kill_drain reason s) = KDrained reason"
  "sc_call_pcs (kill_drain reason s) = sc_call_pcs s" "sc_send_pcs (kill_drain reason s) = sc_send_pcs s"
  "sc_wire (kill_drain reason s) = sc_wire s"
  by (simp_all add: kill_drain_def drain_lane_fields)

lemma link_inv_drain:
  assumes "link_inv opts s" "sc_killer s = KDead reason"
  shows "link_inv opts (kill_drain reason s)" (is "link_inv opts ?t")
proof -
  note core = kill_drain_core [OF link_invD(1) [OF assms(1)], of reason]
  have "lo_dead s" using link_invD(3) [OF assms(1)] assms(2) by (simp add: seal_ok_def)
  then have "seal_ok ?t" using core(2-4) by (simp add: seal_ok_def)
  moreover have "tables_ok ?t" using link_invD(4) [OF assms(1)] by (simp add: tables_ok_def link_env_def)
  ultimately show ?thesis using core(1) assms(1) callers_ok_eq [of ?t s] by (simp add: link_inv_def)
qed

lemma link_inv_close:
  assumes "link_inv opts s"
  shows "link_inv opts (s\<lparr>sc_close_requested := True\<rparr>)" (is "link_inv opts ?t")
proof -
  note tab = tables_okD [OF link_invD(4) [OF assms(1)]]
  have "table_inv (link_env ?t (call_held (sc_reader s))) (sc_call_pcs s) (sc_calls s)"
    "table_inv (link_env ?t (send_held (sc_reader s))) (sc_send_pcs s) (sc_sends s)"
    by (intro table_inv_env [OF tab(1)] table_inv_env [OF tab(2)]; simp add: link_env_def)+
  then have "tables_ok ?t" using link_invD(4) [OF assms(1)] by (simp add: tables_ok_def)
  then show ?thesis
    using assms out_core_eq [of ?t s] seal_ok_eq [of ?t s] callers_ok_eq [of ?t s] by (simp add: link_inv_def)
qed

lemma link_inv_killer:
  assumes "link_inv opts s" "2 \<le> kill_rank (sc_killer s)" "2 \<le> kill_rank k" "3 \<le> kill_rank k \<longrightarrow> sc_close_requested s"
    "4 \<le> kill_rank k \<longrightarrow> pt_map (sc_calls s) = [] \<and> pt_map (sc_sends s) = []"
  shows "link_inv opts (s\<lparr>sc_killer := k\<rparr>)" (is "link_inv opts ?t")
proof -
  have "seal_ok ?t" using link_invD(3) [OF assms(1)] assms(2,3) by (simp add: seal_ok_def queued_items_def)
  moreover have "tables_ok ?t" using link_invD(4) [OF assms(1)] assms(4,5) by (simp add: tables_ok_def link_env_def)
  ultimately show ?thesis
    using assms(1) out_core_eq [of ?t s] callers_ok_eq [of ?t s] by (simp add: link_inv_def)
qed

lemma link_inv_kill_close:
  assumes "link_inv opts s" "sc_killer s = KDrained reason"
  shows "link_inv opts (kill_close s)"
  unfolding kill_close_def using assms(2) by (intro link_inv_killer link_inv_close [OF assms(1)]) simp_all

lemma pt_fail_all_map: "pt_map (pt_fail_all f t) = []"
  by (simp add: pt_fail_all_def)

lemma link_inv_fail_pending:
  assumes "link_inv opts s" "sc_close_requested s"
  shows "link_inv opts (FailPending default_Error True s)" (is "link_inv opts ?t")
proof -
  have t: "?t = s\<lparr>sc_calls := pt_fail_all killed_outcome (sc_calls s), sc_sends := pt_fail_all killed_outcome (sc_sends s)\<rparr>"
    by (simp add: FailPending_def killed_outcome_def [abs_def])
  note tab = tables_okD [OF link_invD(4) [OF assms(1)]]
  have "tables_ok ?t"
    using table_inv_fail_all [OF tab(1)] table_inv_fail_all [OF tab(2)] link_invD(4) [OF assms(1)] assms(2) tab(4,5)
    unfolding t by (simp add: tables_ok_def link_env_def pt_fail_all_map)
  then show ?thesis
    using assms(1) out_core_eq [of ?t s] seal_ok_eq [of ?t s] callers_ok_eq [of ?t s] unfolding t by (simp add: link_inv_def)
qed

lemma link_inv_kill_fail:
  assumes "link_inv opts s" "sc_killer s = KClosed"
  shows "link_inv opts (kill_fail s)"
proof -
  have closed: "sc_close_requested s" using link_invD(4) [OF assms(1)] assms(2) by (simp add: tables_ok_def)
  show ?thesis unfolding kill_fail_def
    using link_inv_fail_pending [OF assms(1) closed] assms(2) closed
    by (intro link_inv_killer) (simp_all add: FailPending_def pt_fail_all_map)
qed

lemma link_inv_kill_exit:
  assumes "link_inv opts s" "sc_killer s = KFailed"
  shows "link_inv opts (kill_exit s)"
proof -
  let ?s = "s\<lparr>sc_responsibilities := sc_responsibilities s - 1\<rparr>"
  have "link_inv opts ?s"
    using assms(1) out_core_eq [of ?s s] seal_ok_eq [of ?s s] callers_ok_eq [of ?s s] tables_ok_eq [of ?s s]
    by (simp add: link_inv_def)
  then have "link_inv opts (?s\<lparr>sc_killer := KDone\<rparr>)"
    using assms(2) link_invD(4) [OF assms(1)] by (intro link_inv_killer) (simp_all add: tables_ok_def)
  then show ?thesis by (simp add: kill_exit_def ExitDone_def)
qed

section \<open>The reader\<close>

lemma link_inv_publish:
  assumes "link_inv opts s"
  shows "link_inv opts (reader_publish s)" (is "link_inv opts ?t")
proof -
  note tab = tables_okD [OF link_invD(4) [OF assms(1)]]
  have "tables_ok ?t"
  proof (cases "sc_reader s")
    case (RCall i r)
    then show ?thesis using table_inv_publish [OF tab(1), of i ByReply r] link_invD(4) [OF assms(1)]
      by (simp add: reader_publish_def tables_ok_def link_env_def)
  next
    case (RSend i r)
    then show ?thesis using table_inv_publish [OF tab(2), of i ByReply r] link_invD(4) [OF assms(1)]
      by (simp add: reader_publish_def tables_ok_def link_env_def)
  qed (use link_invD(4) [OF assms] in \<open>simp add: reader_publish_def\<close>)
  then show ?thesis
    using assms out_core_eq [of ?t s] seal_ok_eq [of ?t s] callers_ok_eq [of ?t s]
    by (simp add: link_inv_def reader_publish_def split: reader_pc.splits)
qed

lemma link_inv_take_call:
  assumes "link_inv opts s" "pt_find key (sc_calls s) = Some i" "sc_reader s = RIdle"
  shows "link_inv opts (s\<lparr>sc_calls := pt_erase key (sc_calls s), sc_reader := RCall i r\<rparr>)" (is "link_inv opts ?t")
proof -
  note tab = tables_okD [OF link_invD(4) [OF assms(1)]]
  have "tables_ok ?t"
    using table_inv_take [OF tab(1) assms(2)] link_invD(4) [OF assms(1)] assms(3)
    by (auto simp: tables_ok_def link_env_def pt_erase_def all_keys_def)
  then show ?thesis
    using assms(1) out_core_eq [of ?t s] seal_ok_eq [of ?t s] callers_ok_eq [of ?t s] by (simp add: link_inv_def)
qed

lemma link_inv_take_send:
  assumes "link_inv opts s" "pt_find key (sc_sends s) = Some i" "sc_reader s = RIdle"
  shows "link_inv opts (s\<lparr>sc_sends := pt_erase key (sc_sends s), sc_reader := RSend i r\<rparr>)" (is "link_inv opts ?t")
proof -
  note tab = tables_okD [OF link_invD(4) [OF assms(1)]]
  have "tables_ok ?t"
    using table_inv_take [OF tab(2) assms(2)] link_invD(4) [OF assms(1)] assms(3)
    by (auto simp: tables_ok_def link_env_def pt_erase_def all_keys_def)
  then show ?thesis
    using assms(1) out_core_eq [of ?t s] seal_ok_eq [of ?t s] callers_ok_eq [of ?t s] by (simp add: link_inv_def)
qed

lemma link_inv_post_error:
  assumes "ClientOptions_Validate opts = Inr ()" "link_inv opts s"
  shows "link_inv opts (PostSessionError serialize opts now e s)"
proof (cases "post_frame serialize opts (now + 5000000000) (session_error_frame (sc_epoch s) e)")
  case (Some item)
  obtain r t where "Enqueue opts item s = (r, t)" by fastforce
  then show ?thesis using link_inv_enqueue [OF assms post_frame_plain [OF Some]] Some by (simp add: PostSessionError_def)
qed (simp add: PostSessionError_def assms(2))

lemma link_inv_dispatch:
  assumes "ClientOptions_Validate opts = Inr ()" "link_inv opts s" "sc_reader s = RIdle"
  shows "link_inv opts (snd (DispatchInbound serialize opts now timeout f s))"
  using assms link_inv_post_error [OF assms(1,2)]
  by (cases "sf_kind f")
    (auto simp: DispatchInbound_def link_inv_stats split: option.splits sum.splits
      intro: link_inv_take_call link_inv_take_send)

section \<open>Every step\<close>

theorem link_step_inv:
  assumes "link_step serialize opts s t" "ClientOptions_Validate opts = Inr ()" "link_inv opts s"
  shows "link_inv opts t"
  using assms(1)
proof cases
  case (call_register now deadline r x item s1)
  from PrepareCall_ok [OF this(2)] obtain n where "plain_item item" "oi_key item \<noteq> []" "s1 = s\<lparr>sc_seq_counter := n\<rparr>" by blast
  then show ?thesis using call_register link_inv_call_register [OF link_inv_seq [OF assms(3)]] by simp
next
  case (send_register now send r item s1)
  from PrepareSend_ok [OF this(2)] obtain n where "plain_item item" "oi_key item \<noteq> []" "s1 = s\<lparr>sc_seq_counter := n\<rparr>" by blast
  then show ?thesis using send_register link_inv_send_register [OF link_inv_seq [OF assms(3)]] by simp
next
  case (send_local now send r item s1)
  from PrepareSend_ok [OF this(2)] obtain n where "plain_item item" "s1 = s\<lparr>sc_seq_counter := n\<rparr>" by blast
  then show ?thesis using send_local link_inv_send_local [OF assms(2) link_inv_seq [OF assms(3)]] by simp
next
  case (dispatch now timeout f d u)
  then have "link_inv opts u" using link_inv_dispatch [OF assms(2,3), of serialize now timeout f] by simp
  then show ?thesis using dispatch(1) link_inv_kill_begin by (simp split: dispatch.split)
next
  case (reply deadline f item)
  then have "item_ok item" using post_frame_plain by (simp add: plain_item_def)
  then show ?thesis using reply link_inv_reply [OF assms(2,3)] by simp
next
  case (report_accepted item r)
  then show ?thesis using link_inv_report [OF assms(3)] by simp
next
  case (report_rejected item r)
  then show ?thesis using link_inv_report [OF assms(3)] by simp
qed (use assms(2,3) in \<open>auto intro: link_inv_call_submit link_inv_send_submit link_inv_call_complete link_inv_send_complete
  link_inv_call_give_up link_inv_send_give_up link_inv_take link_inv_gate link_inv_accept link_inv_settle link_inv_note
  link_inv_writer_kill link_inv_publish link_inv_kill_begin link_inv_drain link_inv_kill_close link_inv_kill_fail
  link_inv_kill_exit link_inv_close link_inv_stats link_inv_post_error\<close>)

theorem link_reachable_inv:
  assumes "link_reachable serialize opts epoch peer s" "ClientOptions_Validate opts = Inr ()"
  shows "link_inv opts s"
  using assms(1) unfolding link_reachable_def
  by (induction rule: rtranclp_induct) (auto simp: link_inv_init intro: link_step_inv [OF _ assms(2)])

end
