(* ===== verification/LinkGuarantees.thy ===== *)
theory LinkGuarantees
  imports LinkSteps
begin

text \<open>
  What the callers of a link and the users of its replies may rely on, in every interleaving: accounting, outcomes
  that are published once and never change, nobody left waiting after \<^verbatim>\<open>Kill\<close>, honest outcomes about what
  was written, and responses that belong to their request; and the behaviours that fall short of the documentation.
\<close>

section \<open>How a step changes a table\<close>

inductive table_change :: "(nat \<times> 'o result) option \<Rightarrow> ('o, 'x) PendingTable \<Rightarrow> ('o, 'x) PendingTable \<Rightarrow> bool" for held where
  same: "table_change held t t"
| insert: "table_change held t (pt_insert key x t)"
| erase: "table_change held t (pt_erase key t)"
| commit: "table_change held t (pt_commit key t)"
| fail_item: "table_change held t (pt_settle ByWriter key (Inl e) t)"
| publish: "held = Some (i, r) \<Longrightarrow> table_change held t (pt_publish ByReply i r t)"
| fail_all: "table_change held t (pt_fail_all killed_outcome t)"

fun call_result :: "reader_pc \<Rightarrow> (nat \<times> Response result) option" where
  "call_result (RCall i r) = Some (i, r)"
| "call_result _ = None"

fun send_result :: "reader_pc \<Rightarrow> (nat \<times> unit result) option" where
  "send_result (RSend i r) = Some (i, r)"
| "send_result _ = None"

lemma call_result_Some [simp]: "call_result pc = Some (i, r) \<longleftrightarrow> pc = RCall i r"
  by (cases pc) auto

lemma send_result_Some [simp]: "send_result pc = Some (i, r) \<longleftrightarrow> pc = RSend i r"
  by (cases pc) auto

lemma table_change_extends:
  assumes "table_change held t u" "pt_ok t" "\<And>i r. held = Some (i, r) \<Longrightarrow> \<not> pd_done (pt_objs t ! i)"
  shows "pt_extends t u"
  using assms
  by cases (simp_all add: pt_extends_insert pt_extends_commit pt_extends_settle pt_extends_publish pt_extends_fail_all)

text \<open>Credentials of replies are only added, and a settled one keeps its outcome.\<close>

definition settles_extend :: "unit result option list \<Rightarrow> unit result option list \<Rightarrow> bool" where
  "settles_extend xs ys \<longleftrightarrow> length xs \<le> length ys \<and> (\<forall>i < length xs. xs ! i \<noteq> None \<longrightarrow> ys ! i = xs ! i)"

lemma settles_extend_refl [simp]: "settles_extend xs xs"
  by (simp add: settles_extend_def)

lemma settles_extend_trans: "settles_extend xs ys \<Longrightarrow> settles_extend ys zs \<Longrightarrow> settles_extend xs zs"
  by (fastforce simp: settles_extend_def)

lemma settles_extend_append [simp]: "settles_extend xs (xs @ ys)"
  by (simp add: settles_extend_def nth_append)

lemma settles_extend_note [simp]: "settles_extend (sc_settles s) (sc_settles (NoteWriteSettled item r s))"
  by (auto simp: settles_extend_def NoteWriteSettled_settles list_update_nth split: option.split)

lemma settles_extend_drain: "settles_extend (sc_settles s) (sc_settles (drain_lane lane s))"
proof (induction lane s rule: drain_lane.induct)
  case (1 lane s)
  show ?case
  proof (cases "TakeQueuedLocked lane s")
    case None
    then show ?thesis by (simp add: drain_lane.simps [of lane s])
  next
    case (Some r)
    then obtain item t where take: "TakeQueuedLocked lane s = Some (item, t)" by (cases r) auto
    define u where "u = lane_stats lane (\<lambda>st. st\<lparr>ts_dropped := ts_dropped st + 1\<rparr>) t"
    define v where "v = NoteWriteSettled item (Inl (Err Closed (ascii ''session killed before reply write''))) u"
    have "LinkOut.more t = LinkOut.more s" using take by (auto simp: TakeQueuedLocked_def split: list.splits)
    then have "sc_settles t = sc_settles s" by (rule more_fields(4))
    then have "settles_extend (sc_settles s) (sc_settles v)"
      using settles_extend_note [of u item] unfolding v_def u_def by simp
    moreover have "drain_lane lane s = drain_lane lane v" unfolding drain_lane.simps [of lane s] take u_def v_def by simp
    moreover have "settles_extend (sc_settles v) (sc_settles (drain_lane lane v))"
      using 1 [OF take refl] unfolding u_def v_def .
    ultimately show ?thesis using settles_extend_trans by simp
  qed
qed

lemma settles_extend_kill_drain: "settles_extend (sc_settles s) (sc_settles (kill_drain reason s))"
  using settles_extend_trans [OF settles_extend_trans [OF settles_extend_drain settles_extend_drain] settles_extend_drain,
      of "s\<lparr>lo_sealed := True\<rparr>" 2 1 0] by (simp add: kill_drain_def)

definition moves :: "SessionCore \<Rightarrow> SessionCore \<Rightarrow> bool" where
  "moves s t \<longleftrightarrow> table_change (call_result (sc_reader s)) (sc_calls s) (sc_calls t)
     \<and> table_change (send_result (sc_reader s)) (sc_sends s) (sc_sends t)
     \<and> settles_extend (sc_settles s) (sc_settles t)"

lemma moves_still:
  "sc_calls t = sc_calls s \<Longrightarrow> sc_sends t = sc_sends s \<Longrightarrow> sc_settles t = sc_settles s \<Longrightarrow> moves s t"
  by (simp add: moves_def table_change.same)

lemma Enqueue_still:
  assumes "Enqueue opts item (s :: SessionCore) = (r, t)"
  shows "sc_calls t = sc_calls s" "sc_sends t = sc_sends s" "sc_settles t = sc_settles s" "sc_reader t = sc_reader s"
    "sc_call_pcs t = sc_call_pcs s" "sc_send_pcs t = sc_send_pcs s"
  using more_fields [OF Enqueue_more [OF assms]] by simp_all

lemma moves_submit: "moves s (CallSubmit opts i item s)" "moves s (SendSubmit opts i item s)" "moves s (snd (SendLocal opts item s))"
proof -
  obtain r t where put: "Enqueue opts item (lane_stats (LaneIndex (oi_lane item)) (inflight_add 1) s) = (r, t)" by fastforce
  show "moves s (CallSubmit opts i item s)" "moves s (SendSubmit opts i item s)" "moves s (snd (SendLocal opts item s))"
    using put Enqueue_still [OF put]
    by (cases r; simp add: CallSubmit_def SendSubmit_def SendLocal_def moves_def table_change.intros)+
qed

lemma moves_reply: "moves s (snd (post_reply opts item s))"
proof -
  obtain r t where put: "Enqueue opts (item\<lparr>oi_settle := Some (length (sc_settles s))\<rparr>) s = (r, t)" by fastforce
  show ?thesis using put Enqueue_still [OF put] by (cases r; simp add: post_reply_def moves_def table_change.same)
qed

lemma Dequeue_more:
  assumes "Dequeue opts s = (r, t)"
  shows "LinkOut.more t = LinkOut.more s"
proof (cases r)
  case None
  then show ?thesis using Dequeue_None [of opts s t] assms by (simp add: reload_credit_def Let_def)
next
  case (Some item)
  then show ?thesis using Dequeue_Some [of opts s item t] assms by (auto simp: dequeued_from_def)
qed

lemma moves_take: "moves s (writer_take opts s)"
proof -
  obtain r t where deq: "Dequeue opts s = (r, t)" by fastforce
  have "LinkOut.more t = LinkOut.more s" by (rule Dequeue_more [OF deq])
  then show ?thesis using deq more_fields(4-6) [of t s]
    by (cases r) (auto simp: writer_take_def moves_def table_change.same)
qed

lemma PostSessionError_still:
  "LinkOut.more (PostSessionError serialize opts now e s) = LinkOut.more s"
  using Enqueue_more [of opts _ s] by (simp add: PostSessionError_def split: option.split) (metis prod.collapse)

lemmas post_error_still = more_fields [OF PostSessionError_still]

lemma moves_dispatch: "DispatchInbound serialize opts now timeout f s = (d, t) \<Longrightarrow> moves s t"
  by (cases "sf_kind f")
    (auto simp: DispatchInbound_def moves_def table_change.intros post_error_still split: if_splits option.splits sum.splits)

lemma moves_commit_or_fail:
  assumes "tables_ok s"
  shows "moves s (writer_gate gate item s)" "moves s (writer_settle item failure s)"
  by (simp_all add: writer_gate_def writer_settle_def mark_committed_both [OF assms] FailItemPending_both [OF assms]
      moves_def table_change.intros split: sum.split option.split)

lemma moves_kill_fail: "moves s (kill_fail s)"
  by (simp add: kill_fail_def FailPending_def moves_def killed_outcome_def [abs_def, symmetric] table_change.fail_all)

lemma moves_publish: "moves s (reader_publish s)"
  by (simp add: reader_publish_def moves_def table_change.intros split: reader_pc.split)

lemma moves_seq: "moves (s\<lparr>sc_seq_counter := n\<rparr>) t \<longleftrightarrow> moves s t"
  by (simp add: moves_def)

lemma moves_register: "moves s (snd (CallRegister x item s))" "moves s (snd (SendRegister item s))"
  by (simp_all add: CallRegister_def SendRegister_def moves_def table_change.intros)

lemma moves_small:
  "moves s (CallComplete i c s)" "moves s (SendComplete i c s)" "moves s (CallGiveUp i c status s)"
  "moves s (SendGiveUp i c status s)" "moves s (writer_accept item s)" "moves s (writer_report w item s)"
  "moves s (writer_note item failure s)" "moves s (writer_kill s)" "moves s (kill_begin reason s)"
  "moves s (kill_drain reason s)" "moves s (kill_close s)" "moves s (kill_exit s)" "moves s (s\<lparr>sc_close_requested := True\<rparr>)"
  by (simp_all add: CallComplete_def SendComplete_def CallGiveUp_def SendGiveUp_def writer_accept_def writer_report_def
      writer_note_def writer_kill_def kill_begin_def kill_close_def kill_exit_def ExitDone_def Let_def moves_def
      table_change.intros settles_extend_kill_drain)

lemma link_step_moves:
  assumes "link_step serialize opts s t" "tables_ok s"
  shows "moves s t"
  using assms(1)
proof cases
  case (call_register now deadline r x item s1)
  from PrepareCall_ok(3) [OF this(2)] obtain n where "s1 = s\<lparr>sc_seq_counter := n\<rparr>" by blast
  then show ?thesis using call_register moves_register(1) [of s1] moves_seq by metis
next
  case (send_register now send r item s1)
  from PrepareSend_ok(3) [OF this(2)] obtain n where "s1 = s\<lparr>sc_seq_counter := n\<rparr>" by blast
  then show ?thesis using send_register moves_register(2) [of s1] moves_seq by metis
next
  case (send_local now send r item s1)
  from PrepareSend_ok(3) [OF this(2)] obtain n where "s1 = s\<lparr>sc_seq_counter := n\<rparr>" by blast
  then show ?thesis using send_local moves_submit(3) [of s1] moves_seq by metis
next
  case (dispatch now timeout f d u)
  then have "moves s u" using moves_dispatch by blast
  then show ?thesis using dispatch(1) by (simp add: moves_def kill_begin_def split: dispatch.split)
qed (simp_all add: moves_submit moves_reply moves_take moves_commit_or_fail [OF assms(2)] moves_kill_fail moves_publish
    moves_small moves_still post_error_still)

section \<open>What a run never takes back\<close>

lemma held_object:
  assumes "table_inv env pcs t" "i \<in> te_held env"
  shows "i < length (pt_objs t)" "\<not> pd_done (pt_objs t ! i)"
proof -
  show "i < length (pt_objs t)" using table_invD(3) [OF assms(1)] assms(2) by blast
  from table_invD(4) [OF assms(1) this] assms(2) show "\<not> pd_done (pt_objs t ! i)" by (simp add: object_inv_def)
qed

lemma held_not_done:
  assumes "tables_ok s"
  shows "call_result (sc_reader s) = Some (i, r) \<Longrightarrow> i < length (pt_objs (sc_calls s)) \<and> \<not> pd_done (pt_objs (sc_calls s) ! i)"
    "send_result (sc_reader s) = Some (i, q) \<Longrightarrow> i < length (pt_objs (sc_sends s)) \<and> \<not> pd_done (pt_objs (sc_sends s) ! i)"
  using held_object [OF tables_okD(1) [OF assms], of i] held_object [OF tables_okD(2) [OF assms], of i]
  by (simp_all add: link_env_def)

lemma moves_extend:
  assumes "moves s t" "tables_ok s"
  shows "pt_extends (sc_calls s) (sc_calls t)" "pt_extends (sc_sends s) (sc_sends t)"
  using assms(1) tables_okD(4,5) [OF assms(2)] held_not_done [OF assms(2)] unfolding moves_def
  by (blast intro: table_change_extends)+

lemma link_run:
  assumes "(link_step serialize opts)\<^sup>*\<^sup>* s t" "ClientOptions_Validate opts = Inr ()" "link_inv opts s"
  shows "link_inv opts t \<and> pt_extends (sc_calls s) (sc_calls t) \<and> pt_extends (sc_sends s) (sc_sends t)
    \<and> settles_extend (sc_settles s) (sc_settles t)"
  using assms(1)
proof (induction rule: rtranclp_induct)
  case base
  then show ?case using assms(3) by simp
next
  case (step t u)
  then have inv: "link_inv opts t" by blast
  have moved: "moves t u" using link_step_moves [OF step(2) link_invD(4) [OF inv]] .
  note ext = moves_extend [OF moved link_invD(4) [OF inv]]
  have "settles_extend (sc_settles s) (sc_settles u)"
    using step(3) moved settles_extend_trans [of "sc_settles s" "sc_settles t"] by (simp add: moves_def)
  then show ?case
    using link_step_inv [OF step(2) assms(2) inv] step(3) pt_extends_trans [OF _ ext(1)] pt_extends_trans [OF _ ext(2)]
    by simp
qed

lemma link_reachable_run:
  "link_reachable serialize opts epoch peer s \<Longrightarrow> (link_step serialize opts)\<^sup>*\<^sup>* s t \<Longrightarrow> link_reachable serialize opts epoch peer t"
  unfolding link_reachable_def by (rule rtranclp_trans)

section \<open>Responses belong to their request\<close>

definition answers :: "Response \<Rightarrow> (Response, CallShape) Pending \<Rightarrow> bool" where
  "answers r p \<longleftrightarrow> rs_request_id r = pd_key p \<and> rs_service r = ex_service (pd_expect p) \<and> rs_method r = ex_method (pd_expect p)
     \<and> rs_request_schema r = ex_request_schema (pd_expect p) \<and> rs_response_schema r = ex_response_schema (pd_expect p)"

lemma response_outcome_Inr:
  assumes "response_outcome f x = Inr r"
  shows "rs_request_id r = sf_request_id f" "rs_service r = ex_service x" "rs_method r = ex_method x"
    "rs_request_schema r = ex_request_schema x" "rs_response_schema r = ex_response_schema x"
  using assms by (auto simp: response_outcome_def ResponseFromSessionFrame_def split: if_splits sum.splits)

lemma table_change_outcome:
  assumes "table_change held t u" "pt_ok t" "i < length (pt_objs u)" "pd_outcome (pt_objs u ! i) = Inr r"
  shows "i < length (pt_objs t) \<and> pd_outcome (pt_objs t ! i) = Inr r \<or> held = Some (i, Inr r)"
  using assms(1)
proof cases
  case (insert key x)
  then show ?thesis using assms(3,4) by (cases "i < length (pt_objs t)") (auto simp: pt_insert_def nth_append new_Pending_def)
next
  case fail_all
  then show ?thesis using assms(3,4) pt_fail_all_objs(2) [OF assms(2), of i killed_outcome]
    by (auto simp: settled_def killed_outcome_def split: if_splits)
qed (use assms in \<open>auto simp: pt_commit_def pt_settle_def pt_publish_def settled_def list_update_nth split: option.splits if_splits\<close>)

text \<open>Only the dispatch and the publication change what the reader has in hand; only a caller's own steps
  change its program counter.\<close>

lemma submit_reader [simp]:
  "sc_reader (CallSubmit opts i item s) = sc_reader s" "sc_reader (SendSubmit opts i item s) = sc_reader s"
  "sc_reader (snd (SendLocal opts item s)) = sc_reader s" "sc_call_pcs (SendSubmit opts i item s) = sc_call_pcs s"
  "sc_call_pcs (snd (SendLocal opts item s)) = sc_call_pcs s"
proof -
  obtain r t where put: "Enqueue opts item (lane_stats (LaneIndex (oi_lane item)) (inflight_add 1) s) = (r, t)" by fastforce
  show "sc_reader (CallSubmit opts i item s) = sc_reader s" "sc_reader (SendSubmit opts i item s) = sc_reader s"
    "sc_reader (snd (SendLocal opts item s)) = sc_reader s" "sc_call_pcs (SendSubmit opts i item s) = sc_call_pcs s"
    "sc_call_pcs (snd (SendLocal opts item s)) = sc_call_pcs s"
    using put Enqueue_still [OF put] by (cases r; simp add: CallSubmit_def SendSubmit_def SendLocal_def)+
qed

lemma submit_pc:
  "\<exists>pc. sc_call_pcs (CallSubmit opts i item s) = (sc_call_pcs s)[i := pc] \<and> (\<forall>r. pc \<noteq> CpReturned (Inr r))"
proof -
  obtain r t where put: "Enqueue opts item (lane_stats (LaneIndex (oi_lane item)) (inflight_add 1) s) = (r, t)" by fastforce
  show ?thesis
  proof (cases r)
    case (Inl e)
    then show ?thesis using put Enqueue_still [OF put]
      by (intro exI [of _ "after_refusal e t"]) (simp add: CallSubmit_def after_refusal_def)
  next
    case (Inr x)
    then show ?thesis using put Enqueue_still [OF put] by (intro exI [of _ CpWaiting]) (simp add: CallSubmit_def)
  qed
qed

lemma reply_reader [simp]:
  "sc_reader (snd (post_reply opts item s)) = sc_reader s" "sc_call_pcs (snd (post_reply opts item s)) = sc_call_pcs s"
proof -
  obtain r t where put: "Enqueue opts (item\<lparr>oi_settle := Some (length (sc_settles s))\<rparr>) s = (r, t)" by fastforce
  show "sc_reader (snd (post_reply opts item s)) = sc_reader s" "sc_call_pcs (snd (post_reply opts item s)) = sc_call_pcs s"
    using put Enqueue_still [OF put] by (cases r; simp add: post_reply_def)+
qed

lemma take_reader [simp]: "sc_reader (writer_take opts s) = sc_reader s" "sc_call_pcs (writer_take opts s) = sc_call_pcs s"
proof -
  obtain r t where deq: "Dequeue opts s = (r, t)" by fastforce
  note same = more_fields(10,12) [OF Dequeue_more [OF deq]]
  show "sc_reader (writer_take opts s) = sc_reader s" "sc_call_pcs (writer_take opts s) = sc_call_pcs s"
    using deq same by (cases r; simp add: writer_take_def)+
qed

lemma gate_reader [simp]:
  "sc_reader (writer_gate gate item s) = sc_reader s" "sc_call_pcs (writer_gate gate item s) = sc_call_pcs s"
  "sc_reader (writer_settle item failure s) = sc_reader s" "sc_call_pcs (writer_settle item failure s) = sc_call_pcs s"
  by (auto simp: writer_gate_def mark_committed_def writer_settle_def FailItemPending_def split: sum.split option.split)

lemmas small_ops = CallComplete_def SendComplete_def CallGiveUp_def SendGiveUp_def writer_accept_def writer_report_def
  writer_note_def writer_kill_def kill_begin_def kill_close_def kill_fail_def FailPending_def kill_exit_def ExitDone_def
  CallRegister_def SendRegister_def Let_def

lemma dispatch_reader:
  assumes "DispatchInbound serialize opts now timeout f s = (d, t)" "sc_reader s = RIdle" "sc_reader t = RCall i (Inr r)" "pt_ok (sc_calls s)"
  shows "i < length (pt_objs (sc_calls s)) \<and> answers r (pt_objs (sc_calls s) ! i)"
proof -
  have key: "pt_find (sf_request_id f) (sc_calls s) = Some i" "response_outcome f (pd_expect (pt_objs (sc_calls s) ! i)) = Inr r"
    using assms(1-3) by (auto simp: DispatchInbound_def post_error_still split: if_splits FrameKind.splits option.splits sum.splits)
  show ?thesis
    using pt_okD(1,3) [OF assms(4) pt_find_entry [OF key(1)]] response_outcome_Inr [OF key(2)] by (simp add: answers_def)
qed

lemma reader_step:
  assumes "link_step serialize opts s t" "pt_ok (sc_calls s)" "sc_reader t = RCall i (Inr r)"
  shows "sc_reader s = RCall i (Inr r) \<or> i < length (pt_objs (sc_calls s)) \<and> answers r (pt_objs (sc_calls s) ! i)"
  using assms(1)
proof cases
  case (dispatch now timeout f d u)
  then have "sc_reader u = RCall i (Inr r)" using assms(3) by (cases d) simp_all
  then show ?thesis using dispatch dispatch_reader [OF dispatch(3,2) _ assms(2)] by blast
qed (use assms(3) in \<open>auto simp: small_ops reader_publish_def post_error_still split: if_splits reader_pc.splits dest!: PrepareCall_ok(3) PrepareSend_ok(3)\<close>)

lemma call_pc_step:
  assumes "link_step serialize opts s t" "i < length (sc_call_pcs t)" "sc_call_pcs t ! i = CpReturned (Inr r)"
  shows "i < length (sc_call_pcs s) \<and> (sc_call_pcs s ! i = CpReturned (Inr r) \<or> pd_outcome (pt_objs (sc_calls s) ! i) = Inr r)"
  using assms(1)
proof cases
  case (call_submit j item)
  then show ?thesis using assms(2,3) submit_pc [of opts j item s] by (auto simp: list_update_nth split: if_splits)
next
  case (dispatch now timeout f d u)
  have "sc_call_pcs u = sc_call_pcs s"
    using dispatch(3) by (auto simp: DispatchInbound_def post_error_still split: if_splits FrameKind.splits option.splits sum.splits)
  then show ?thesis using dispatch(1) assms(2,3) by (auto simp: kill_begin_def split: dispatch.splits if_splits)
qed (use assms(2,3) in \<open>auto simp: small_ops reader_publish_def post_error_still list_update_nth nth_append split: if_splits reader_pc.splits
  dest!: PrepareCall_ok(3) PrepareSend_ok(3)\<close>)

definition correlated :: "SessionCore \<Rightarrow> bool" where
  "correlated s \<longleftrightarrow> (\<forall>i r. i < length (pt_objs (sc_calls s)) \<longrightarrow> pd_outcome (pt_objs (sc_calls s) ! i) = Inr r
        \<longrightarrow> answers r (pt_objs (sc_calls s) ! i))
     \<and> (\<forall>i r. sc_reader s = RCall i (Inr r) \<longrightarrow> i < length (pt_objs (sc_calls s)) \<and> answers r (pt_objs (sc_calls s) ! i))
     \<and> (\<forall>i r. i < length (sc_call_pcs s) \<longrightarrow> sc_call_pcs s ! i = CpReturned (Inr r) \<longrightarrow> answers r (pt_objs (sc_calls s) ! i))"

lemma correlated_step:
  assumes "link_step serialize opts s t" "tables_ok s" "correlated s"
  shows "correlated t"
proof -
  note ok = tables_okD(4,6) [OF assms(2)]
  have change: "table_change (call_result (sc_reader s)) (sc_calls s) (sc_calls t)" and ext: "pt_extends (sc_calls s) (sc_calls t)"
    using link_step_moves [OF assms(1,2)] moves_extend(1) [OF _ assms(2)] by (auto simp: moves_def)
  have keep: "i < length (pt_objs (sc_calls t)) \<and> answers r (pt_objs (sc_calls t) ! i)"
    if "i < length (pt_objs (sc_calls s))" "answers r (pt_objs (sc_calls s) ! i)" for i r
    using ext that by (simp add: pt_extends_def answers_def)
  have outcome: "answers r (pt_objs (sc_calls t) ! i)"
    if "i < length (pt_objs (sc_calls t))" "pd_outcome (pt_objs (sc_calls t) ! i) = Inr r" for i r
    using table_change_outcome [OF change ok(1) that] keep assms(3) by (auto simp: correlated_def)
  have held: "i < length (pt_objs (sc_calls t)) \<and> answers r (pt_objs (sc_calls t) ! i)" if "sc_reader t = RCall i (Inr r)" for i r
    using reader_step [OF assms(1) ok(1) that] keep assms(3) by (auto simp: correlated_def)
  have returned: "answers r (pt_objs (sc_calls t) ! i)"
    if "i < length (sc_call_pcs t)" "sc_call_pcs t ! i = CpReturned (Inr r)" for i r
    using call_pc_step [OF assms(1) that] keep ok(2) assms(3) by (auto simp: correlated_def)
  show ?thesis using outcome held returned by (simp add: correlated_def)
qed

lemma correlated_reachable:
  assumes "link_reachable serialize opts epoch peer s" "ClientOptions_Validate opts = Inr ()"
  shows "correlated s"
  using assms(1) unfolding link_reachable_def
proof (induction rule: rtranclp_induct)
  case base
  then show ?case by (simp add: correlated_def pt_init_def)
next
  case (step t u)
  have "link_inv opts t" using link_reachable_inv [OF _ assms(2)] step(1) unfolding link_reachable_def by blast
  then show ?case using correlated_step [OF step(2) link_invD(4)] step(3) by blast
qed

section \<open>Guarantees\<close>

text \<open>C5: In every reachable state of a link the gauges of each lane are exact and within its cap, the count of
  outstanding writes is the number of items queued or in the writer's hand, the unsettled reply credentials are exactly
  those of these items, each once, and a sealed link queues nothing; after \<^verbatim>\<open>Kill\<close>, once the writer holds nothing,
  nothing is outstanding and every reply has its outcome.\<close>

theorem link_accounting:
  assumes "ClientOptions_Validate opts = Inr ()" "link_reachable serialize opts epoch peer s"
  shows "lanes_ok opts s \<and> lo_outstanding s = word_of_nat (length (live_items s))
    \<and> distinct (settle_ids (live_items s)) \<and> set (settle_ids (live_items s)) = {i. i < length (sc_settles s) \<and> sc_settles s ! i = None}
    \<and> (lo_sealed s \<longrightarrow> queued_items s = [])
    \<and> (lo_sealed s \<and> writer_item (sc_writer s) = None \<longrightarrow> lo_outstanding s = 0 \<and> None \<notin> set (sc_settles s))"
proof -
  note inv = link_invD [OF link_reachable_inv [OF assms(2,1)]]
  have core: "lanes_ok opts s \<and> lo_outstanding s = word_of_nat (length (live_items s))
    \<and> distinct (settle_ids (live_items s)) \<and> set (settle_ids (live_items s)) = {i. i < length (sc_settles s) \<and> sc_settles s ! i = None}"
    using inv(1) by (simp add: out_core_def)
  have sealed: "lo_sealed s \<longrightarrow> queued_items s = []" using inv(3) by (simp add: seal_ok_def)
  have "None \<notin> set (sc_settles s)" if "live_items s = []" using core that by (fastforce simp: in_set_conv_nth)
  then show ?thesis using core sealed by (simp add: live_items_def)
qed

text \<open>C6: Outcomes are published at most once: whatever runs after a reachable state, a settled reply keeps its
  outcome, a settled call or send keeps its outcome, its commitment and its cause, and a request committed to
  the wire stays committed.\<close>

theorem outcomes_are_final:
  assumes "ClientOptions_Validate opts = Inr ()" "link_reachable serialize opts epoch peer s" "(link_step serialize opts)\<^sup>*\<^sup>* s t"
  shows "pt_extends (sc_calls s) (sc_calls t) \<and> pt_extends (sc_sends s) (sc_sends t) \<and> settles_extend (sc_settles s) (sc_settles t)"
  using link_run [OF assms(3,1) link_reachable_inv [OF assms(2,1)]] by simp

lemma unsettled_object:
  assumes "table_inv env pcs t" "i < length pcs" "\<not> pd_done (pt_objs t ! i)"
  shows "i \<in> entry_ids t \<or> i \<in> te_held env \<or> gave_up (pcs ! i)"
  using table_invD(4) [OF assms(1), of i] table_invD(2) [OF assms(1)] assms(2,3) by (simp add: object_inv_def)


text \<open>C8: What \<^verbatim>\<open>Kill\<close> tells a caller is true: a call reported as closed before the commitment was not accepted by
  the connection and never will be, and one whose frame the connection accepted is reported as of unknown outcome.\<close>

theorem killed_call_outcome_is_honest:
  assumes "ClientOptions_Validate opts = Inr ()" "link_reachable serialize opts epoch peer s"
    and "i < length (pt_objs (sc_calls s))" "pd_cause (pt_objs (sc_calls s) ! i) = Some ByKill"
    and "(link_step serialize opts)\<^sup>*\<^sup>* s t"
  shows "pd_outcome (pt_objs (sc_calls t) ! i) =
      (if pd_committed (pt_objs (sc_calls s) ! i)
       then Inl (ErrPhase OutcomeUnknown (ascii ''session lost after commit'') RequestCommitted)
       else Inl (Err Closed (ascii ''session closed before commit'')))
    \<and> (\<not> pd_committed (pt_objs (sc_calls s) ! i) \<longrightarrow> pd_key (pt_objs (sc_calls s) ! i) \<notin> set (sc_wire t))"
proof -
  have inv: "link_inv opts s" by (rule link_reachable_inv [OF assms(2,1)])
  note run = link_run [OF assms(5,1) inv]
  have "object_inv (link_env s (call_held (sc_reader s))) (entry_ids (sc_calls s)) (sc_call_pcs s ! i) i (pt_objs (sc_calls s) ! i)"
    using table_invD(4) [OF tables_okD(1) [OF link_invD(4) [OF inv]] assms(3)] .
  then have "pd_done (pt_objs (sc_calls s) ! i)" using assms(4) by (simp add: object_inv_def)
  then have same: "pt_objs (sc_calls t) ! i = pt_objs (sc_calls s) ! i" "i < length (pt_objs (sc_calls t))"
    using run assms(3) by (auto simp: pt_extends_def)
  have "object_inv (link_env t (call_held (sc_reader t))) (entry_ids (sc_calls t)) (sc_call_pcs t ! i) i (pt_objs (sc_calls t) ! i)"
    using table_invD(4) [OF tables_okD(1) [OF link_invD(4)] same(2)] run by blast
  then show ?thesis
    using assms(4) unfolding same(1) by (auto simp: object_inv_def link_env_def killed_outcome_def SettledPendingError_def)
qed

text \<open>C9: A call that returns success returns a response to itself: the identifier, the service, the method and both
  schemas are those of the request registered under that call, in every interleaving.\<close>

theorem successful_call_is_answered:
  assumes "ClientOptions_Validate opts = Inr ()" "link_reachable serialize opts epoch peer s"
    and "i < length (sc_call_pcs s)" "sc_call_pcs s ! i = CpReturned (Inr r)"
  shows "answers r (pt_objs (sc_calls s) ! i)"
  using correlated_reachable [OF assms(2,1)] assms(3,4) by (simp add: correlated_def)

section \<open>A run\<close>

text \<open>One call on a fresh link: registered, enqueued, and then one of several continuations.\<close>

definition demo_serialize :: "SessionFrameMsg \<Rightarrow> byte list option" where
  "demo_serialize m = Some [8, 2]"

definition demo_item :: OutItem where
  "demo_item = \<lparr>oi_bytes = [0, 0, 0, 2, 8, 2], oi_lane = TcService, oi_key = ascii ''r1'', oi_deadline = 500000000,
     oi_control_response = False, oi_settle = None\<rparr>"

definition demo_shape :: CallShape where
  "demo_shape = \<lparr>ex_service = ascii ''svc'', ex_method = ascii ''get'', ex_request_schema = ascii ''q'', ex_response_schema = ascii ''p''\<rparr>"

definition demo_start :: SessionCore where "demo_start = sc_init 7 (ascii ''b'')"
definition demo_waiting :: SessionCore where
  "demo_waiting = CallSubmit sample_options 0 demo_item (snd (CallRegister demo_shape demo_item demo_start))"

lemma demo_prepare:
  "PrepareCall demo_serialize sample_options 0 500000000 sample_request demo_start = (Inr (demo_shape, demo_item), demo_start)"
proof -
  have frame: "ToSessionFrame sample_request FkCall 7 500 None = Inr sample_call" "ValidateKindRules sample_call False = Inr ()"
    by code_simp+
  obtain m where "FillProto sample_call = Inr m"
    using tiny_encode [OF frame(2)] by (auto simp: EncodeSessionFrame_def split: sum.splits)
  then have body: "EncodeSessionFrame demo_serialize sample_call = Inr [8, 2]"
    by (simp add: EncodeSessionFrame_def demo_serialize_def)
  have "EncodeFramePrefix 2 = [0, 0, 0, 2]" by code_simp
  then have framed: "EncodeFramedSessionFrame demo_serialize sample_call 1024 = Inr [0, 0, 0, 2, 8, 2]"
    using body by (simp add: EncodeFramedSessionFrame_def FrameByteLimit_def kRpcV2MaxFrameBytes_def kRpcV2HelloMaxFrameBytes_def)
  have item: "request_item demo_serialize sample_options 0 500000000 FkCall None 7 sample_request = Inr demo_item"
    using frame(1) framed
    by (simp add: request_item_def Budget_def kMaxBudgetMs_def sample_options_def demo_item_def) (simp add: sample_request_def)
  have given: "sample_request\<lparr>rq_request_id := rq_request_id sample_request\<rparr> = sample_request" "rq_request_id sample_request \<noteq> []"
    by (simp_all add: sample_request_def ascii_def)
  show ?thesis
    unfolding PrepareCall_def fresh_id_def using item given
    by (simp add: demo_start_def demo_shape_def) (simp add: sample_request_def)
qed

lemma demo_waiting_reachable: "link_reachable demo_serialize sample_options 7 (ascii ''b'') demo_waiting"
proof -
  have "oi_key demo_item \<notin> used_keys demo_start"
    by (simp add: used_keys_def live_items_def queued_items_def demo_start_def all_keys_def pt_init_def)
  then have reg: "link_step demo_serialize sample_options demo_start (snd (CallRegister demo_shape demo_item demo_start))"
    by (rule link_step.call_register [OF demo_prepare])
  have pc: "sc_call_pcs (snd (CallRegister demo_shape demo_item demo_start)) = [CpRegistered demo_item]"
    by (simp add: CallRegister_def demo_start_def pt_init_def pt_find_def)
  have "link_step demo_serialize sample_options (snd (CallRegister demo_shape demo_item demo_start)) demo_waiting"
    unfolding demo_waiting_def by (rule link_step.call_submit) (simp_all add: pc)
  with reg show ?thesis unfolding link_reachable_def demo_start_def by (meson converse_rtranclp_into_rtranclp rtranclp.rtrancl_refl)
qed

lemma demo_waiting_fields:
  "lo_q demo_waiting 1 = [demo_item]" "sc_call_pcs demo_waiting = [CpWaiting]" "sc_writer demo_waiting = WIdle"
  "sc_reader demo_waiting = RIdle" "sc_wire demo_waiting = []"  "sc_killer demo_waiting = KAlive" "\<not> lo_dead demo_waiting"
  by code_simp+

lemma Kill_run:
  assumes "\<not> lo_dead s"
  shows "(link_step serialize opts)\<^sup>*\<^sup>* s (Kill reason s)"
proof -
  let ?a = "kill_begin reason s" and ?b = "kill_drain reason (kill_begin reason s)"
  have "link_step serialize opts s ?a" by (rule link_step.kill)
  moreover have "link_step serialize opts ?a ?b" by (rule link_step.drain) (simp add: kill_begin_def assms)
  moreover have "link_step serialize opts ?b (kill_close ?b)" by (rule link_step.close) simp
  moreover have "link_step serialize opts (kill_close ?b) (kill_fail (kill_close ?b))"
    by (rule link_step.fail_pending) (simp add: kill_close_def)
  moreover have "link_step serialize opts (kill_fail (kill_close ?b)) (kill_exit (kill_fail (kill_close ?b)))"
    by (rule link_step.exit_kill) (simp add: kill_fail_def)
  ultimately show ?thesis unfolding Kill_def using assms by (simp add: converse_rtranclp_into_rtranclp)
qed

definition writer_sends :: "ClientOptions \<Rightarrow> OutItem \<Rightarrow> SessionCore \<Rightarrow> SessionCore" where
  "writer_sends opts item s = writer_accept item (writer_gate (Inr ()) item (writer_take opts s))"

lemma writer_sends_run:
  assumes "sc_writer s = WIdle" "sc_writer (writer_take opts s) = WHolding item" "\<not> sc_close_requested (writer_take opts s)"
  shows "(link_step serialize opts)\<^sup>*\<^sup>* s (writer_sends opts item s)"
proof -
  let ?a = "writer_take opts s" and ?b = "writer_gate (Inr ()) item (writer_take opts s)"
  have "link_step serialize opts s ?a" by (rule link_step.take [OF assms(1)])
  moreover have "link_step serialize opts ?a ?b" by (rule link_step.gate [OF assms(2)])
  moreover have "link_step serialize opts ?b (writer_accept item ?b)"
    using assms(3) by (intro link_step.accept) (auto simp: writer_gate_def mark_committed_def split: option.split)
  ultimately show ?thesis unfolding writer_sends_def by (simp add: converse_rtranclp_into_rtranclp)
qed

definition demo_written :: SessionCore where "demo_written = writer_sends sample_options demo_item demo_waiting"
definition demo_killed :: SessionCore where "demo_killed = Kill (make_errc io_error) demo_waiting"
definition demo_lost :: SessionCore where "demo_lost = Kill (make_errc io_error) demo_written"

definition demo_response :: SessionFrame where
  "demo_response = sample_response_frame\<lparr>sf_traffic := TcService\<rparr>"

definition demo_dispatched :: SessionCore where
  "demo_dispatched = snd (DispatchInbound demo_serialize sample_options 0 None demo_response demo_written)"

definition demo_answered :: SessionCore where
  "demo_answered = CallComplete 0 TcService (reader_publish demo_dispatched)"

lemma demo_written_fields:
  "sc_writer (writer_take sample_options demo_waiting) = WHolding demo_item"
  "\<not> sc_close_requested (writer_take sample_options demo_waiting)" "\<not> lo_dead demo_written"
  "sc_reader demo_written = RIdle" "sc_wire demo_written = [ascii ''r1'']"
  "fst (DispatchInbound demo_serialize sample_options 0 None demo_response demo_written) = DispatchDone"
  by code_simp+

lemma demo_dispatched_fields:
  "sc_reader demo_dispatched \<noteq> RIdle" "sc_call_pcs (reader_publish demo_dispatched) = [CpWaiting]"
  "pd_done (pt_objs (sc_calls (reader_publish demo_dispatched)) ! 0)"
  "sc_call_pcs demo_answered = [CpReturned (Inr sample_response)]"
  by code_simp+

lemma demo_reachable:
  "link_reachable demo_serialize sample_options 7 (ascii ''b'') demo_written"
  "link_reachable demo_serialize sample_options 7 (ascii ''b'') demo_killed"
  "link_reachable demo_serialize sample_options 7 (ascii ''b'') demo_lost"
  "link_reachable demo_serialize sample_options 7 (ascii ''b'') demo_answered"
proof -
  note run = link_reachable_run [where serialize = demo_serialize and opts = sample_options and epoch = 7 and peer = "ascii ''b''"]
  show written: "link_reachable demo_serialize sample_options 7 (ascii ''b'') demo_written"
    unfolding demo_written_def using demo_written_fields(1,2) demo_waiting_fields(3)
    by (intro run [OF demo_waiting_reachable writer_sends_run])
  show "link_reachable demo_serialize sample_options 7 (ascii ''b'') demo_killed"
    unfolding demo_killed_def by (intro run [OF demo_waiting_reachable Kill_run] demo_waiting_fields)
  show "link_reachable demo_serialize sample_options 7 (ascii ''b'') demo_lost"
    unfolding demo_lost_def by (intro run [OF written Kill_run] demo_written_fields)
  have "link_step demo_serialize sample_options demo_written demo_dispatched"
    using link_step.dispatch [OF demo_written_fields(4) surjective_pairing, of demo_serialize sample_options 0 None demo_response]
      demo_written_fields(6) by (simp add: demo_dispatched_def)
  moreover have "link_step demo_serialize sample_options demo_dispatched (reader_publish demo_dispatched)"
    by (rule link_step.publish [OF demo_dispatched_fields(1)])
  moreover have "link_step demo_serialize sample_options (reader_publish demo_dispatched) demo_answered"
    unfolding demo_answered_def using demo_dispatched_fields(2,3) by (intro link_step.call_complete) simp_all
  ultimately show "link_reachable demo_serialize sample_options 7 (ascii ''b'') demo_answered"
    by (intro run [OF written]) (simp add: converse_rtranclp_into_rtranclp)
qed

section \<open>The guarantees on the run\<close>

theorem link_accounting_witness:
  "lo_outstanding demo_waiting = 1 \<and> lo_outstanding demo_written = 1 \<and> lo_outstanding demo_killed = 0"
proof -
  have "length (live_items demo_waiting) = 1" "length (live_items demo_written) = 1" "length (live_items demo_killed) = 0"
    by code_simp+
  then show ?thesis
    using link_accounting [OF sample_options_valid demo_waiting_reachable] link_accounting [OF sample_options_valid demo_reachable(1)]
      link_accounting [OF sample_options_valid demo_reachable(2)] by simp
qed

theorem outcomes_are_final_witness:
  "pd_outcome (pt_objs (sc_calls (Kill no_error demo_answered)) ! 0) = Inr sample_response"
proof -
  have facts: "length (pt_objs (sc_calls demo_answered)) = 1" "pd_done (pt_objs (sc_calls demo_answered) ! 0)"
    "pd_outcome (pt_objs (sc_calls demo_answered) ! 0) = Inr sample_response" "\<not> lo_dead demo_answered" by code_simp+
  show ?thesis
    using outcomes_are_final [OF sample_options_valid demo_reachable(4) Kill_run [OF facts(4)], of no_error] facts(1-3)
    by (simp add: pt_extends_def)
qed


theorem killed_call_outcome_is_honest_witness:
  "pd_outcome (pt_objs (sc_calls demo_killed) ! 0) = Inl (Err Closed (ascii ''session closed before commit''))
    \<and> ascii ''r1'' \<notin> set (sc_wire demo_killed)
    \<and> pd_outcome (pt_objs (sc_calls demo_lost) ! 0)
        = Inl (ErrPhase OutcomeUnknown (ascii ''session lost after commit'') RequestCommitted)"
proof -
  have killed: "length (pt_objs (sc_calls demo_killed)) = 1" "pd_cause (pt_objs (sc_calls demo_killed) ! 0) = Some ByKill"
    "\<not> pd_committed (pt_objs (sc_calls demo_killed) ! 0)" "pd_key (pt_objs (sc_calls demo_killed) ! 0) = ascii ''r1''" by code_simp+
  have lost: "length (pt_objs (sc_calls demo_lost)) = 1" "pd_cause (pt_objs (sc_calls demo_lost) ! 0) = Some ByKill"
    "pd_committed (pt_objs (sc_calls demo_lost) ! 0)" by code_simp+
  show ?thesis
    using killed_call_outcome_is_honest [OF sample_options_valid demo_reachable(2) _ killed(2) rtranclp.rtrancl_refl]
      killed_call_outcome_is_honest [OF sample_options_valid demo_reachable(3) _ lost(2) rtranclp.rtrancl_refl]
      killed(1,3,4) lost(1,3) by simp
qed

theorem successful_call_is_answered_witness:
  "answers sample_response (pt_objs (sc_calls demo_answered) ! 0)"
  using successful_call_is_answered [OF sample_options_valid demo_reachable(4), of 0 sample_response] demo_dispatched_fields(4)
  by simp

section \<open>Where the link falls short of its documentation\<close>

definition demo_cancelled :: SessionCore where
  "demo_cancelled = writer_sends sample_options demo_item (CallGiveUp 0 TcService WsCancelled demo_waiting)"

text \<open>C34: Giving up removes the call from the map and not from its lane. A call can return cancelled in the phase
  \<^verbatim>\<open>NotStarted\<close> and its frame is still written afterwards.\<close>

theorem cancelled_call_is_still_written:
  "\<exists>s e. link_reachable demo_serialize sample_options 7 (ascii ''b'') s \<and> sc_call_pcs s = [CpReturned (Inl e)]
     \<and> er_code e = Cancelled \<and> er_request_phase e = Some NotStarted \<and> sc_wire s = [pd_key (pt_objs (sc_calls s) ! 0)]"
proof -
  let ?c = "CallGiveUp 0 TcService WsCancelled demo_waiting"
  have "link_step demo_serialize sample_options demo_waiting ?c"
    using demo_waiting_fields(2) by (intro link_step.call_give_up) simp_all
  then have gone: "link_reachable demo_serialize sample_options 7 (ascii ''b'') ?c"
    using link_reachable_run [OF demo_waiting_reachable] by blast
  have "sc_writer ?c = WIdle" "sc_writer (writer_take sample_options ?c) = WHolding demo_item"
    "\<not> sc_close_requested (writer_take sample_options ?c)" by code_simp+
  then have "link_reachable demo_serialize sample_options 7 (ascii ''b'') demo_cancelled"
    unfolding demo_cancelled_def by (intro link_reachable_run [OF gone writer_sends_run])
  moreover have "sc_call_pcs demo_cancelled = [CpReturned (Inl (ErrPhase Cancelled (ascii ''call cancelled'') NotStarted))]"
    "sc_wire demo_cancelled = [pd_key (pt_objs (sc_calls demo_cancelled) ! 0)]"
    "er_code (ErrPhase Cancelled (ascii ''call cancelled'') NotStarted) = Cancelled"
    "er_request_phase (ErrPhase Cancelled (ascii ''call cancelled'') NotStarted) = Some NotStarted" by code_simp+
  ultimately show ?thesis by blast
qed



end
