(* ===== verification/Admission.thy ===== *)
theory Admission
  imports LinkGuarantees
begin

text \<open>
  The server side of a session (\<^verbatim>\<open>AdmissionQueue\<close>, \<^verbatim>\<open>ReplyCompletion\<close>, \<^verbatim>\<open>AdmissionLease\<close> and the ledgers of
  \<^verbatim>\<open>ServerV2State\<close> in \<^verbatim>\<open>bbt/infra/rpc/Session.cc\<close>): the readers of all links admit requests into one bounded queue,
  one worker hands them to the framework's handler, and the framework completes replies and releases leases whenever it
  likes. Each critical section is one step. The shared objects are addressed by index. A link that no longer
  exists (an expired \<^verbatim>\<open>weak_ptr\<close>) is \<open>None\<close>. The ghost field \<open>sv_posted\<close> lists the terminal frames accepted by a
  lane, with the reply they end; \<open>sv_handed\<close> lists what the handler has been given.
\<close>

section \<open>Options\<close>

definition kNetworkLimitsMaxConnections :: nat where "kNetworkLimitsMaxConnections = 1000000"
definition kNetworkLimitsMaxInflight :: nat where "kNetworkLimitsMaxInflight = 1000000"
definition kNetworkLimitsMaxBodyBytes :: nat where "kNetworkLimitsMaxBodyBytes = 1024 * 1024 * 1024"
definition kNetworkLimitsMaxIncomingTimeout :: int where "kNetworkLimitsMaxIncomingTimeout = 24 * 60 * 60 * 1000"

record ServerOptions =
  vo_listen_valid :: bool
  vo_max_frame_bytes :: nat
  vo_max_connections :: nat
  vo_max_inflight :: nat
  vo_max_handler_bytes :: nat
  vo_incoming_timeout :: int

definition ServerOptions_Validate :: "ServerOptions \<Rightarrow> unit result" where
  "ServerOptions_Validate o' =
     (if \<not> vo_listen_valid o' then Inl (MakeError InvalidArgument (ascii ''listen_address invalid''))
      else if vo_max_frame_bytes o' < kMinFrameBytes \<or> vo_max_frame_bytes o' > kMaxFrameBytes
      then Inl (MakeError InvalidArgument (ascii ''max_frame_bytes out of range''))
      else if vo_max_connections o' = 0 \<or> vo_max_connections o' > kNetworkLimitsMaxConnections
      then Inl (MakeError InvalidArgument (ascii ''max_connections out of range''))
      else if vo_max_inflight o' = 0 \<or> vo_max_inflight o' > kNetworkLimitsMaxInflight
      then Inl (MakeError InvalidArgument (ascii ''max_inflight out of range''))
      else if vo_max_handler_bytes o' = 0 \<or> vo_max_handler_bytes o' > kNetworkLimitsMaxBodyBytes
      then Inl (MakeError InvalidArgument (ascii ''max_handler_bytes out of range''))
      else if vo_incoming_timeout o' \<le> 0 \<or> vo_incoming_timeout o' > kNetworkLimitsMaxIncomingTimeout
      then Inl (MakeError InvalidArgument (ascii ''incoming_timeout out of range''))
      else Inr ())"

section \<open>State\<close>

record ReplyCompletionImpl =
  rp_session :: nat
  rp_kind :: FrameKind
  rp_lane :: TrafficClass
  rp_request_id :: bytes
  rp_service :: bytes
  rp_method :: bytes
  rp_request_schema :: bytes
  rp_response_schema :: bytes
  rp_message_id :: bytes
  rp_reply_deadline :: int
  rp_terminal :: bool

record AdmissionLeaseImpl =
  ls_lane :: TrafficClass
  ls_released :: bool

record AdmissionItem =
  ai_request :: Request
  ai_reply :: "nat option"
  ai_lease :: nat

record AdmissionQueueImpl =
  aq_max_items :: nat
  aq_max_bytes :: nat
  aq_queue :: "AdmissionItem list"
  aq_bytes :: u64
  aq_closed :: bool
  aq_queued_items :: "nat \<Rightarrow> u64"
  aq_queued_bytes :: "nat \<Rightarrow> u64"

definition ItemBytes :: "Request \<Rightarrow> nat" where
  "ItemBytes r = 64 + length (rq_payload r) + length (rq_service r) + length (rq_method r) + length (rq_request_id r)
     + length (rq_message_id r) + length (rq_request_schema r) + length (rq_response_schema r) + length (rq_ordering_key r)
     + sum_list (map (\<lambda>(k, v). length k + length v) (rq_metadata r))"

text \<open>Creation also needs a handler, a running scheduler, and the registration of the worker.\<close>

definition AdmissionQueue_Create :: "nat \<Rightarrow> nat \<Rightarrow> bool \<Rightarrow> bool \<Rightarrow> bool \<Rightarrow> AdmissionQueueImpl result" where
  "AdmissionQueue_Create max_items max_bytes has_handler initialized registered =
     (if max_items = 0 \<or> max_bytes = 0 \<or> \<not> has_handler
      then Inl (Err InvalidArgument (ascii ''admission queue requires bounds and handler''))
      else if \<not> initialized then Inl (Err RuntimeUnavailable (ascii ''coroutine scheduler not running''))
      else if \<not> registered then Inl (Err RuntimeUnavailable (ascii ''admission worker registration failed''))
      else Inr \<lparr>aq_max_items = max_items, aq_max_bytes = max_bytes, aq_queue = [], aq_bytes = 0, aq_closed = False,
        aq_queued_items = (\<lambda>_. 0), aq_queued_bytes = (\<lambda>_. 0)\<rparr>)"

text \<open>The reader of a link inside \<^verbatim>\<open>AdmitInbound\<close>, between its critical sections.\<close>

datatype admit_pc = AdIdle | AdCounted Request "nat option" | AdOver Request "nat option" | AdCharged AdmissionItem
  | AdFull AdmissionItem | AdRefused AdmissionItem Error | AdSettled AdmissionItem | AdReleased Request | AdDropped Request

datatype worker_pc = WkIdle | WkHandling AdmissionItem | WkHandled AdmissionItem "unit result"
  | WkReplied AdmissionItem bool | WkDropping Request | WkExited

record ServerV2State =
  sv_options :: ServerOptions
  sv_queue :: "AdmissionQueueImpl option"
  sv_callbacks :: u64
  sv_inflight :: "nat \<Rightarrow> u64"
  sv_finished :: "nat \<Rightarrow> u64"
  sv_dropped :: "nat \<Rightarrow> u64"
  sv_links :: "SessionCore option list"
  sv_readers :: "admit_pc list"
  sv_worker :: worker_pc
  sv_replies :: "ReplyCompletionImpl list"
  sv_leases :: "AdmissionLeaseImpl list"
  sv_posted :: "(nat \<times> SessionFrame) list"
  sv_handed :: "AdmissionItem list"

definition sv_init :: "ServerOptions \<Rightarrow> ServerV2State" where
  "sv_init o' = \<lparr>sv_options = o', sv_queue = None, sv_callbacks = 0, sv_inflight = (\<lambda>_. 0), sv_finished = (\<lambda>_. 0),
     sv_dropped = (\<lambda>_. 0), sv_links = [], sv_readers = [], sv_worker = WkIdle, sv_replies = [], sv_leases = [],
     sv_posted = [], sv_handed = []\<rparr>"

definition NoteInflight :: "nat \<Rightarrow> int \<Rightarrow> ServerV2State \<Rightarrow> ServerV2State" where
  "NoteInflight lane delta s = s\<lparr>sv_inflight := (sv_inflight s)(lane := sv_inflight s lane + word_of_int delta)\<rparr>"

definition note_dropped :: "nat \<Rightarrow> ServerV2State \<Rightarrow> ServerV2State" where
  "note_dropped lane s = s\<lparr>sv_dropped := (sv_dropped s)(lane := sv_dropped s lane + 1)\<rparr>"

definition set_link :: "nat \<Rightarrow> SessionCore \<Rightarrow> ServerV2State \<Rightarrow> ServerV2State" where
  "set_link l c s = s\<lparr>sv_links := (sv_links s)[l := Some c]\<rparr>"

definition set_reader :: "nat \<Rightarrow> admit_pc \<Rightarrow> ServerV2State \<Rightarrow> ServerV2State" where
  "set_reader l pc s = s\<lparr>sv_readers := (sv_readers s)[l := pc]\<rparr>"

section \<open>The admission queue\<close>

datatype admit_result = AdmitOk | AdmitClosed | AdmitFull

definition Admit :: "AdmissionItem \<Rightarrow> AdmissionQueueImpl \<Rightarrow> admit_result \<times> AdmissionQueueImpl" where
  "Admit item q =
     (let lane = LaneIndex (rq_traffic (ai_request item)); bytes = word_of_nat (ItemBytes (ai_request item))
      in if aq_closed q then (AdmitClosed, q)
         else if aq_max_items q \<le> length (aq_queue q) \<or> aq_bytes q + bytes > word_of_nat (aq_max_bytes q) then (AdmitFull, q)
         else (AdmitOk, q\<lparr>aq_queued_items := (aq_queued_items q)(lane := aq_queued_items q lane + 1),
           aq_queued_bytes := (aq_queued_bytes q)(lane := aq_queued_bytes q lane + bytes),
           aq_bytes := aq_bytes q + bytes, aq_queue := aq_queue q @ [item]\<rparr>))"

definition worker_pop :: "AdmissionQueueImpl \<Rightarrow> (AdmissionItem \<times> AdmissionQueueImpl) option" where
  "worker_pop q =
     (case aq_queue q of
        [] \<Rightarrow> None
      | item # rest \<Rightarrow>
          (let lane = LaneIndex (rq_traffic (ai_request item)); bytes = word_of_nat (ItemBytes (ai_request item))
           in Some (item, q\<lparr>aq_queue := rest, aq_bytes := aq_bytes q - bytes,
             aq_queued_items := (aq_queued_items q)(lane := aq_queued_items q lane - 1),
             aq_queued_bytes := (aq_queued_bytes q)(lane := aq_queued_bytes q lane - bytes)\<rparr>)))"

definition AdmissionQueue_Close :: "AdmissionQueueImpl \<Rightarrow> AdmissionQueueImpl" where
  "AdmissionQueue_Close q = q\<lparr>aq_closed := True\<rparr>"

section \<open>Replies and leases\<close>

definition Release :: "nat \<Rightarrow> ServerV2State \<Rightarrow> bool \<times> ServerV2State" where
  "Release j s =
     (if ls_released (sv_leases s ! j) then (False, s)
      else let lane = LaneIndex (ls_lane (sv_leases s ! j));
               t = NoteInflight lane (- 1) (s\<lparr>sv_leases := (sv_leases s)[j := (sv_leases s ! j)\<lparr>ls_released := True\<rparr>]\<rparr>)
           in (True, t\<lparr>sv_finished := (sv_finished t)(lane := sv_finished t lane + 1)\<rparr>))"

definition mark_terminal :: "nat \<Rightarrow> ServerV2State \<Rightarrow> ServerV2State" where
  "mark_terminal i s = s\<lparr>sv_replies := (sv_replies s)[i := (sv_replies s ! i)\<lparr>rp_terminal := True\<rparr>]\<rparr>"

definition error_reply_frame :: "ReplyCompletionImpl \<Rightarrow> u64 \<Rightarrow> Error \<Rightarrow> SessionFrame" where
  "error_reply_frame p epoch e =
     (let f = default_SessionFrame\<lparr>sf_session_epoch := epoch, sf_has_outcome := True, sf_success := False, sf_error := e\<rparr>
      in if rp_kind p = FkSendAccepted
         then f\<lparr>sf_kind := FkSendAccepted, sf_traffic := TcSystem, sf_message_id := rp_message_id p, sf_reply := RmNone\<rparr>
         else f\<lparr>sf_kind := FkResponse, sf_traffic := rp_lane p, sf_request_id := rp_request_id p,
           sf_service := rp_service p, sf_method := rp_method p, sf_request_schema := rp_request_schema p,
           sf_response_schema := rp_response_schema p, sf_reply := RmRequired\<rparr>)"

definition accepted_frame :: "ReplyCompletionImpl \<Rightarrow> u64 \<Rightarrow> SessionFrame" where
  "accepted_frame p epoch = default_SessionFrame\<lparr>sf_kind := FkSendAccepted, sf_traffic := TcSystem,
     sf_session_epoch := epoch, sf_has_outcome := True, sf_success := True, sf_message_id := rp_message_id p\<rparr>"

definition response_matches :: "ReplyCompletionImpl \<Rightarrow> Response \<Rightarrow> bool" where
  "response_matches p r \<longleftrightarrow> rs_request_id r = rp_request_id p \<and> rs_service r = rp_service p \<and> rs_method r = rp_method p
     \<and> rs_request_schema r = rp_request_schema p \<and> rs_response_schema r = rp_response_schema p"

text \<open>Encode a terminal frame and hand it to its lane with a credential; the credential is the result.\<close>

definition post_terminal ::
  "(SessionFrameMsg \<Rightarrow> byte list option) \<Rightarrow> ClientOptions \<Rightarrow> int \<Rightarrow> nat \<Rightarrow> nat \<Rightarrow> SessionCore \<Rightarrow> SessionFrame
     \<Rightarrow> ServerV2State \<Rightarrow> nat result \<times> ServerV2State" where
  "post_terminal serialize opts deadline i l c f s =
     (case EncodeFramedSessionFrame serialize f (co_max_frame_bytes opts) of
        Inl e \<Rightarrow> (Inl e, s)
      | Inr bs \<Rightarrow>
          (case post_reply opts \<lparr>oi_bytes = bs, oi_lane = sf_traffic f, oi_key = [], oi_deadline = deadline,
              oi_control_response = True, oi_settle = None\<rparr> c of
             (Inl e, d) \<Rightarrow> (Inl e, set_link l d s)
           | (Inr _, d) \<Rightarrow> (Inr (length (sc_settles c)), (set_link l d s)\<lparr>sv_posted := sv_posted s @ [(i, f)]\<rparr>)))"

text \<open>What \<^verbatim>\<open>Complete\<close> and \<^verbatim>\<open>Fail\<close> come to: an immediate result, or the wait for the credential with that index on
  that link.\<close>

datatype completion = CrDone "unit result" | CrWait nat nat

definition completion_of :: "nat \<Rightarrow> nat result \<Rightarrow> completion" where
  "completion_of l r = (case r of Inl e \<Rightarrow> CrDone (Inl e) | Inr k \<Rightarrow> CrWait l k)"

definition begin_reply :: "bool \<Rightarrow> nat \<Rightarrow> ServerV2State \<Rightarrow> Error option" where
  "begin_reply in_coroutine i s =
     (if \<not> in_coroutine then Some (Err InvalidContext (ascii ''reply completion requires coroutine context''))
      else if rp_terminal (sv_replies s ! i) then Some (Err InvalidArgument (ascii ''reply completion already terminal''))
      else None)"

definition live_link :: "nat \<Rightarrow> ServerV2State \<Rightarrow> SessionCore option" where
  "live_link l s = (case sv_links s ! l of None \<Rightarrow> None | Some c \<Rightarrow> if lo_dead c then None else Some c)"

definition Complete ::
  "(SessionFrameMsg \<Rightarrow> byte list option) \<Rightarrow> ClientOptions \<Rightarrow> bool \<Rightarrow> nat \<Rightarrow> Response \<Rightarrow> ServerV2State
     \<Rightarrow> completion \<times> ServerV2State" where
  "Complete serialize opts in_coroutine i response s =
     (let p = sv_replies s ! i; l = rp_session p; t = mark_terminal i s
      in case begin_reply in_coroutine i s of
        Some e \<Rightarrow> (CrDone (Inl e), s)
      | None \<Rightarrow>
          (case live_link l s of
             None \<Rightarrow> (CrDone (Inl (Err Closed (ascii ''session closed before reply''))), t)
           | Some c \<Rightarrow>
               if rp_kind p = FkSendAccepted
               then (let (r, u) = post_terminal serialize opts (rp_reply_deadline p) i l c (accepted_frame p (sc_epoch c)) t
                     in (completion_of l r, u))
               else if \<not> response_matches p response
               then (let (r, u) = post_terminal serialize opts (rp_reply_deadline p) i l c
                           (error_reply_frame p (sc_epoch c) (Err ProtocolError (ascii ''response correlation mismatch''))) t
                     in (CrDone (Inl (Err ProtocolError (ascii ''response correlation mismatch''))), u))
               else case ResponseToSessionFrame response (sc_epoch c) of
                 Inl e \<Rightarrow> (CrDone (Inl e), t)
               | Inr f \<Rightarrow> (let (r, u) = post_terminal serialize opts (rp_reply_deadline p) i l c (f\<lparr>sf_traffic := rp_lane p\<rparr>) t
                           in (completion_of l r, u))))"

definition Fail ::
  "(SessionFrameMsg \<Rightarrow> byte list option) \<Rightarrow> ClientOptions \<Rightarrow> bool \<Rightarrow> nat \<Rightarrow> Error \<Rightarrow> ServerV2State
     \<Rightarrow> completion \<times> ServerV2State" where
  "Fail serialize opts in_coroutine i e s =
     (let p = sv_replies s ! i; l = rp_session p; t = mark_terminal i s
      in case begin_reply in_coroutine i s of
        Some e' \<Rightarrow> (CrDone (Inl e'), s)
      | None \<Rightarrow>
          (case live_link l s of
             None \<Rightarrow> (CrDone (Inl (Err Closed (ascii ''session closed before reply''))), t)
           | Some c \<Rightarrow>
               (let (r, u) = post_terminal serialize opts (rp_reply_deadline p) i l c (error_reply_frame p (sc_epoch c) e) t
                in (completion_of l r, u))))"

text \<open>What the caller of \<^verbatim>\<open>Complete\<close> or \<^verbatim>\<open>Fail\<close> gets after the wait, from its status and the outcome of the credential.\<close>

definition reply_wait_result :: "WaitStatus \<Rightarrow> unit result \<Rightarrow> unit result" where
  "reply_wait_result status outcome =
     (case status of
        WsCompleted \<Rightarrow> outcome
      | WsCancelled \<Rightarrow> Inl (Err Cancelled (ascii ''reply write wait cancelled''))
      | WsTimedOut \<Rightarrow> Inl (Err TimedOut (ascii ''reply write not settled in budget''))
      | _ \<Rightarrow> Inl (Err Unavailable (ascii ''reply write wait unavailable'')))"

text \<open>The refusal of an inbound request on the reader, which must not wait: claim the reply, then post.\<close>

definition PostReplyErrorNoWait ::
  "(SessionFrameMsg \<Rightarrow> byte list option) \<Rightarrow> ClientOptions \<Rightarrow> int \<Rightarrow> nat option \<Rightarrow> Error \<Rightarrow> ServerV2State \<Rightarrow> ServerV2State" where
  "PostReplyErrorNoWait serialize opts now reply e s =
     (case reply of
        None \<Rightarrow> s
      | Some i \<Rightarrow>
          (if rp_terminal (sv_replies s ! i) then s
           else let p = sv_replies s ! i; l = rp_session p; t = mark_terminal i s
                in case live_link l s of
                     None \<Rightarrow> t
                   | Some c \<Rightarrow> snd (post_terminal serialize opts (now + 5000000000) i l c (error_reply_frame p (sc_epoch c) e) t)))"

section \<open>Admitting a request\<close>

definition make_reply :: "nat \<Rightarrow> SessionFrame \<Rightarrow> Request \<Rightarrow> ReplyCompletionImpl option" where
  "make_reply l f r =
     (let p = \<lparr>rp_session = l, rp_kind = FkResponse, rp_lane = rq_traffic r, rp_request_id = [], rp_service = [],
            rp_method = [], rp_request_schema = [], rp_response_schema = [], rp_message_id = [],
            rp_reply_deadline = rc_deadline (rq_context r), rp_terminal = False\<rparr>
      in if sf_kind f = FkCall
         then Some (p\<lparr>rp_request_id := sf_request_id f, rp_service := sf_service f, rp_method := sf_method f,
           rp_request_schema := sf_request_schema f, rp_response_schema := sf_response_schema f\<rparr>)
         else if sf_kind f = FkSend \<and> sf_acceptance_requested f = Some True
         then Some (p\<lparr>rp_kind := FkSendAccepted, rp_message_id := sf_message_id f\<rparr>)
         else None)"

definition admit_begin ::
  "(SessionFrameMsg \<Rightarrow> byte list option) \<Rightarrow> ClientOptions \<Rightarrow> int \<Rightarrow> nat \<Rightarrow> SessionCore \<Rightarrow> SessionFrame \<Rightarrow> Request
     \<Rightarrow> ServerV2State \<Rightarrow> ServerV2State" where
  "admit_begin serialize opts now l c f r s =
     (case sv_queue s of
        None \<Rightarrow> set_link l (note_inflight (rq_traffic r) (\<lambda>st. st\<lparr>ts_dropped := ts_dropped st + 1\<rparr>)
          (PostSessionError serialize opts now (Err Unavailable (ascii ''no inbound admission target'')) c)) s
      | Some q \<Rightarrow>
          (let t = set_link l (note_inflight (rq_traffic r) (inflight_add 1) c) s
           in case make_reply l f r of
                None \<Rightarrow> set_reader l (AdCounted r None) t
              | Some p \<Rightarrow> set_reader l (AdCounted r (Some (length (sv_replies s)))) (t\<lparr>sv_replies := sv_replies s @ [p]\<rparr>)))"

definition admit_charge :: "nat \<Rightarrow> Request \<Rightarrow> nat option \<Rightarrow> ServerV2State \<Rightarrow> ServerV2State" where
  "admit_charge l r reply s =
     (let lane = LaneIndex (rq_traffic r)
      in if word_of_nat (vo_max_inflight (sv_options s)) \<le> sv_inflight s lane
         then set_reader l (AdOver r reply) (note_dropped lane s)
         else set_reader l (AdCharged \<lparr>ai_request = r, ai_reply = reply, ai_lease = length (sv_leases s)\<rparr>)
           ((NoteInflight lane 1 s)\<lparr>sv_leases := sv_leases s @ [\<lparr>ls_lane = rq_traffic r, ls_released = False\<rparr>]\<rparr>))"

definition uncount :: "nat \<Rightarrow> TrafficClass \<Rightarrow> ServerV2State \<Rightarrow> ServerV2State" where
  "uncount l c s = (case sv_links s ! l of None \<Rightarrow> s | Some k \<Rightarrow> set_link l (note_inflight c call_dropped k) s)"

definition admit_over ::
  "(SessionFrameMsg \<Rightarrow> byte list option) \<Rightarrow> ClientOptions \<Rightarrow> int \<Rightarrow> nat \<Rightarrow> Request \<Rightarrow> nat option \<Rightarrow> ServerV2State \<Rightarrow> ServerV2State" where
  "admit_over serialize opts now l r reply s =
     set_reader l AdIdle (PostReplyErrorNoWait serialize opts now reply (Err Overloaded (ascii ''inflight limit reached''))
       (uncount l (rq_traffic r) s))"

definition admit_enqueue :: "nat \<Rightarrow> AdmissionItem \<Rightarrow> ServerV2State \<Rightarrow> ServerV2State" where
  "admit_enqueue l item s =
     (case sv_queue s of
        None \<Rightarrow> s
      | Some q \<Rightarrow>
          (case Admit item q of
             (AdmitClosed, _) \<Rightarrow> set_reader l (AdRefused item (Err Closed (ascii ''admission queue closed''))) s
           | (AdmitFull, _) \<Rightarrow> set_reader l (AdFull item) s
           | (AdmitOk, q') \<Rightarrow> set_reader l AdIdle (s\<lparr>sv_queue := Some q'\<rparr>)))"

definition admit_full :: "nat \<Rightarrow> AdmissionItem \<Rightarrow> ServerV2State \<Rightarrow> ServerV2State" where
  "admit_full l item s = set_reader l (AdRefused item (Err Overloaded (ascii ''admission queue full'')))
     (note_dropped (LaneIndex (rq_traffic (ai_request item))) s)"

definition admit_refuse ::
  "(SessionFrameMsg \<Rightarrow> byte list option) \<Rightarrow> ClientOptions \<Rightarrow> int \<Rightarrow> nat \<Rightarrow> AdmissionItem \<Rightarrow> Error \<Rightarrow> ServerV2State \<Rightarrow> ServerV2State" where
  "admit_refuse serialize opts now l item e s =
     set_reader l (AdSettled item) (PostReplyErrorNoWait serialize opts now (ai_reply item) e s)"

definition admit_release :: "nat \<Rightarrow> AdmissionItem \<Rightarrow> ServerV2State \<Rightarrow> ServerV2State" where
  "admit_release l item s = set_reader l (AdReleased (ai_request item)) (snd (Release (ai_lease item) s))"

definition admit_drop :: "nat \<Rightarrow> Request \<Rightarrow> ServerV2State \<Rightarrow> ServerV2State" where
  "admit_drop l r s = set_reader l (AdDropped r) (note_dropped (LaneIndex (rq_traffic r)) s)"

definition admit_end :: "nat \<Rightarrow> Request \<Rightarrow> ServerV2State \<Rightarrow> ServerV2State" where
  "admit_end l r s = set_reader l AdIdle (uncount l (rq_traffic r) s)"

section \<open>The worker\<close>

definition ForSendAcceptance :: "AdmissionItem \<Rightarrow> ServerV2State \<Rightarrow> bool" where
  "ForSendAcceptance item s = (case ai_reply item of None \<Rightarrow> False | Some i \<Rightarrow> rp_kind (sv_replies s ! i) = FkSendAccepted)"

definition worker_take :: "ServerV2State \<Rightarrow> ServerV2State" where
  "worker_take s =
     (case sv_queue s of
        None \<Rightarrow> s
      | Some q \<Rightarrow>
          (case worker_pop q of
             Some (item, q') \<Rightarrow> s\<lparr>sv_queue := Some q', sv_worker := WkHandling item, sv_handed := sv_handed s @ [item]\<rparr>
           | None \<Rightarrow> (if aq_closed q then s\<lparr>sv_worker := WkExited\<rparr> else s)))"

text \<open>The handler returns, an exception being an internal error.\<close>

definition worker_handled :: "AdmissionItem \<Rightarrow> unit result option \<Rightarrow> ServerV2State \<Rightarrow> ServerV2State" where
  "worker_handled item outcome s =
     s\<lparr>sv_callbacks := sv_callbacks s + 1,
       sv_worker := WkHandled item (case outcome of None \<Rightarrow> Inl (Err InternalError (ascii ''admission handler threw'')) | Some r \<Rightarrow> r)\<rparr>"

definition empty_Response :: Response where
  "empty_Response = \<lparr>rs_request_id = [], rs_service = [], rs_method = [], rs_request_schema = [], rs_response_schema = [],
     rs_payload = [], rs_metadata = []\<rparr>"

definition worker_reply ::
  "(SessionFrameMsg \<Rightarrow> byte list option) \<Rightarrow> ClientOptions \<Rightarrow> AdmissionItem \<Rightarrow> unit result \<Rightarrow> ServerV2State \<Rightarrow> ServerV2State" where
  "worker_reply serialize opts item handled s =
     (let is_call = (rq_reply (ai_request item) = RmRequired);
          t = (case ai_reply item of
                 None \<Rightarrow> s
               | Some i \<Rightarrow>
                   (case handled of
                      Inr _ \<Rightarrow> (if ForSendAcceptance item s then snd (Complete serialize opts True i empty_Response s) else s)
                    | Inl e \<Rightarrow> (if \<not> rp_terminal (sv_replies s ! i) \<and> (ForSendAcceptance item s \<or> is_call)
                                then snd (Fail serialize opts True i e s) else s)))
      in t\<lparr>sv_worker := WkReplied item (case handled of Inr _ \<Rightarrow> True | Inl _ \<Rightarrow> False)\<rparr>)"

definition worker_release :: "AdmissionItem \<Rightarrow> bool \<Rightarrow> ServerV2State \<Rightarrow> ServerV2State" where
  "worker_release item handled s =
     (if handled
      then (if rq_reply (ai_request item) = RmRequired then s else snd (Release (ai_lease item) s))\<lparr>sv_worker := WkIdle\<rparr>
      else (snd (Release (ai_lease item) s))\<lparr>sv_worker := WkDropping (ai_request item)\<rparr>)"

definition worker_drop :: "Request \<Rightarrow> ServerV2State \<Rightarrow> ServerV2State" where
  "worker_drop r s = (note_dropped (LaneIndex (rq_traffic r)) s)\<lparr>sv_worker := WkIdle\<rparr>"

section \<open>Starting, closing and draining\<close>

text \<open>The part of \<^verbatim>\<open>ServerV2Start\<close> that makes the queue.\<close>

definition start_queue :: "bool \<Rightarrow> bool \<Rightarrow> ServerV2State \<Rightarrow> unit result \<times> ServerV2State" where
  "start_queue initialized registered s =
     (case AdmissionQueue_Create (vo_max_inflight (sv_options s)) (vo_max_handler_bytes (sv_options s)) True initialized registered of
        Inl e \<Rightarrow> (Inl e, s)
      | Inr q \<Rightarrow> (Inr (), s\<lparr>sv_queue := Some q\<rparr>))"

definition close_queue :: "ServerV2State \<Rightarrow> ServerV2State" where
  "close_queue s = s\<lparr>sv_queue := map_option AdmissionQueue_Close (sv_queue s)\<rparr>"

definition DrainedLocked :: "ServerV2State \<Rightarrow> bool" where
  "DrainedLocked s \<longleftrightarrow> (\<forall>lane < kLaneCount. sv_inflight s lane = 0)
     \<and> (case sv_queue s of None \<Rightarrow> True | Some q \<Rightarrow> length (aq_queue q) = 0)
     \<and> list_all (\<lambda>w. case w of None \<Rightarrow> True | Some c \<Rightarrow> lo_outstanding c = 0) (sv_links s)"

section \<open>All interleavings\<close>

inductive server_step ::
  "(SessionFrameMsg \<Rightarrow> byte list option) \<Rightarrow> ClientOptions \<Rightarrow> ServerV2State \<Rightarrow> ServerV2State \<Rightarrow> bool" for serialize opts where
  start: "sv_queue s = None \<Longrightarrow> server_step serialize opts s (snd (start_queue initialized registered s))"
| close: "server_step serialize opts s (close_queue s)"
| install: "server_step serialize opts s (s\<lparr>sv_links := sv_links s @ [Some (sc_init epoch peer)], sv_readers := sv_readers s @ [AdIdle]\<rparr>)"
| expire: "l < length (sv_links s) \<Longrightarrow> sv_readers s ! l = AdIdle \<Longrightarrow>
    server_step serialize opts s (s\<lparr>sv_links := (sv_links s)[l := None]\<rparr>)"
| link: "l < length (sv_links s) \<Longrightarrow> sv_links s ! l = Some c \<Longrightarrow> link_step serialize opts c d \<Longrightarrow>
    server_step serialize opts s (set_link l d s)"
| inbound: "l < length (sv_links s) \<Longrightarrow> sv_links s ! l = Some c \<Longrightarrow> sv_readers s ! l = AdIdle \<Longrightarrow> sc_reader c = RIdle \<Longrightarrow>
    DispatchInbound serialize opts now timeout f c = (DispatchAdmit r, d) \<Longrightarrow> ItemBytes r < 2 ^ 63 \<Longrightarrow>
    server_step serialize opts s (admit_begin serialize opts now l d f r s)"
| charge: "l < length (sv_readers s) \<Longrightarrow> sv_readers s ! l = AdCounted r reply \<Longrightarrow> server_step serialize opts s (admit_charge l r reply s)"
| over: "l < length (sv_readers s) \<Longrightarrow> sv_readers s ! l = AdOver r reply \<Longrightarrow>
    server_step serialize opts s (admit_over serialize opts now l r reply s)"
| enqueue: "l < length (sv_readers s) \<Longrightarrow> sv_readers s ! l = AdCharged item \<Longrightarrow> server_step serialize opts s (admit_enqueue l item s)"
| full: "l < length (sv_readers s) \<Longrightarrow> sv_readers s ! l = AdFull item \<Longrightarrow> server_step serialize opts s (admit_full l item s)"
| refuse: "l < length (sv_readers s) \<Longrightarrow> sv_readers s ! l = AdRefused item e \<Longrightarrow>
    server_step serialize opts s (admit_refuse serialize opts now l item e s)"
| release_refused: "l < length (sv_readers s) \<Longrightarrow> sv_readers s ! l = AdSettled item \<Longrightarrow>
    server_step serialize opts s (admit_release l item s)"
| drop_refused: "l < length (sv_readers s) \<Longrightarrow> sv_readers s ! l = AdReleased r \<Longrightarrow> server_step serialize opts s (admit_drop l r s)"
| end_refused: "l < length (sv_readers s) \<Longrightarrow> sv_readers s ! l = AdDropped r \<Longrightarrow> server_step serialize opts s (admit_end l r s)"
| take: "sv_worker s = WkIdle \<Longrightarrow> server_step serialize opts s (worker_take s)"
| handled: "sv_worker s = WkHandling item \<Longrightarrow> server_step serialize opts s (worker_handled item outcome s)"
| reply: "sv_worker s = WkHandled item handled \<Longrightarrow> server_step serialize opts s (worker_reply serialize opts item handled s)"
| worker_releases: "sv_worker s = WkReplied item ok \<Longrightarrow> server_step serialize opts s (worker_release item ok s)"
| worker_drops: "sv_worker s = WkDropping r \<Longrightarrow> server_step serialize opts s (worker_drop r s)"
| framework_completes: "item \<in> set (sv_handed s) \<Longrightarrow> ai_reply item = Some i \<Longrightarrow>
    server_step serialize opts s (snd (Complete serialize opts co i response s))"
| framework_fails: "item \<in> set (sv_handed s) \<Longrightarrow> ai_reply item = Some i \<Longrightarrow>
    server_step serialize opts s (snd (Fail serialize opts co i e s))"
| framework_releases: "item \<in> set (sv_handed s) \<Longrightarrow> server_step serialize opts s (snd (Release (ai_lease item) s))"

definition server_reachable ::
  "(SessionFrameMsg \<Rightarrow> byte list option) \<Rightarrow> ClientOptions \<Rightarrow> ServerOptions \<Rightarrow> ServerV2State \<Rightarrow> bool" where
  "server_reachable serialize opts o' s \<longleftrightarrow> (server_step serialize opts)\<^sup>*\<^sup>* (sv_init o') s"

end
