(* ===== verification/AdmissionGuarantees.thy ===== *)
theory AdmissionGuarantees
  imports Admission
begin

text \<open>
  The ledgers of the server side under every interleaving of readers, worker and framework: the in-flight counters
  count exactly the leases held, the admission queue is bounded and its gauges are exact, every reply posts at most one
  terminal frame, and every link behaves like a link on its own, so that a drained server has nothing left to settle.
\<close>

section \<open>What each operation leaves alone\<close>

lemma set_link_fields [simp]:
  "sv_options (set_link l c s) = sv_options s" "sv_queue (set_link l c s) = sv_queue s"
  "sv_inflight (set_link l c s) = sv_inflight s" "sv_finished (set_link l c s) = sv_finished s"
  "sv_readers (set_link l c s) = sv_readers s" "sv_worker (set_link l c s) = sv_worker s"
  "sv_replies (set_link l c s) = sv_replies s" "sv_leases (set_link l c s) = sv_leases s"
  "sv_posted (set_link l c s) = sv_posted s" "sv_handed (set_link l c s) = sv_handed s"
  "sv_links (set_link l c s) = (sv_links s)[l := Some c]"
  by (simp_all add: set_link_def)

lemma set_reader_fields [simp]:
  "sv_options (set_reader l pc s) = sv_options s" "sv_queue (set_reader l pc s) = sv_queue s"
  "sv_inflight (set_reader l pc s) = sv_inflight s" "sv_finished (set_reader l pc s) = sv_finished s"
  "sv_readers (set_reader l pc s) = (sv_readers s)[l := pc]" "sv_worker (set_reader l pc s) = sv_worker s"
  "sv_replies (set_reader l pc s) = sv_replies s" "sv_leases (set_reader l pc s) = sv_leases s"
  "sv_posted (set_reader l pc s) = sv_posted s" "sv_handed (set_reader l pc s) = sv_handed s"
  "sv_links (set_reader l pc s) = sv_links s"
  by (simp_all add: set_reader_def)

lemma note_dropped_fields [simp]:
  "sv_options (note_dropped l s) = sv_options s" "sv_queue (note_dropped l s) = sv_queue s"
  "sv_inflight (note_dropped l s) = sv_inflight s" "sv_finished (note_dropped l s) = sv_finished s"
  "sv_readers (note_dropped l s) = sv_readers s" "sv_worker (note_dropped l s) = sv_worker s"
  "sv_replies (note_dropped l s) = sv_replies s" "sv_leases (note_dropped l s) = sv_leases s"
  "sv_posted (note_dropped l s) = sv_posted s" "sv_handed (note_dropped l s) = sv_handed s"
  "sv_links (note_dropped l s) = sv_links s"
  by (simp_all add: note_dropped_def)

lemma uncount_fields [simp]:
  "sv_options (uncount l c s) = sv_options s" "sv_queue (uncount l c s) = sv_queue s"
  "sv_inflight (uncount l c s) = sv_inflight s" "sv_finished (uncount l c s) = sv_finished s"
  "sv_readers (uncount l c s) = sv_readers s" "sv_worker (uncount l c s) = sv_worker s"
  "sv_replies (uncount l c s) = sv_replies s" "sv_leases (uncount l c s) = sv_leases s"
  "sv_posted (uncount l c s) = sv_posted s" "sv_handed (uncount l c s) = sv_handed s"
  "length (sv_links (uncount l c s)) = length (sv_links s)"
  by (simp_all add: uncount_def split: option.split)

lemma Release_fields [simp]:
  "sv_options (snd (Release j s)) = sv_options s" "sv_queue (snd (Release j s)) = sv_queue s"
  "sv_readers (snd (Release j s)) = sv_readers s" "sv_worker (snd (Release j s)) = sv_worker s"
  "sv_replies (snd (Release j s)) = sv_replies s" "sv_links (snd (Release j s)) = sv_links s"
  "sv_posted (snd (Release j s)) = sv_posted s" "sv_handed (snd (Release j s)) = sv_handed s"
  "length (sv_leases (snd (Release j s))) = length (sv_leases s)"
  by (simp_all add: Release_def Let_def NoteInflight_def)

text \<open>A terminal frame belongs to its reply.\<close>

definition reply_frame :: "SessionFrame \<Rightarrow> ReplyCompletionImpl \<Rightarrow> bool" where
  "reply_frame f p \<longleftrightarrow> (if rp_kind p = FkSendAccepted
     then sf_kind f = FkSendAccepted \<and> sf_message_id f = rp_message_id p \<and> sf_traffic f = TcSystem
     else sf_kind f = FkResponse \<and> sf_request_id f = rp_request_id p \<and> sf_service f = rp_service p \<and> sf_method f = rp_method p
       \<and> sf_request_schema f = rp_request_schema p \<and> sf_response_schema f = rp_response_schema p \<and> sf_traffic f = rp_lane p)"

text \<open>Everything that ends a reply goes through one shape of step: nothing, a claim, or a claim and a post.\<close>

inductive reply_change ::
  "(SessionFrameMsg \<Rightarrow> byte list option) \<Rightarrow> ClientOptions \<Rightarrow> nat \<Rightarrow> ServerV2State \<Rightarrow> ServerV2State \<Rightarrow> bool"
  for serialize opts i s where
  unchanged: "reply_change serialize opts i s s"
| claimed: "\<not> rp_terminal (sv_replies s ! i) \<Longrightarrow> reply_change serialize opts i s (mark_terminal i s)"
| posted: "\<not> rp_terminal (sv_replies s ! i) \<Longrightarrow> live_link (rp_session (sv_replies s ! i)) s = Some c \<Longrightarrow>
    reply_frame f (sv_replies s ! i) \<Longrightarrow>
    post_terminal serialize opts deadline i (rp_session (sv_replies s ! i)) c f (mark_terminal i s) = (r, t) \<Longrightarrow>
    reply_change serialize opts i s t"

lemma error_reply_frame_ok: "reply_frame (error_reply_frame p epoch e) p"
  by (simp add: reply_frame_def error_reply_frame_def Let_def default_SessionFrame_def)

lemma accepted_frame_ok: "rp_kind p = FkSendAccepted \<Longrightarrow> reply_frame (accepted_frame p epoch) p"
  by (simp add: reply_frame_def accepted_frame_def default_SessionFrame_def)

lemma response_frame_ok:
  "rp_kind p \<noteq> FkSendAccepted \<Longrightarrow> response_matches p r \<Longrightarrow> ResponseToSessionFrame r epoch = Inr f \<Longrightarrow>
   reply_frame (f\<lparr>sf_traffic := rp_lane p\<rparr>) p"
  by (auto simp: reply_frame_def response_matches_def ResponseToSessionFrame_def)

lemma Complete_change: "reply_change serialize opts i s (snd (Complete serialize opts co i response s))"
proof (cases "begin_reply co i s")
  case None
  then have fresh: "\<not> rp_terminal (sv_replies s ! i)" by (simp add: begin_reply_def split: if_splits)
  let ?p = "sv_replies s ! i"
  show ?thesis
  proof (cases "live_link (rp_session ?p) s")
    case (Some c)
    note post = reply_change.posted [OF fresh Some _ prod.collapse [symmetric]]
    show ?thesis
      using None Some post [OF accepted_frame_ok] post [OF error_reply_frame_ok] post [OF response_frame_ok]
        reply_change.claimed [OF fresh]
      by (auto simp: Complete_def Let_def case_prod_beta split: sum.split)
  qed (use None reply_change.claimed [OF fresh] in \<open>simp add: Complete_def Let_def\<close>)
qed (simp add: Complete_def Let_def reply_change.unchanged)

lemma Fail_change: "reply_change serialize opts i s (snd (Fail serialize opts co i e s))"
proof (cases "begin_reply co i s")
  case None
  then have fresh: "\<not> rp_terminal (sv_replies s ! i)" by (simp add: begin_reply_def split: if_splits)
  show ?thesis
  proof (cases "live_link (rp_session (sv_replies s ! i)) s")
    case (Some c)
    show ?thesis
      using None Some reply_change.posted [OF fresh Some error_reply_frame_ok prod.collapse [symmetric]]
      by (simp add: Fail_def Let_def case_prod_beta)
  qed (use None reply_change.claimed [OF fresh] in \<open>simp add: Fail_def Let_def\<close>)
qed (simp add: Fail_def Let_def reply_change.unchanged)

lemma PostReplyErrorNoWait_change:
  "PostReplyErrorNoWait serialize opts now None e s = s"
  "reply_change serialize opts i s (PostReplyErrorNoWait serialize opts now (Some i) e s)"
  using reply_change.posted [OF _ _ error_reply_frame_ok prod.collapse [symmetric], of s i]
  by (auto simp: PostReplyErrorNoWait_def Let_def reply_change.unchanged intro: reply_change.claimed split: option.split)

lemma mark_terminal_fields [simp]:
  "sv_options (mark_terminal i s) = sv_options s" "sv_queue (mark_terminal i s) = sv_queue s"
  "sv_inflight (mark_terminal i s) = sv_inflight s" "sv_finished (mark_terminal i s) = sv_finished s"
  "sv_readers (mark_terminal i s) = sv_readers s" "sv_worker (mark_terminal i s) = sv_worker s"
  "sv_leases (mark_terminal i s) = sv_leases s" "sv_links (mark_terminal i s) = sv_links s"
  "sv_posted (mark_terminal i s) = sv_posted s" "sv_handed (mark_terminal i s) = sv_handed s"
  "sv_replies (mark_terminal i s) = (sv_replies s)[i := (sv_replies s ! i)\<lparr>rp_terminal := True\<rparr>]"
  by (simp_all add: mark_terminal_def)

lemma post_terminal_cases:
  assumes "post_terminal serialize opts deadline i l c f s = (r, t)"
  shows "t = s \<or> (\<exists>d. link_step serialize opts c d \<and> (t = set_link l d s \<or> t = (set_link l d s)\<lparr>sv_posted := sv_posted s @ [(i, f)]\<rparr>))"
proof (cases "EncodeFramedSessionFrame serialize f (co_max_frame_bytes opts)")
  case (Inr bs)
  let ?item = "\<lparr>oi_bytes = bs, oi_lane = sf_traffic f, oi_key = [], oi_deadline = deadline, oi_control_response = True, oi_settle = None\<rparr>"
  have "post_frame serialize opts deadline f = Some ?item" using Inr by (simp add: post_frame_def)
  then have "link_step serialize opts c (snd (post_reply opts ?item c))" by (rule link_step.reply)
  then show ?thesis using assms Inr by (auto simp: post_terminal_def split: prod.splits sum.splits)
qed (use assms in \<open>simp add: post_terminal_def\<close>)

lemma reply_change_fields:
  assumes "reply_change serialize opts i s t"
  shows "sv_options t = sv_options s" "sv_queue t = sv_queue s" "sv_inflight t = sv_inflight s" "sv_finished t = sv_finished s"
    "sv_readers t = sv_readers s" "sv_worker t = sv_worker s" "sv_leases t = sv_leases s" "sv_handed t = sv_handed s"
    "length (sv_links t) = length (sv_links s)" "length (sv_replies t) = length (sv_replies s)"
    "map rp_session (sv_replies t) = map rp_session (sv_replies s)"
proof -
  have "length (sv_links t) = length (sv_links s) \<and> sv_replies t \<in> {sv_replies s, sv_replies (mark_terminal i s)}
    \<and> sv_options t = sv_options s \<and> sv_queue t = sv_queue s \<and> sv_inflight t = sv_inflight s \<and> sv_finished t = sv_finished s
    \<and> sv_readers t = sv_readers s \<and> sv_worker t = sv_worker s \<and> sv_leases t = sv_leases s \<and> sv_handed t = sv_handed s"
    using assms
  proof cases
    case (posted c f deadline r)
    from post_terminal_cases [OF posted(4)] show ?thesis by (elim disjE exE conjE) simp_all
  qed simp_all
  moreover have "map rp_session (sv_replies (mark_terminal i s)) = map rp_session (sv_replies s)"
    by (cases "i < length (sv_replies s)") (simp_all add: map_update list_update_same_conv list_update_beyond)
  moreover have "length (sv_replies (mark_terminal i s)) = length (sv_replies s)" by simp
  ultimately show "sv_options t = sv_options s" "sv_queue t = sv_queue s" "sv_inflight t = sv_inflight s" "sv_finished t = sv_finished s"
    "sv_readers t = sv_readers s" "sv_worker t = sv_worker s" "sv_leases t = sv_leases s" "sv_handed t = sv_handed s"
    "length (sv_links t) = length (sv_links s)" "length (sv_replies t) = length (sv_replies s)"
    "map rp_session (sv_replies t) = map rp_session (sv_replies s)" by (metis insertE singletonD)+
qed

section \<open>Leases and the in-flight counters\<close>

definition held :: "TrafficClass \<Rightarrow> ServerV2State \<Rightarrow> nat" where
  "held c s = length (filter (\<lambda>x. ls_lane x = c \<and> \<not> ls_released x) (sv_leases s))"

definition freed :: "TrafficClass \<Rightarrow> ServerV2State \<Rightarrow> nat" where
  "freed c s = length (filter (\<lambda>x. ls_lane x = c \<and> ls_released x) (sv_leases s))"

definition counts_ok :: "ServerV2State \<Rightarrow> bool" where
  "counts_ok s \<longleftrightarrow> (\<forall>c. sv_inflight s (LaneIndex c) = word_of_nat (held c s) \<and> held c s \<le> vo_max_inflight (sv_options s)
     \<and> sv_finished s (LaneIndex c) = word_of_nat (freed c s))"

lemma counts_ok_eq:
  "sv_options t = sv_options s \<Longrightarrow> sv_inflight t = sv_inflight s \<Longrightarrow> sv_finished t = sv_finished s \<Longrightarrow> sv_leases t = sv_leases s
   \<Longrightarrow> counts_ok t \<longleftrightarrow> counts_ok s"
  by (simp add: counts_ok_def held_def freed_def)

lemma counts_ok_release:
  assumes "counts_ok s" "j < length (sv_leases s)"
  shows "counts_ok (snd (Release j s))"
proof (cases "ls_released (sv_leases s ! j)")
  case False
  let ?x = "sv_leases s ! j" and ?t = "snd (Release j s)"
  have leases: "sv_leases ?t = (sv_leases s)[j := ?x\<lparr>ls_released := True\<rparr>]"
    and counters: "sv_inflight ?t = (sv_inflight s)(LaneIndex (ls_lane ?x) := sv_inflight s (LaneIndex (ls_lane ?x)) - 1)"
      "sv_finished ?t = (sv_finished s)(LaneIndex (ls_lane ?x) := sv_finished s (LaneIndex (ls_lane ?x)) + 1)"
    using False by (simp_all add: Release_def Let_def NoteInflight_def)
  have count: "held c s = held c ?t + (if c = ls_lane ?x then 1 else 0)" "freed c ?t = freed c s + (if c = ls_lane ?x then 1 else 0)" for c
    using filter_update_length [OF assms(2), of "\<lambda>x. ls_lane x = c \<and> \<not> ls_released x" "?x\<lparr>ls_released := True\<rparr>"]
      filter_update_length [OF assms(2), of "\<lambda>x. ls_lane x = c \<and> ls_released x" "?x\<lparr>ls_released := True\<rparr>"] False
    by (auto simp: held_def freed_def leases)
  show ?thesis unfolding counts_ok_def
  proof
    fix c
    show "sv_inflight ?t (LaneIndex c) = word_of_nat (held c ?t) \<and> held c ?t \<le> vo_max_inflight (sv_options ?t)
        \<and> sv_finished ?t (LaneIndex c) = word_of_nat (freed c ?t)"
      using assms(1) [unfolded counts_ok_def, rule_format, of c] count [of c]
      by (cases "c = ls_lane ?x") (simp_all add: counters)
  qed
qed (simp add: Release_def assms(1))

lemma counts_ok_charge:
  assumes "counts_ok s" "ServerOptions_Validate (sv_options s) = Inr ()"
  shows "counts_ok (admit_charge l r reply s)"
proof (cases "word_of_nat (vo_max_inflight (sv_options s)) \<le> sv_inflight s (LaneIndex (rq_traffic r))")
  case True
  then show ?thesis using assms(1) by (simp add: admit_charge_def Let_def counts_ok_def held_def freed_def)
next
  case False
  let ?t = "admit_charge l r reply s"
  have max: "vo_max_inflight (sv_options s) < 2 ^ 64"
    using assms(2) by (auto simp: ServerOptions_Validate_def kNetworkLimitsMaxInflight_def split: if_splits)
  have room: "held (rq_traffic r) s < vo_max_inflight (sv_options s)"
  proof (rule ccontr)
    assume "\<not> held (rq_traffic r) s < vo_max_inflight (sv_options s)"
    then have "held (rq_traffic r) s = vo_max_inflight (sv_options s)" using assms(1) by (meson counts_ok_def le_antisym not_less)
    then show False using False assms(1) by (simp add: counts_ok_def)
  qed
  have t: "sv_leases ?t = sv_leases s @ [\<lparr>ls_lane = rq_traffic r, ls_released = False\<rparr>]" "sv_options ?t = sv_options s"
    "sv_finished ?t = sv_finished s"
    "sv_inflight ?t = (sv_inflight s)(LaneIndex (rq_traffic r) := sv_inflight s (LaneIndex (rq_traffic r)) + 1)"
    using False by (simp_all add: admit_charge_def Let_def NoteInflight_def)
  have count: "held c ?t = held c s + (if c = rq_traffic r then 1 else 0)" "freed c ?t = freed c s" for c
    by (auto simp: held_def freed_def t)
  show ?thesis unfolding counts_ok_def
  proof
    fix c
    show "sv_inflight ?t (LaneIndex c) = word_of_nat (held c ?t) \<and> held c ?t \<le> vo_max_inflight (sv_options ?t)
        \<and> sv_finished ?t (LaneIndex c) = word_of_nat (freed c ?t)"
      using assms(1) [unfolded counts_ok_def, rule_format, of c] room count [of c]
      by (cases "c = rq_traffic r") (simp_all add: t)
  qed
qed

section \<open>The queue\<close>

definition queue_bytes :: "AdmissionItem list \<Rightarrow> nat" where
  "queue_bytes items = sum_list (map (ItemBytes \<circ> ai_request) items)"

abbreviation of_class :: "TrafficClass \<Rightarrow> AdmissionItem list \<Rightarrow> AdmissionItem list" where
  "of_class c \<equiv> filter (\<lambda>item. rq_traffic (ai_request item) = c)"

definition queue_ok :: "ServerOptions \<Rightarrow> AdmissionQueueImpl \<Rightarrow> bool" where
  "queue_ok o' q \<longleftrightarrow> aq_max_items q = vo_max_inflight o' \<and> aq_max_bytes q = vo_max_handler_bytes o'
     \<and> length (aq_queue q) \<le> aq_max_items q \<and> queue_bytes (aq_queue q) \<le> aq_max_bytes q
     \<and> aq_bytes q = word_of_nat (queue_bytes (aq_queue q))
     \<and> (\<forall>c. aq_queued_items q (LaneIndex c) = word_of_nat (length (of_class c (aq_queue q)))
          \<and> aq_queued_bytes q (LaneIndex c) = word_of_nat (queue_bytes (of_class c (aq_queue q))))"

lemma queue_bytes_simps [simp]:
  "queue_bytes [] = 0" "queue_bytes (x # xs) = ItemBytes (ai_request x) + queue_bytes xs"
  "queue_bytes (xs @ ys) = queue_bytes xs + queue_bytes ys"
  by (simp_all add: queue_bytes_def)

lemma queue_ok_create:
  "AdmissionQueue_Create (vo_max_inflight o') (vo_max_handler_bytes o') h i r = Inr q \<Longrightarrow> queue_ok o' q"
  by (auto simp: AdmissionQueue_Create_def queue_ok_def split: if_splits)

lemma queue_ok_close: "queue_ok o' q \<Longrightarrow> queue_ok o' (AdmissionQueue_Close q)"
  by (simp add: queue_ok_def AdmissionQueue_Close_def)

lemma queue_ok_admit:
  assumes "queue_ok o' q" "ServerOptions_Validate o' = Inr ()" "ItemBytes (ai_request item) < 2 ^ 63" "Admit item q = (r, q')"
  shows "queue_ok o' q'"
proof -
  let ?b = "ItemBytes (ai_request item)"
  have max: "aq_max_bytes q \<le> 2 ^ 30"
    using assms(1,2) by (auto simp: queue_ok_def ServerOptions_Validate_def kNetworkLimitsMaxBodyBytes_def split: if_splits)
  then have small: "queue_bytes (aq_queue q) + ?b < 2 ^ 64" using assms(1,3) by (simp add: queue_ok_def)
  have "word_of_nat (aq_max_bytes q) < (aq_bytes q + word_of_nat ?b :: u64) \<longleftrightarrow> aq_max_bytes q < queue_bytes (aq_queue q) + ?b"
  proof -
    have "unat (word_of_nat (aq_max_bytes q) :: u64) = aq_max_bytes q" using max by (simp add: unsigned_of_nat take_bit_nat_eq_self)
    moreover have "unat (aq_bytes q + word_of_nat ?b :: u64) = queue_bytes (aq_queue q) + ?b"
      using small assms(1) by (simp add: queue_ok_def unsigned_of_nat take_bit_nat_eq_self flip: of_nat_add)
    ultimately show ?thesis by (simp add: word_less_nat_alt)
  qed
  then show ?thesis using assms(1,4) by (auto simp: Admit_def Let_def queue_ok_def split: if_splits)
qed

lemma queue_ok_pop:
  assumes "queue_ok o' q" "worker_pop q = Some (item, q')"
  shows "queue_ok o' q'" "set (aq_queue q) = insert item (set (aq_queue q'))"
proof -
  obtain rest where queue: "aq_queue q = item # rest" "aq_queue q' = rest"
    using assms(2) by (auto simp: worker_pop_def Let_def split: list.splits)
  then show "set (aq_queue q) = insert item (set (aq_queue q'))" by simp
  show "queue_ok o' q'"
    using assms queue by (auto simp: worker_pop_def Let_def queue_ok_def split: list.splits)
qed

section \<open>References\<close>

definition reply_ok :: "nat \<Rightarrow> nat option \<Rightarrow> bool" where
  "reply_ok replies reply \<longleftrightarrow> (\<forall>i. reply = Some i \<longrightarrow> i < replies)"

definition item_refs :: "nat \<Rightarrow> nat \<Rightarrow> AdmissionItem \<Rightarrow> bool" where
  "item_refs leases replies item \<longleftrightarrow> ai_lease item < leases \<and> reply_ok replies (ai_reply item)"

fun pc_refs :: "nat \<Rightarrow> nat \<Rightarrow> admit_pc \<Rightarrow> bool" where
  "pc_refs leases replies (AdCounted r reply) = (ItemBytes r < 2 ^ 63 \<and> reply_ok replies reply)"
| "pc_refs leases replies (AdOver r reply) = reply_ok replies reply"
| "pc_refs leases replies (AdCharged item) = (ItemBytes (ai_request item) < 2 ^ 63 \<and> item_refs leases replies item)"
| "pc_refs leases replies (AdFull item) = item_refs leases replies item"
| "pc_refs leases replies (AdRefused item e) = item_refs leases replies item"
| "pc_refs leases replies (AdSettled item) = item_refs leases replies item"
| "pc_refs leases replies _ = True"

fun worker_items :: "worker_pc \<Rightarrow> AdmissionItem set" where
  "worker_items (WkHandling item) = {item}"
| "worker_items (WkHandled item r) = {item}"
| "worker_items (WkReplied item ok) = {item}"
| "worker_items _ = {}"

definition queued :: "ServerV2State \<Rightarrow> AdmissionItem set" where
  "queued s = (case sv_queue s of None \<Rightarrow> {} | Some q \<Rightarrow> set (aq_queue q))"

definition refs_ok :: "ServerV2State \<Rightarrow> bool" where
  "refs_ok s \<longleftrightarrow> length (sv_readers s) = length (sv_links s)
     \<and> (\<forall>pc \<in> set (sv_readers s). pc_refs (length (sv_leases s)) (length (sv_replies s)) pc)
     \<and> (\<forall>item \<in> queued s \<union> worker_items (sv_worker s) \<union> set (sv_handed s). item_refs (length (sv_leases s)) (length (sv_replies s)) item)"

lemma pc_refs_mono: "pc_refs m n pc \<Longrightarrow> m \<le> m' \<Longrightarrow> n \<le> n' \<Longrightarrow> pc_refs m' n' pc"
  by (cases pc) (auto simp: item_refs_def reply_ok_def)

lemma item_refs_mono: "item_refs m n item \<Longrightarrow> m \<le> m' \<Longrightarrow> n \<le> n' \<Longrightarrow> item_refs m' n' item"
  by (auto simp: item_refs_def reply_ok_def)

text \<open>A step that only adds objects, moves one reader and hands items on.\<close>

lemma refs_ok_step:
  assumes "refs_ok s" "length (sv_leases s) \<le> length (sv_leases t)" "length (sv_replies s) \<le> length (sv_replies t)"
    and "length (sv_links t) = length (sv_links s)"
    and "sv_readers t = sv_readers s \<or> (\<exists>l pc. sv_readers t = (sv_readers s)[l := pc] \<and> pc_refs (length (sv_leases t)) (length (sv_replies t)) pc)"
    and "\<And>item. item \<in> queued t \<union> worker_items (sv_worker t) \<union> set (sv_handed t) \<Longrightarrow>
      item \<in> queued s \<union> worker_items (sv_worker s) \<union> set (sv_handed s) \<or> item_refs (length (sv_leases t)) (length (sv_replies t)) item"
  shows "refs_ok t"
proof -
  have "pc_refs (length (sv_leases t)) (length (sv_replies t)) pc" if "pc \<in> set (sv_readers t)" for pc
    using that assms(1,5) pc_refs_mono [OF _ assms(2,3)] set_update_subset_insert [of "sv_readers s"]
    by (auto simp: refs_ok_def dest!: subsetD [OF set_update_subset_insert])
  moreover have "item_refs (length (sv_leases t)) (length (sv_replies t)) item"
    if "item \<in> queued t \<union> worker_items (sv_worker t) \<union> set (sv_handed t)" for item
    using assms(6) [OF that] assms(1) item_refs_mono [OF _ assms(2,3)] by (auto simp: refs_ok_def)
  moreover have "length (sv_readers t) = length (sv_links t)" using assms(1,4,5) by (auto simp: refs_ok_def)
  ultimately show ?thesis by (simp add: refs_ok_def)
qed

lemma refs_okD:
  assumes "refs_ok s"
  shows "l < length (sv_readers s) \<Longrightarrow> pc_refs (length (sv_leases s)) (length (sv_replies s)) (sv_readers s ! l)"
    "item \<in> worker_items (sv_worker s) \<Longrightarrow> item_refs (length (sv_leases s)) (length (sv_replies s)) item"
    "item \<in> set (sv_handed s) \<Longrightarrow> item_refs (length (sv_leases s)) (length (sv_replies s)) item"
  using assms by (auto simp: refs_ok_def)

section \<open>Terminal frames\<close>

definition posted_ok :: "ServerV2State \<Rightarrow> bool" where
  "posted_ok s \<longleftrightarrow> distinct (map fst (sv_posted s))
     \<and> (\<forall>(i, f) \<in> set (sv_posted s). i < length (sv_replies s) \<and> rp_terminal (sv_replies s ! i) \<and> reply_frame f (sv_replies s ! i))"

lemma posted_ok_eq: "sv_posted t = sv_posted s \<Longrightarrow> sv_replies t = sv_replies s \<Longrightarrow> posted_ok t \<longleftrightarrow> posted_ok s"
  by (simp add: posted_ok_def)

lemma posted_ok_mark: "posted_ok s \<Longrightarrow> posted_ok (mark_terminal i s)"
  by (auto simp: posted_ok_def list_update_nth reply_frame_def split: if_splits)

lemma posted_ok_append: "posted_ok s \<Longrightarrow> posted_ok (s\<lparr>sv_replies := sv_replies s @ [p]\<rparr>)"
  by (fastforce simp: posted_ok_def nth_append)

lemma posted_ok_change:
  assumes "posted_ok s" "reply_change serialize opts i s t" "i < length (sv_replies s)"
  shows "posted_ok t"
  using assms(2)
proof cases
  case (posted c f deadline r)
  let ?m = "mark_terminal i s"
  have new: "i \<notin> fst ` set (sv_posted s)" using assms(1) posted(1) by (force simp: posted_ok_def)
  have ok: "posted_ok ?m" using posted_ok_mark [OF assms(1)] .
  have frame: "reply_frame f (sv_replies ?m ! i)" "rp_terminal (sv_replies ?m ! i)"
    using posted(3) assms(3) by (simp_all add: reply_frame_def)
  from post_terminal_cases [OF posted(4)] show ?thesis
  proof (elim disjE exE conjE)
    fix d assume t: "t = (set_link (rp_session (sv_replies s ! i)) d ?m)\<lparr>sv_posted := sv_posted ?m @ [(i, f)]\<rparr>"
    have "sv_posted t = sv_posted s @ [(i, f)]" "sv_replies t = sv_replies ?m" by (simp_all add: t)
    then show ?thesis using ok new frame assms(3) by (auto simp: posted_ok_def)
  qed (use ok posted_ok_eq in \<open>auto simp: posted_ok_def\<close>)
qed (simp_all add: assms(1) posted_ok_mark)

section \<open>Links\<close>

definition links_run :: "(SessionFrameMsg \<Rightarrow> byte list option) \<Rightarrow> ClientOptions \<Rightarrow> ServerV2State \<Rightarrow> ServerV2State \<Rightarrow> bool" where
  "links_run serialize opts s t \<longleftrightarrow> length (sv_links t) = length (sv_links s)
     \<and> (\<forall>l d. l < length (sv_links s) \<longrightarrow> sv_links t ! l = Some d
          \<longrightarrow> (\<exists>c. sv_links s ! l = Some c \<and> (link_step serialize opts)\<^sup>*\<^sup>* c d))"

lemma links_run_same: "sv_links t = sv_links s \<Longrightarrow> links_run serialize opts s t"
  by (auto simp: links_run_def)

lemma links_run_set:
  assumes "sv_links s ! l = Some c" "(link_step serialize opts)\<^sup>*\<^sup>* c d" "sv_links t = (sv_links s)[l := Some d]"
  shows "links_run serialize opts s t"
  using assms by (auto simp: links_run_def list_update_nth split: if_splits)

lemma links_run_set1:
  assumes "sv_links s ! l = Some c" "link_step serialize opts c d" "sv_links t = (sv_links s)[l := Some d]"
  shows "links_run serialize opts s t"
  using links_run_set [OF assms(1) _ assms(3)] assms(2) by blast

lemma links_run_change:
  assumes "reply_change serialize opts i s t"
  shows "links_run serialize opts s t"
  using assms
proof cases
  case (posted c f deadline r)
  have c: "sv_links s ! rp_session (sv_replies s ! i) = Some c"
    using posted(2) by (auto simp: live_link_def split: option.splits if_splits)
  from post_terminal_cases [OF posted(4)] show ?thesis
  proof (elim disjE exE conjE)
    fix d assume "link_step serialize opts c d" and t: "t = set_link (rp_session (sv_replies s ! i)) d (mark_terminal i s)"
    then show ?thesis by (intro links_run_set1 [OF c]) simp_all
  next
    fix d assume "link_step serialize opts c d"
      and t: "t = (set_link (rp_session (sv_replies s ! i)) d (mark_terminal i s))\<lparr>sv_posted := sv_posted (mark_terminal i s) @ [(i, f)]\<rparr>"
    then show ?thesis by (intro links_run_set1 [OF c]) simp_all
  qed (simp add: links_run_same)
qed (simp_all add: links_run_same)

lemma links_run_uncount: "links_run serialize opts s (uncount l c s)"
  using links_run_set1 [OF _ link_step.inbound_refused]
  by (auto simp: uncount_def links_run_same split: option.split simp del: note_inflight_lanes)

section \<open>Every step\<close>

lemma no_wait_change: "\<exists>i. reply_change serialize opts i s (PostReplyErrorNoWait serialize opts now reply e s) \<and> (\<forall>k. reply = Some k \<longrightarrow> i = k)"
  by (cases reply) (auto simp: PostReplyErrorNoWait_change(1) intro: reply_change.unchanged PostReplyErrorNoWait_change(2))

lemma no_wait_fields [simp]:
  "sv_options (PostReplyErrorNoWait serialize opts now reply e s) = sv_options s"
  "sv_queue (PostReplyErrorNoWait serialize opts now reply e s) = sv_queue s"
  "sv_inflight (PostReplyErrorNoWait serialize opts now reply e s) = sv_inflight s"
  "sv_finished (PostReplyErrorNoWait serialize opts now reply e s) = sv_finished s"
  "sv_readers (PostReplyErrorNoWait serialize opts now reply e s) = sv_readers s"
  "sv_worker (PostReplyErrorNoWait serialize opts now reply e s) = sv_worker s"
  "sv_leases (PostReplyErrorNoWait serialize opts now reply e s) = sv_leases s"
  "sv_handed (PostReplyErrorNoWait serialize opts now reply e s) = sv_handed s"
  "length (sv_links (PostReplyErrorNoWait serialize opts now reply e s)) = length (sv_links s)"
  "length (sv_replies (PostReplyErrorNoWait serialize opts now reply e s)) = length (sv_replies s)"
  using reply_change_fields no_wait_change [of serialize opts s now reply e] by metis+

lemmas Complete_fields [simp] = reply_change_fields [OF Complete_change]
lemmas Fail_fields [simp] = reply_change_fields [OF Fail_change]

text \<open>What the worker does about the reply.\<close>

lemma worker_reply_change:
  obtains i u ok where "reply_change serialize opts i s u" "\<forall>k. ai_reply item = Some k \<longrightarrow> i = k" "ai_reply item = None \<longrightarrow> u = s"
    "worker_reply serialize opts item handled s = u\<lparr>sv_worker := WkReplied item ok\<rparr>"
proof (cases "ai_reply item")
  case (Some i)
  have "\<exists>u. reply_change serialize opts i s u \<and> (\<exists>ok. worker_reply serialize opts item handled s = u\<lparr>sv_worker := WkReplied item ok\<rparr>)"
    using Some Complete_change [of serialize opts i s True empty_Response] Fail_change [of serialize opts i s True]
      reply_change.unchanged [of serialize opts i s]
    by (cases handled) (auto simp: worker_reply_def Let_def)
  then show ?thesis using Some that by auto
next
  case None
  then show ?thesis using that [OF reply_change.unchanged] by (auto simp: worker_reply_def Let_def)
qed

lemma worker_reply_fields [simp]:
  "sv_options (worker_reply serialize opts item handled s) = sv_options s" "sv_queue (worker_reply serialize opts item handled s) = sv_queue s"
  "sv_inflight (worker_reply serialize opts item handled s) = sv_inflight s" "sv_finished (worker_reply serialize opts item handled s) = sv_finished s"
  "sv_readers (worker_reply serialize opts item handled s) = sv_readers s" "sv_leases (worker_reply serialize opts item handled s) = sv_leases s"
  "sv_handed (worker_reply serialize opts item handled s) = sv_handed s"
  "length (sv_links (worker_reply serialize opts item handled s)) = length (sv_links s)"
  "length (sv_replies (worker_reply serialize opts item handled s)) = length (sv_replies s)"
  "worker_items (sv_worker (worker_reply serialize opts item handled s)) = {item}"
proof -
  obtain i u ok where "reply_change serialize opts i s u" "worker_reply serialize opts item handled s = u\<lparr>sv_worker := WkReplied item ok\<rparr>"
    by (rule worker_reply_change)
  then show "sv_options (worker_reply serialize opts item handled s) = sv_options s" "sv_queue (worker_reply serialize opts item handled s) = sv_queue s"
    "sv_inflight (worker_reply serialize opts item handled s) = sv_inflight s" "sv_finished (worker_reply serialize opts item handled s) = sv_finished s"
    "sv_readers (worker_reply serialize opts item handled s) = sv_readers s" "sv_leases (worker_reply serialize opts item handled s) = sv_leases s"
    "sv_handed (worker_reply serialize opts item handled s) = sv_handed s"
    "length (sv_links (worker_reply serialize opts item handled s)) = length (sv_links s)"
    "length (sv_replies (worker_reply serialize opts item handled s)) = length (sv_replies s)"
    "worker_items (sv_worker (worker_reply serialize opts item handled s)) = {item}"
    using reply_change_fields [of serialize opts i s u] by simp_all
qed

lemma DispatchAdmit_same: "DispatchInbound serialize opts now timeout f c = (DispatchAdmit r, d) \<Longrightarrow> d = c"
  by (auto simp: DispatchInbound_def split: if_splits FrameKind.splits option.splits sum.splits)

lemmas admit_ops = start_queue_def close_queue_def admit_begin_def admit_over_def admit_enqueue_def admit_full_def
  admit_refuse_def admit_release_def admit_drop_def admit_end_def worker_take_def worker_handled_def worker_release_def worker_drop_def

lemma step_options: "server_step serialize opts s t \<Longrightarrow> sv_options t = sv_options s"
  by (cases rule: server_step.cases)
    (auto simp: admit_ops admit_charge_def NoteInflight_def Let_def split: option.split sum.split prod.split admit_result.split)

lemma step_counts:
  assumes "server_step serialize opts s t" "counts_ok s" "refs_ok s" "ServerOptions_Validate (sv_options s) = Inr ()"
  shows "counts_ok t"
proof -
  have same: "counts_ok t" if "sv_inflight t = sv_inflight s" "sv_finished t = sv_finished s" "sv_leases t = sv_leases s"
    using counts_ok_eq [OF step_options [OF assms(1)] that] assms(2) by simp
  have freed: "counts_ok (snd (Release (ai_lease item) s))" if "item_refs (length (sv_leases s)) n item" for item n
    using counts_ok_release [OF assms(2)] that by (simp add: item_refs_def)
  have keep: "counts_ok v" if "counts_ok u" "sv_options v = sv_options u" "sv_inflight v = sv_inflight u"
    "sv_finished v = sv_finished u" "sv_leases v = sv_leases u" for u v
    using counts_ok_eq [of v u] that by simp
  from assms(1) show ?thesis
  proof cases
    case (charge l r reply)
    then show ?thesis using counts_ok_charge [OF assms(2,4)] by simp
  next
    case (release_refused l item)
    then have "item_refs (length (sv_leases s)) (length (sv_replies s)) item" using refs_okD(1) [OF assms(3), of l] by simp
    from keep [OF freed [OF this]] show ?thesis unfolding release_refused(1) admit_release_def by simp
  next
    case (worker_releases item ok)
    then have "item_refs (length (sv_leases s)) (length (sv_replies s)) item" using refs_okD(2) [OF assms(3)] by simp
    from keep [OF freed [OF this]] keep [OF assms(2)] show ?thesis unfolding worker_releases(1) worker_release_def by simp
  next
    case (framework_releases item)
    then show ?thesis using freed refs_okD(3) [OF assms(3)] by blast
  qed (intro same; simp add: admit_ops Let_def split: option.split sum.split prod.split admit_result.split)+
qed

lemma step_queue:
  assumes "server_step serialize opts s t" "\<forall>q. sv_queue s = Some q \<longrightarrow> queue_ok (sv_options s) q" "refs_ok s"
    "ServerOptions_Validate (sv_options s) = Inr ()"
  shows "\<forall>q. sv_queue t = Some q \<longrightarrow> queue_ok (sv_options t) q"
  unfolding step_options [OF assms(1)] using assms(1)
proof cases
  case start
  then show "\<forall>q. sv_queue t = Some q \<longrightarrow> queue_ok (sv_options s) q"
    using queue_ok_create [of "sv_options s"] by (auto simp: start_queue_def split: sum.splits)
next
  case close
  then show "\<forall>q. sv_queue t = Some q \<longrightarrow> queue_ok (sv_options s) q"
    using assms(2) queue_ok_close by (auto simp: close_queue_def)
next
  case (enqueue l item)
  then have "ItemBytes (ai_request item) < 2 ^ 63" using refs_okD(1) [OF assms(3), of l] by simp
  then show "\<forall>q. sv_queue t = Some q \<longrightarrow> queue_ok (sv_options s) q"
    using enqueue(1) assms(2) queue_ok_admit [OF _ assms(4), of _ item]
    by (auto simp: admit_enqueue_def split: option.splits prod.splits admit_result.splits)
next
  case take
  then show "\<forall>q. sv_queue t = Some q \<longrightarrow> queue_ok (sv_options s) q"
    using assms(2) queue_ok_pop(1) by (auto simp: worker_take_def split: option.splits)
qed (use assms(2) in \<open>simp_all add: admit_ops admit_charge_def NoteInflight_def Let_def split: option.split\<close>)

lemma refs_ok_reader:
  assumes "refs_ok s" "sv_readers t = (sv_readers s)[l := pc]" "pc_refs (length (sv_leases t)) (length (sv_replies t)) pc"
    "length (sv_leases s) \<le> length (sv_leases t)" "length (sv_replies s) \<le> length (sv_replies t)"
    "length (sv_links t) = length (sv_links s)" "sv_queue t = sv_queue s" "sv_worker t = sv_worker s" "sv_handed t = sv_handed s"
  shows "refs_ok t"
  using assms by (intro refs_ok_step [OF assms(1)]) (auto simp: queued_def)

lemma refs_ok_still:
  assumes "refs_ok s" "sv_readers t = sv_readers s" "worker_items (sv_worker t) \<subseteq> worker_items (sv_worker s)"
    "length (sv_leases t) = length (sv_leases s)" "length (sv_replies t) = length (sv_replies s)"
    "length (sv_links t) = length (sv_links s)" "queued t \<subseteq> queued s" "sv_handed t = sv_handed s"
  shows "refs_ok t"
  using assms by (intro refs_ok_step [OF assms(1)]) auto

lemma step_refs:
  assumes "server_step serialize opts s t" "refs_ok s"
  shows "refs_ok t"
proof -
  note still = refs_ok_still [OF assms(2)] and moved = refs_ok_reader [OF assms(2)]
  have pc: "pc_refs (length (sv_leases s)) (length (sv_replies s)) (sv_readers s ! l)" if "l < length (sv_readers s)" for l
    using refs_okD(1) [OF assms(2) that] .
  from assms(1) show ?thesis
  proof cases
    case start
    then show ?thesis
      by (intro still) (auto simp: start_queue_def queued_def AdmissionQueue_Create_def split: sum.splits if_splits)
  next
    case close
    then show ?thesis by (intro still) (auto simp: close_queue_def queued_def AdmissionQueue_Close_def split: option.splits)
  next
    case (install epoch peer)
    then show ?thesis using assms(2) by (auto simp: refs_ok_def queued_def)
  next
    case (inbound l c now timeout f r d)
    note t = inbound(1) and new = inbound(7)
    show ?thesis
    proof (cases "sv_queue s")
      case None
      then show ?thesis using t by (intro still) (auto simp: admit_begin_def queued_def)
    next
      case (Some q)
      show ?thesis
      proof (cases "make_reply l f r")
        case None
        then show ?thesis using Some t new
          by (intro moved [of _ l "AdCounted r None"]) (simp_all add: admit_begin_def reply_ok_def)
      next
        case (Some p)
        then show ?thesis using \<open>sv_queue s = Some q\<close> t new
          by (intro moved [of _ l "AdCounted r (Some (length (sv_replies s)))"]) (simp_all add: admit_begin_def reply_ok_def)
      qed
    qed
  next
    case (charge l r reply)
    have "ItemBytes r < 2 ^ 63" "reply_ok (length (sv_replies s)) reply" using pc [OF charge(2)] charge(3) by simp_all
    then show ?thesis unfolding charge(1) admit_charge_def Let_def
      by (auto intro!: moved simp: NoteInflight_def item_refs_def)
  next
    case (over l r reply now)
    then show ?thesis by (intro moved [of _ l AdIdle]) (simp_all add: admit_over_def)
  next
    case (enqueue l item)
    have item: "item_refs (length (sv_leases s)) (length (sv_replies s)) item" using pc [OF enqueue(2)] enqueue(3) by simp
    show ?thesis
    proof (cases "sv_queue s")
      case (Some q)
      obtain r q' where admit: "Admit item q = (r, q')" by fastforce
      have new: "r = AdmitOk \<Longrightarrow> aq_queue q' = aq_queue q @ [item]" using admit by (auto simp: Admit_def Let_def split: if_splits)
      show ?thesis
      proof (cases r)
        case AdmitOk
        then have "sv_readers t = (sv_readers s)[l := AdIdle]" "queued t = insert item (queued s)"
          using enqueue(1) Some admit new by (simp_all add: admit_enqueue_def queued_def)
        note new_state = this
        show ?thesis
        proof (rule refs_ok_step [OF assms(2)])
          show "sv_readers t = sv_readers s \<or> (\<exists>l pc. sv_readers t = (sv_readers s)[l := pc]
              \<and> pc_refs (length (sv_leases t)) (length (sv_replies t)) pc)"
            using new_state by (intro disjI2 exI [of _ l] exI [of _ AdIdle]) simp
        qed (use new_state item enqueue(1) Some admit AdmitOk in \<open>auto simp: admit_enqueue_def\<close>)
      next
        case AdmitClosed
        then show ?thesis using enqueue(1) Some admit item
          by (intro moved [of _ l "AdRefused item (Err Closed (ascii ''admission queue closed''))"]) (simp_all add: admit_enqueue_def)
      next
        case AdmitFull
        then show ?thesis using enqueue(1) Some admit item by (intro moved [of _ l "AdFull item"]) (simp_all add: admit_enqueue_def)
      qed
    qed (use enqueue(1) assms(2) in \<open>simp add: admit_enqueue_def\<close>)
  next
    case (full l item)
    then show ?thesis using pc [OF full(2)] 
      by (intro moved [of _ l "AdRefused item (Err Overloaded (ascii ''admission queue full''))"]) (simp_all add: admit_full_def)
  next
    case (refuse l item e now)
    then show ?thesis using pc [OF refuse(2)] by (intro moved [of _ l "AdSettled item"]) (simp_all add: admit_refuse_def)
  next
    case (release_refused l item)
    then show ?thesis by (intro moved [of _ l "AdReleased (ai_request item)"]) (simp_all add: admit_release_def)
  next
    case (drop_refused l r)
    then show ?thesis by (intro moved [of _ l "AdDropped r"]) (simp_all add: admit_drop_def)
  next
    case (end_refused l r)
    then show ?thesis by (intro moved [of _ l AdIdle]) (simp_all add: admit_end_def)
  next
    case take
    show ?thesis
    proof (cases "sv_queue s")
      case (Some q)
      show ?thesis
      proof (cases "worker_pop q")
        case None
        then show ?thesis using take Some by (intro still) (auto simp: worker_take_def queued_def)
      next
        case (Some x)
        then obtain item q' where pop: "worker_pop q = Some (item, q')" by (cases x) auto
        have "set (aq_queue q) = insert item (set (aq_queue q'))"
          using pop by (auto simp: worker_pop_def Let_def split: list.splits)
        then show ?thesis using take pop \<open>sv_queue s = Some q\<close>
          by (intro refs_ok_step [OF assms(2)]) (auto simp: worker_take_def queued_def)
      qed
    qed (use take assms(2) in \<open>simp add: worker_take_def\<close>)
  next
    case (reply item handled)
    then show ?thesis by (intro still) (simp_all add: queued_def)
  next
    case (worker_releases item ok)
    then show ?thesis by (intro still) (simp_all add: worker_release_def queued_def)
  qed (intro still; simp add: worker_handled_def worker_drop_def queued_def)+
qed

lemma step_posted:
  assumes "server_step serialize opts s t" "refs_ok s" "posted_ok s"
  shows "posted_ok t"
proof -
  have change: "posted_ok u" if "reply_change serialize opts i s' u" "sv_replies s' = sv_replies s" "sv_posted s' = sv_posted s"
    "reply_ok (length (sv_replies s)) (Some i)" for i u s'
    using posted_ok_change [OF _ that(1)] posted_ok_eq [OF that(3,2)] assms(3) that(2,4) by (simp add: reply_ok_def)
  have no_wait: "posted_ok (PostReplyErrorNoWait serialize opts now rep e s')"
    if "reply_ok (length (sv_replies s)) rep" "sv_replies s' = sv_replies s" "sv_posted s' = sv_posted s" for now rep e s'
    using change [OF PostReplyErrorNoWait_change(2) that(2,3)] posted_ok_eq [OF that(3,2)] assms(3) that(1)
    by (cases rep) (simp_all add: PostReplyErrorNoWait_change(1))
  have keep: "posted_ok v" if "posted_ok u" "sv_replies v = sv_replies u" "sv_posted v = sv_posted u" for u v
    using that posted_ok_eq by blast
  have pc: "pc_refs (length (sv_leases s)) (length (sv_replies s)) (sv_readers s ! l)" if "l < length (sv_readers s)" for l
    using refs_okD(1) [OF assms(2) that] .
  from assms(1) show ?thesis
  proof cases
    case (inbound l c now timeout f r d)
    show ?thesis unfolding inbound(1) admit_begin_def Let_def using assms(3) posted_ok_append [OF assms(3)]
      by (auto simp: posted_ok_def split: option.split)
  next
    case (over l r rep now)
    then have "reply_ok (length (sv_replies s)) rep" using pc [OF over(2)] by simp
    then show ?thesis unfolding over(1) admit_over_def by (intro keep [OF no_wait]) simp_all
  next
    case (refuse l item e now)
    then have "reply_ok (length (sv_replies s)) (ai_reply item)" using pc [OF refuse(2)] by (simp add: item_refs_def)
    from keep [OF no_wait [OF this refl refl]] show ?thesis unfolding refuse(1) admit_refuse_def by simp
  next
    case (reply item handled)
    obtain i u ok where u: "reply_change serialize opts i s u" "\<forall>k. ai_reply item = Some k \<longrightarrow> i = k" "ai_reply item = None \<longrightarrow> u = s"
      "t = u\<lparr>sv_worker := WkReplied item ok\<rparr>"
      unfolding reply(1) by (rule worker_reply_change)
    have "item_refs (length (sv_leases s)) (length (sv_replies s)) item" using refs_okD(2) [OF assms(2)] reply(2) by simp
    then have "posted_ok u" using change [OF u(1)] u(2,3) assms(3) by (cases "ai_reply item") (simp_all add: item_refs_def)
    from keep [OF this] show ?thesis unfolding u(4) by simp
  next
    case (framework_completes item i co response)
    then show ?thesis using change [OF Complete_change refl refl, of i] refs_okD(3) [OF assms(2), of item] by (simp add: item_refs_def)
  next
    case (framework_fails item i co e)
    then show ?thesis using change [OF Fail_change refl refl, of i] refs_okD(3) [OF assms(2), of item] by (simp add: item_refs_def)
  qed (intro keep [OF assms(3)]; simp add: admit_ops admit_charge_def NoteInflight_def Let_def
      split: option.split sum.split prod.split admit_result.split)+
qed

definition links_ok :: "(SessionFrameMsg \<Rightarrow> byte list option) \<Rightarrow> ClientOptions \<Rightarrow> ServerV2State \<Rightarrow> bool" where
  "links_ok serialize opts s \<longleftrightarrow> (\<forall>l c. l < length (sv_links s) \<longrightarrow> sv_links s ! l = Some c
     \<longrightarrow> (\<exists>epoch peer. link_reachable serialize opts epoch peer c))"

lemma links_ok_run: "links_ok serialize opts s \<Longrightarrow> links_run serialize opts s t \<Longrightarrow> links_ok serialize opts t"
  unfolding links_ok_def links_run_def using link_reachable_run by metis

lemma links_run_trans: "links_run serialize opts s t \<Longrightarrow> links_run serialize opts t u \<Longrightarrow> links_run serialize opts s u"
  unfolding links_run_def using rtranclp_trans [of "link_step serialize opts"] by metis

lemma links_run_no_wait: "links_run serialize opts s (PostReplyErrorNoWait serialize opts now rep e s)"
  using no_wait_change links_run_change by metis

lemma links_run_field: "links_run serialize opts s t \<Longrightarrow> sv_links u = sv_links t \<Longrightarrow> links_run serialize opts s u"
  by (simp add: links_run_def)

lemma step_links:
  assumes "server_step serialize opts s t" "links_ok serialize opts s"
  shows "links_ok serialize opts t"
proof -
  note run = links_ok_run [OF assms(2)]
  from assms(1) show ?thesis
  proof cases
    case (install epoch peer)
    have "link_reachable serialize opts epoch peer (sc_init epoch peer)" by (simp add: link_reachable_def)
    then show ?thesis using assms(2) install by (auto simp: links_ok_def nth_append)
  next
    case (expire l)
    then show ?thesis using assms(2) by (auto simp: links_ok_def list_update_nth split: if_splits)
  next
    case (link l c d)
    then show ?thesis by (intro run links_run_set1 [OF link(3,4)]) simp
  next
    case (inbound l c now timeout f r d)
    have d: "d = c" using DispatchAdmit_same [OF inbound(6)] .
    have counted: "link_step serialize opts c (note_inflight (rq_traffic r) (inflight_add 1) c)" by (rule link_step.inbound_counted)
    have dropped: "(link_step serialize opts)\<^sup>*\<^sup>* c (note_inflight (rq_traffic r) (\<lambda>st. st\<lparr>ts_dropped := ts_dropped st + 1\<rparr>)
        (PostSessionError serialize opts now (Err Unavailable (ascii ''no inbound admission target'')) c))"
      using link_step.post_error link_step.inbound_dropped by (meson r_into_rtranclp rtranclp.rtrancl_into_rtrancl)
    show ?thesis
    proof (cases "sv_queue s")
      case None
      then show ?thesis unfolding inbound(1) d by (intro run links_run_set [OF inbound(3) dropped]) (simp add: admit_begin_def)
    next
      case (Some q)
      then show ?thesis unfolding inbound(1) d
        by (intro run links_run_set1 [OF inbound(3) counted]) (simp add: admit_begin_def Let_def split: option.split)
    qed
  next
    case (over l r rep now)
    show ?thesis unfolding over(1) admit_over_def
      by (rule run, rule links_run_field [OF links_run_trans [OF links_run_uncount links_run_no_wait]]) simp
  next
    case (refuse l item e now)
    show ?thesis unfolding refuse(1) admit_refuse_def by (rule run, rule links_run_field [OF links_run_no_wait]) simp
  next
    case (end_refused l r)
    show ?thesis unfolding end_refused(1) admit_end_def by (rule run, rule links_run_field [OF links_run_uncount]) simp
  next
    case (reply item handled)
    obtain i u ok where u: "reply_change serialize opts i s u" "t = u\<lparr>sv_worker := WkReplied item ok\<rparr>"
      unfolding reply(1) by (rule worker_reply_change)
    then show ?thesis by (intro run links_run_field [OF links_run_change [OF u(1)]]) simp
  next
    case (framework_completes item i co response)
    then show ?thesis using run [OF links_run_change [OF Complete_change]] by simp
  next
    case (framework_fails item i co e)
    then show ?thesis using run [OF links_run_change [OF Fail_change]] by simp
  qed (intro run links_run_same; simp add: admit_ops admit_charge_def NoteInflight_def Let_def
      split: option.split sum.split prod.split admit_result.split)+
qed

definition server_inv :: "(SessionFrameMsg \<Rightarrow> byte list option) \<Rightarrow> ClientOptions \<Rightarrow> ServerV2State \<Rightarrow> bool" where
  "server_inv serialize opts s \<longleftrightarrow> counts_ok s \<and> (\<forall>q. sv_queue s = Some q \<longrightarrow> queue_ok (sv_options s) q) \<and> refs_ok s
     \<and> posted_ok s \<and> links_ok serialize opts s"

lemma server_reachable_inv:
  assumes "server_reachable serialize opts o' s" "ServerOptions_Validate o' = Inr ()"
  shows "server_inv serialize opts s \<and> sv_options s = o'"
  using assms(1) unfolding server_reachable_def
proof (induction rule: rtranclp_induct)
  case base
  show ?case
    by (simp add: server_inv_def counts_ok_def held_def freed_def refs_ok_def queued_def posted_ok_def links_ok_def sv_init_def)
next
  case (step t u)
  then have inv: "counts_ok t" "\<forall>q. sv_queue t = Some q \<longrightarrow> queue_ok (sv_options t) q" "refs_ok t" "posted_ok t" "links_ok serialize opts t"
    and valid: "ServerOptions_Validate (sv_options t) = Inr ()" using assms(2) unfolding server_inv_def by auto
  have "counts_ok u" by (rule step_counts [OF step(2) inv(1,3) valid])
  moreover have "\<forall>q. sv_queue u = Some q \<longrightarrow> queue_ok (sv_options u) q" by (rule step_queue [OF step(2) inv(2,3) valid])
  moreover have "refs_ok u" by (rule step_refs [OF step(2) inv(3)])
  moreover have "posted_ok u" by (rule step_posted [OF step(2) inv(3,4)])
  moreover have "links_ok serialize opts u" by (rule step_links [OF step(2) inv(5)])
  ultimately show ?case using step(3) step_options [OF step(2)] by (simp add: server_inv_def)
qed

section \<open>Guarantees\<close>

text \<open>C11: The in-flight counter of a lane is exactly the number of leases of that lane not yet released and never exceeds
  the limit, the finished counter is the number released, and the admission queue holds at most the configured items and
  bytes with exact gauges, in every interleaving of readers, worker and framework.\<close>

theorem admission_accounting:
  assumes "ServerOptions_Validate o' = Inr ()" "server_reachable serialize opts o' s"
  shows "(\<forall>c. sv_inflight s (LaneIndex c) = word_of_nat (held c s) \<and> held c s \<le> vo_max_inflight o'
       \<and> sv_finished s (LaneIndex c) = word_of_nat (freed c s))
    \<and> (\<forall>q. sv_queue s = Some q \<longrightarrow> queue_ok o' q)"
  using server_reachable_inv [OF assms(2,1)] unfolding server_inv_def counts_ok_def by auto


lemma live_items_none:
  assumes "ClientOptions_Validate opts = Inr ()" "link_reachable serialize opts epoch peer c" "lo_outstanding c = 0"
    "length (live_items c) < 2 ^ 64"
  shows "live_items c = []" "None \<notin> set (sc_settles c)"
proof -
  have core: "out_core opts c" by (rule link_invD(1) [OF link_reachable_inv [OF assms(2,1)]])
  have "(word_of_nat (length (live_items c)) :: u64) = 0" using core assms(3) by (simp add: out_core_def)
  then have "unat (word_of_nat (length (live_items c)) :: u64) = 0" by simp
  then show none: "live_items c = []" using assms(4) by (simp add: unsigned_of_nat take_bit_nat_eq_self)
  show "None \<notin> set (sc_settles c)" using core none by (fastforce simp: out_core_def in_set_conv_nth)
qed

lemma held_none:
  assumes "counts_ok s" "ServerOptions_Validate (sv_options s) = Inr ()" "sv_inflight s (LaneIndex c) = 0"
  shows "held c s = 0"
proof -
  have "held c s < 2 ^ 64" using assms(1) [unfolded counts_ok_def, rule_format, of c] assms(2)
    by (auto simp: ServerOptions_Validate_def kNetworkLimitsMaxInflight_def split: if_splits)
  moreover have "unat (word_of_nat (held c s) :: u64) = 0"
    using assms(1) [unfolded counts_ok_def, rule_format, of c] assms(3) by simp
  ultimately show ?thesis by (simp add: unsigned_of_nat take_bit_nat_eq_self)
qed


section \<open>Where admission falls short of its documentation\<close>

text \<open>C39: A reply whose frame cannot be encoded is consumed all the same: \<^verbatim>\<open>Complete\<close> returns the error and marks the
  reply terminal, nothing is posted, and a following \<^verbatim>\<open>Fail\<close> is refused, so the peer gets no answer.\<close>

theorem unencodable_reply_is_lost:
  assumes "\<not> rp_terminal (sv_replies s ! i)" "i < length (sv_replies s)" "live_link (rp_session (sv_replies s ! i)) s = Some c"
    and "rp_kind (sv_replies s ! i) = FkResponse" "response_matches (sv_replies s ! i) response"
    and "ResponseToSessionFrame response (sc_epoch c) = Inr f"
    and "EncodeFramedSessionFrame serialize (f\<lparr>sf_traffic := rp_lane (sv_replies s ! i)\<rparr>) (co_max_frame_bytes opts) = Inl e"
  shows "Complete serialize opts True i response s = (CrDone (Inl e), mark_terminal i s)
    \<and> Fail serialize opts co i e' (mark_terminal i s)
        = (CrDone (Inl (if co then Err InvalidArgument (ascii ''reply completion already terminal'')
                        else Err InvalidContext (ascii ''reply completion requires coroutine context''))), mark_terminal i s)"
  using assms by (simp add: Complete_def Fail_def begin_reply_def post_terminal_def completion_of_def Let_def)

text \<open>A request refused because the queue is full is counted twice among the dropped ones of its lane.\<close>

theorem full_queue_counts_twice:
  "sv_dropped (admit_drop l (ai_request item) (admit_release l item (admit_refuse serialize opts now l item e (admit_full l item s))))
       (LaneIndex (rq_traffic (ai_request item)))
     = sv_dropped s (LaneIndex (rq_traffic (ai_request item))) + 2"
proof -
  have "sv_dropped (snd (Release j t)) = sv_dropped t" for j t by (simp add: Release_def Let_def NoteInflight_def)
  moreover have "sv_dropped (PostReplyErrorNoWait serialize opts now reply e t) = sv_dropped t" for reply t
    by (auto simp: PostReplyErrorNoWait_def Let_def post_terminal_def set_link_def mark_terminal_def split: option.split sum.split prod.split)
  ultimately show ?thesis
    by (simp add: admit_drop_def admit_release_def admit_refuse_def admit_full_def set_reader_def note_dropped_def)
qed

section \<open>A run\<close>

text \<open>One call admitted, handled, answered and released on a server with room for one request.\<close>

definition srv_options :: ServerOptions where
  "srv_options = \<lparr>vo_listen_valid = True, vo_max_frame_bytes = 1024, vo_max_connections = 4, vo_max_inflight = 1,
     vo_max_handler_bytes = 90, vo_incoming_timeout = 30000\<rparr>"

definition srv_request :: Request where
  "srv_request = sample_request\<lparr>rq_context := inbound_context 0 None sample_call demo_start\<rparr>"

definition srv_item :: AdmissionItem where
  "srv_item = \<lparr>ai_request = srv_request, ai_reply = Some 0, ai_lease = 0\<rparr>"

definition srv_open :: ServerV2State where
  "srv_open = (let s = snd (start_queue True True (sv_init srv_options))
     in s\<lparr>sv_links := [Some demo_start], sv_readers := [AdIdle]\<rparr>)"

definition srv_admitted :: ServerV2State where
  "srv_admitted = admit_enqueue 0 srv_item (admit_charge 0 srv_request (Some 0)
     (admit_begin demo_serialize sample_options 0 0 demo_start sample_call srv_request srv_open))"

definition srv_handled :: ServerV2State where
  "srv_handled = worker_handled srv_item (Some (Inr ())) (worker_take srv_admitted)"

lemma srv_options_valid: "ServerOptions_Validate srv_options = Inr ()"
  by (simp add: ServerOptions_Validate_def srv_options_def kMinFrameBytes_def kMaxFrameBytes_def kNetworkLimitsMaxConnections_def
      kNetworkLimitsMaxInflight_def kNetworkLimitsMaxBodyBytes_def kNetworkLimitsMaxIncomingTimeout_def)

lemma srv_dispatch: "DispatchInbound demo_serialize sample_options 0 None sample_call demo_start = (DispatchAdmit srv_request, demo_start)"
proof -
  have kind: "sf_kind sample_call = FkCall" "sf_session_epoch sample_call = sc_epoch demo_start" by code_simp+
  have "RequestFromSessionFrame sample_call no_request_context = Inr (sample_request\<lparr>rq_context := no_request_context\<rparr>)" by code_simp
  then show ?thesis using kind by (simp add: DispatchInbound_def srv_request_def)
qed

lemma srv_admitted_reachable: "server_reachable demo_serialize sample_options srv_options srv_admitted"
proof -
  note into = rtranclp.rtrancl_into_rtrancl [where r = "server_step demo_serialize sample_options"]
  let ?a = "snd (start_queue True True (sv_init srv_options))"
  have "(server_step demo_serialize sample_options)\<^sup>*\<^sup>* (sv_init srv_options) ?a"
    by (rule r_into_rtranclp, rule server_step.start) (simp add: sv_init_def)
  moreover have "server_step demo_serialize sample_options ?a srv_open"
  proof -
    have "srv_open = ?a\<lparr>sv_links := sv_links ?a @ [Some (sc_init 7 (ascii ''b''))], sv_readers := sv_readers ?a @ [AdIdle]\<rparr>"
      by (simp add: srv_open_def demo_start_def start_queue_def sv_init_def AdmissionQueue_Create_def Let_def srv_options_def)
    then show ?thesis by (metis server_step.install)
  qed
  ultimately have opened: "(server_step demo_serialize sample_options)\<^sup>*\<^sup>* (sv_init srv_options) srv_open" by (rule into)
  let ?b = "admit_begin demo_serialize sample_options 0 0 demo_start sample_call srv_request srv_open"
  have open_fields: "length (sv_links srv_open) = 1" "sv_links srv_open ! 0 = Some demo_start" "sv_readers srv_open ! 0 = AdIdle"
    by (simp_all add: srv_open_def)
  have "ItemBytes srv_request < 2 ^ 63"
  proof -
    have "ItemBytes srv_request = 87" by code_simp
    then show ?thesis by simp
  qed
  then have begun: "server_step demo_serialize sample_options srv_open ?b"
    using open_fields srv_dispatch demo_waiting_fields by (intro server_step.inbound) (simp_all add: demo_start_def)
  have pc: "sv_readers ?b = [AdCounted srv_request (Some 0)]" by code_simp
  let ?c = "admit_charge 0 srv_request (Some 0) ?b"
  have charged: "server_step demo_serialize sample_options ?b ?c" by (rule server_step.charge) (simp_all add: pc)
  have pc': "sv_readers ?c = [AdCharged srv_item]" by code_simp
  have "server_step demo_serialize sample_options ?c srv_admitted"
    unfolding srv_admitted_def by (rule server_step.enqueue) (simp_all add: pc')
  from into [OF into [OF into [OF opened begun] charged] this] show ?thesis by (simp add: server_reachable_def)
qed

theorem admission_accounting_witness:
  "sv_inflight srv_admitted (LaneIndex TcService) = 1 \<and> held TcService srv_admitted = 1"
proof -
  have "held TcService srv_admitted = 1" by code_simp
  moreover have "sv_inflight srv_admitted (LaneIndex TcService) = word_of_nat (held TcService srv_admitted)"
    using admission_accounting [OF srv_options_valid srv_admitted_reachable] by blast
  ultimately show ?thesis by simp
qed

lemma server_link_run:
  assumes "(link_step serialize opts)\<^sup>*\<^sup>* c d" "l < length (sv_links s)" "sv_links s ! l = Some c"
  shows "(server_step serialize opts)\<^sup>*\<^sup>* s (set_link l d s)"
  using assms(1)
proof (induction rule: rtranclp_induct)
  case base
  have "set_link l c s = s" using assms(2,3) by (cases s) (simp add: set_link_def list_update_same_conv)
  then show ?case by simp
next
  case (step d e)
  have "server_step serialize opts (set_link l d s) (set_link l e (set_link l d s))"
    using step(2) assms(2) by (intro server_step.link [of l _ d]) simp_all
  then show ?case using step(3) by (simp add: set_link_def)
qed

definition srv_called :: ServerV2State where
  "srv_called = worker_release srv_item True (worker_reply demo_serialize sample_options srv_item (Inr ()) srv_handled)"

definition srv_answered :: ServerV2State where
  "srv_answered = snd (Complete demo_serialize sample_options True 0 sample_response srv_called)"

definition srv_reply_frame :: SessionFrame where
  "srv_reply_frame = sample_response_frame\<lparr>sf_traffic := TcService\<rparr>"

lemma srv_answered_reachable: "server_reachable demo_serialize sample_options srv_options srv_answered"
proof -
  note into = rtranclp.rtrancl_into_rtrancl [where r = "server_step demo_serialize sample_options"]
  let ?t = "worker_take srv_admitted"
  have worker: "sv_worker srv_admitted = WkIdle" "sv_worker ?t = WkHandling srv_item" by code_simp+
  have taken: "server_step demo_serialize sample_options srv_admitted ?t" by (rule server_step.take [OF worker(1)])
  have handled: "server_step demo_serialize sample_options ?t srv_handled"
    unfolding srv_handled_def by (rule server_step.handled [OF worker(2)])
  let ?r = "worker_reply demo_serialize sample_options srv_item (Inr ()) srv_handled"
  have replied: "server_step demo_serialize sample_options srv_handled ?r"
    by (rule server_step.reply) (simp add: srv_handled_def worker_handled_def)
  have "sv_worker ?r = WkReplied srv_item True" by code_simp
  then have released: "server_step demo_serialize sample_options ?r srv_called"
    unfolding srv_called_def by (rule server_step.worker_releases)
  have "sv_handed srv_called = [srv_item]" by code_simp
  then have "server_step demo_serialize sample_options srv_called srv_answered"
    unfolding srv_answered_def by (intro server_step.framework_completes [of srv_item]) (simp_all add: srv_item_def)
  from into [OF into [OF into [OF into [OF into [OF srv_admitted_reachable [unfolded server_reachable_def] taken] handled] replied] released] this]
  show ?thesis by (simp add: server_reachable_def)
qed

lemma srv_reply_encoded: "EncodeFramedSessionFrame demo_serialize srv_reply_frame 1024 = Inr [0, 0, 0, 2, 8, 2]"
proof -
  have "ValidateKindRules srv_reply_frame False = Inr ()" by code_simp
  from tiny_encode [OF this] obtain m where "FillProto srv_reply_frame = Inr m"
    by (auto simp: EncodeSessionFrame_def split: sum.splits)
  then have "EncodeSessionFrame demo_serialize srv_reply_frame = Inr [8, 2]" by (simp add: EncodeSessionFrame_def demo_serialize_def)
  moreover have "EncodeFramePrefix 2 = [0, 0, 0, 2]" by code_simp
  ultimately show ?thesis
    by (simp add: EncodeFramedSessionFrame_def FrameByteLimit_def kRpcV2MaxFrameBytes_def kRpcV2HelloMaxFrameBytes_def)
qed

definition srv_link :: SessionCore where
  "srv_link = note_inflight TcService (inflight_add 1) demo_start"

definition srv_out_item :: OutItem where
  "srv_out_item = \<lparr>oi_bytes = [0, 0, 0, 2, 8, 2], oi_lane = TcService, oi_key = [], oi_deadline = rc_deadline (rq_context srv_request),
     oi_control_response = True, oi_settle = None\<rparr>"

lemma admit_links [simp]:
  "sv_links (worker_take s) = sv_links s" "sv_links (worker_handled item outcome s) = sv_links s"
  "sv_links (admit_enqueue l item s) = sv_links s" "sv_links (admit_charge l r reply s) = sv_links s"
  by (simp_all add: worker_take_def worker_handled_def admit_enqueue_def admit_charge_def NoteInflight_def Let_def
      split: option.split prod.split admit_result.split)

lemma srv_handled_links: "sv_links srv_handled = [Some srv_link]"
proof -
  obtain q where "sv_queue srv_open = Some q"
    by (simp add: srv_open_def start_queue_def AdmissionQueue_Create_def sv_init_def srv_options_def Let_def)
  moreover have "sv_links srv_open = [Some demo_start]" by (simp add: srv_open_def Let_def)
  moreover have "rq_traffic srv_request = TcService" by (simp add: srv_request_def sample_request_def)
  ultimately show ?thesis
    by (simp add: srv_handled_def srv_admitted_def admit_begin_def srv_link_def Let_def split: option.split)
qed

lemma srv_called_facts:
  "\<not> rp_terminal (sv_replies srv_called ! 0)" "rp_kind (sv_replies srv_called ! 0) = FkResponse"
  "rp_lane (sv_replies srv_called ! 0) = TcService" "rp_session (sv_replies srv_called ! 0) = 0"
  "response_matches (sv_replies srv_called ! 0) sample_response"
  "rp_reply_deadline (sv_replies srv_called ! 0) = rc_deadline (rq_context srv_request)"
  "length (sv_replies srv_called) = 1" "sv_posted srv_called = []" "sv_links srv_called = [Some srv_link]"
  "live_link 0 srv_called = Some srv_link"
  "ResponseToSessionFrame sample_response (sc_epoch srv_link) = Inr sample_response_frame"
proof -
  let ?p = "sv_replies srv_called ! 0"
  have "(rp_terminal ?p, rp_kind ?p, rp_lane ?p, rp_session ?p, response_matches ?p sample_response, rp_reply_deadline ?p,
      length (sv_replies srv_called), sv_posted srv_called, ForSendAcceptance srv_item srv_handled)
      = (False, FkResponse, TcService, 0, True, rc_deadline (rq_context srv_request), 1, [], False)" by code_simp
  note facts = this
  then have no: "\<not> ForSendAcceptance srv_item srv_handled" by simp
  show "\<not> rp_terminal ?p" "rp_kind ?p = FkResponse" "rp_lane ?p = TcService" "rp_session ?p = 0"
    "response_matches ?p sample_response" "rp_reply_deadline ?p = rc_deadline (rq_context srv_request)"
    "length (sv_replies srv_called) = 1" "sv_posted srv_called = []" using facts by simp_all
  show links: "sv_links srv_called = [Some srv_link]" unfolding srv_called_def
    using no srv_handled_links
    by (simp add: worker_release_def worker_reply_def srv_item_def srv_request_def sample_request_def Let_def)
  show "live_link 0 srv_called = Some srv_link" using links by (simp add: live_link_def srv_link_def demo_start_def)
  show "ResponseToSessionFrame sample_response (sc_epoch srv_link) = Inr sample_response_frame"
    by (simp add: srv_link_def demo_start_def sample_response_frame_def ResponseToSessionFrame_def)
qed

lemma srv_posted:
  "sv_posted srv_answered = [(0, srv_reply_frame)]"
  "sv_links srv_answered = [Some (snd (post_reply sample_options srv_out_item srv_link))]"
proof -
  have item: "srv_out_item = \<lparr>oi_bytes = [0, 0, 0, 2, 8, 2], oi_lane = sf_traffic srv_reply_frame, oi_key = [],
      oi_deadline = rc_deadline (rq_context srv_request), oi_control_response = True, oi_settle = None\<rparr>"
    by (simp add: srv_out_item_def srv_reply_frame_def)
  obtain d where put: "post_reply sample_options srv_out_item srv_link = (Inr (), d)"
    by (simp add: post_reply_def Enqueue_def srv_out_item_def srv_link_def demo_start_def sample_options_def default_TrafficStats_def
        inflight_add_def Let_def)
  have "co_max_frame_bytes sample_options = 1024" by (simp add: sample_options_def)
  then have ans: "srv_answered = (set_link 0 d (mark_terminal 0 srv_called))\<lparr>sv_posted := sv_posted srv_called @ [(0, srv_reply_frame)]\<rparr>"
    using srv_called_facts srv_reply_encoded put
    by (simp add: srv_answered_def Complete_def begin_reply_def post_terminal_def srv_reply_frame_def [symmetric] item [symmetric] Let_def)
  show "sv_posted srv_answered = [(0, srv_reply_frame)]"
    "sv_links srv_answered = [Some (snd (post_reply sample_options srv_out_item srv_link))]"
    unfolding ans using srv_called_facts(8,9) put by simp_all
qed


definition srv_drained :: ServerV2State where
  "srv_drained = (let s = snd (Release 0 srv_answered)
     in set_link 0 (Kill no_error (snd (post_reply sample_options srv_out_item srv_link))) s)"

lemma srv_drained_reachable: "server_reachable demo_serialize sample_options srv_options srv_drained"
proof -
  let ?c = "snd (post_reply sample_options srv_out_item srv_link)" and ?s = "snd (Release 0 srv_answered)"
  have "sv_handed srv_answered = sv_handed srv_handled"
    by (simp add: srv_answered_def srv_called_def worker_release_def)
  moreover have "sv_handed srv_handled = [srv_item]" by code_simp
  ultimately have "server_step demo_serialize sample_options srv_answered ?s"
    using server_step.framework_releases [of srv_item srv_answered demo_serialize sample_options] by (simp add: srv_item_def)
  moreover have "\<not> lo_dead ?c"
    by (simp add: post_reply_def Enqueue_def srv_out_item_def srv_link_def demo_start_def sample_options_def default_TrafficStats_def
        inflight_add_def Let_def)
  then have "(server_step demo_serialize sample_options)\<^sup>*\<^sup>* ?s srv_drained"
    unfolding srv_drained_def Let_def using srv_posted(2) by (intro server_link_run [OF Kill_run]) simp_all
  ultimately show ?thesis
    using srv_answered_reachable unfolding server_reachable_def by (meson rtranclp.rtrancl_into_rtrancl rtranclp_trans)
qed

lemma srv_released:
  "sv_leases (snd (Release 0 srv_answered)) = [\<lparr>ls_lane = TcService, ls_released = True\<rparr>]"
  "\<forall>lane < 3. sv_inflight (snd (Release 0 srv_answered)) lane = 0"
  "queued (snd (Release 0 srv_answered)) = {}"
proof -
  have same: "sv_leases srv_answered = sv_leases srv_handled" "sv_inflight srv_answered = sv_inflight srv_handled"
    "sv_queue srv_answered = sv_queue srv_handled"
    by (simp_all add: srv_answered_def srv_called_def worker_release_def srv_item_def srv_request_def sample_request_def)
  have "(sv_leases srv_handled, sv_inflight srv_handled 0, sv_inflight srv_handled 1, sv_inflight srv_handled 2)
      = ([\<lparr>ls_lane = TcService, ls_released = False\<rparr>], 0, 1, 0)" by code_simp
  then have facts: "sv_leases srv_handled = [\<lparr>ls_lane = TcService, ls_released = False\<rparr>]" "sv_inflight srv_handled 0 = 0"
    "sv_inflight srv_handled (Suc 0) = 1" "sv_inflight srv_handled 2 = 0" by simp_all
  have "map_option aq_queue (sv_queue srv_handled) = Some []" by code_simp
  then have "queued srv_handled = {}" by (auto simp: queued_def)
  then show "queued (snd (Release 0 srv_answered)) = {}" using same(3) by (simp add: queued_def)
  show "sv_leases (snd (Release 0 srv_answered)) = [\<lparr>ls_lane = TcService, ls_released = True\<rparr>]"
    using facts(1) same(1) by (simp add: Release_def NoteInflight_def Let_def)
  show "\<forall>lane < 3. sv_inflight (snd (Release 0 srv_answered)) lane = 0"
    using facts same by (auto simp: Release_def NoteInflight_def Let_def numeral_3_eq_3 less_Suc_eq numeral_2_eq_2)
qed


theorem unencodable_reply_is_lost_witness:
  "Complete (\<lambda>_. None) sample_options True 0 sample_response srv_called
     = (CrDone (Inl (MakeError ProtocolError (ascii ''protobuf serialize failed''))), mark_terminal 0 srv_called)"
proof -
  have "ValidateKindRules srv_reply_frame False = Inr ()" by code_simp
  from tiny_encode [OF this] obtain m where "FillProto srv_reply_frame = Inr m"
    by (auto simp: EncodeSessionFrame_def split: sum.splits)
  then have "EncodeFramedSessionFrame (\<lambda>_. None) (sample_response_frame\<lparr>sf_traffic := TcService\<rparr>) (co_max_frame_bytes sample_options)
      = Inl (MakeError ProtocolError (ascii ''protobuf serialize failed''))"
    by (simp add: EncodeFramedSessionFrame_def EncodeSessionFrame_def srv_reply_frame_def sample_options_def kRpcV2MaxFrameBytes_def)
  then show ?thesis
    using unencodable_reply_is_lost [where s = srv_called and i = 0 and c = srv_link and response = sample_response
        and serialize = "\<lambda>_. None" and opts = sample_options] srv_called_facts by simp
qed

end
