(* ===== verification/SessionOwner.thy ===== *)
theory SessionOwner
  imports Handshake Lanes "HOL-Library.AList"
begin

text \<open>
  The owner of all sessions of a client, and the accepting side of a server (\<^verbatim>\<open>SessionOwnerState\<close>, \<^verbatim>\<open>InstallSession\<close>,
  \<^verbatim>\<open>GetSession\<close>, \<^verbatim>\<open>EstablishOutbound\<close>, \<^verbatim>\<open>ServeInbound\<close>, \<^verbatim>\<open>AcceptLoop\<close>, the seals and the shutdown in
  \<^verbatim>\<open>bbt/infra/rpc/Session.cc\<close>): which links exist, who is allowed to open one, which of two crossing links
  survives, and who has to close what. A link is seen from outside here: of a \<^verbatim>\<open>SessionCore\<close> only the fields
  the owner uses appear, and \<^verbatim>\<open>Kill\<close> and the exit of its loops are one step each (\<open>SessionLink\<close> has their inside).
  Each critical section of \<^verbatim>\<open>owner->mu\<close> or \<^verbatim>\<open>server->mu\<close> is one step, and the coroutines that dial and that serve
  an accepted connection have a program counter. Connections, links and records of an establishment in progress are
  shared objects, addressed by index. An expired \<^verbatim>\<open>weak_ptr\<close> is the flag \<open>sh_expired\<close>.
\<close>

section \<open>State\<close>

record Conn =
  cn_close_requested :: bool
  cn_released :: bool

record SessionHandle =
  sh_peer_identity :: bytes
  sh_outbound :: bool
  sh_conn :: nat
  sh_dead :: bool
  sh_quota_held :: bool
  sh_responsibilities :: int
  sh_tasks :: nat
  sh_expired :: bool

record Establishing =
  es_session :: "nat option"
  es_error :: Error
  es_done :: bool
  es_reserved :: bool
  es_conn :: "nat option"

record SessionOwnerState =
  ow_options :: ClientOptions
  ow_closed :: bool
  ow_draining :: bool
  ow_close_reason :: "Error option"
  ow_active_ops :: u64
  ow_by_endpoint :: "(bytes \<times> nat) list"
  ow_by_identity :: "(bytes \<times> nat) list"
  ow_establishing :: "(bytes \<times> nat) list"
  ow_epoch_counter :: u64
  ow_sessions :: u64
  ow_links :: u64
  ow_conns :: "Conn list"
  ow_cores :: "SessionHandle list"
  ow_ests :: "Establishing list"

definition NextEpoch :: "'a SessionOwnerState_scheme \<Rightarrow> u64 \<times> 'a SessionOwnerState_scheme" where
  "NextEpoch s =
     (let c = ow_epoch_counter s + 1; d = (if c = 0 then c + 1 else c)
      in (d, s\<lparr>ow_epoch_counter := d\<rparr>))"

section \<open>Connections and links\<close>

definition fresh_conn :: Conn where
  "fresh_conn = \<lparr>cn_close_requested = False, cn_released = False\<rparr>"

definition add_conn :: "Conn \<Rightarrow> 'a SessionOwnerState_scheme \<Rightarrow> 'a SessionOwnerState_scheme" where
  "add_conn c s = s\<lparr>ow_conns := ow_conns s @ [c]\<rparr>"

definition RequestConnClose :: "nat \<Rightarrow> 'a SessionOwnerState_scheme \<Rightarrow> 'a SessionOwnerState_scheme" where
  "RequestConnClose c s = s\<lparr>ow_conns := (ow_conns s)[c := (ow_conns s ! c)\<lparr>cn_close_requested := True\<rparr>]\<rparr>"

definition on_core ::
  "nat \<Rightarrow> (SessionHandle \<Rightarrow> SessionHandle) \<Rightarrow> 'a SessionOwnerState_scheme \<Rightarrow> 'a SessionOwnerState_scheme" where
  "on_core i f s = s\<lparr>ow_cores := (ow_cores s)[i := f (ow_cores s ! i)]\<rparr>"

definition on_est ::
  "nat \<Rightarrow> (Establishing \<Rightarrow> Establishing) \<Rightarrow> 'a SessionOwnerState_scheme \<Rightarrow> 'a SessionOwnerState_scheme" where
  "on_est e f s = s\<lparr>ow_ests := (ow_ests s)[e := f (ow_ests s ! e)]\<rparr>"

definition make_session ::
  "bytes \<Rightarrow> bool \<Rightarrow> nat \<Rightarrow> 'a SessionOwnerState_scheme \<Rightarrow> 'a SessionOwnerState_scheme" where
  "make_session peer outbound c s = s\<lparr>ow_cores := ow_cores s @
     [\<lparr>sh_peer_identity = peer, sh_outbound = outbound, sh_conn = c, sh_dead = False, sh_quota_held = False,
       sh_responsibilities = 0, sh_tasks = 0, sh_expired = False\<rparr>]\<rparr>"

definition ReleasedLocked :: "nat \<Rightarrow> 'a SessionOwnerState_scheme \<Rightarrow> bool \<times> 'a SessionOwnerState_scheme" where
  "ReleasedLocked i s =
     (if \<not> cn_released (ow_conns s ! sh_conn (ow_cores s ! i)) then (False, s)
      else if \<not> sh_quota_held (ow_cores s ! i) then (False, s)
      else (True, (on_core i (sh_quota_held_update (\<lambda>_. False)) s)
        \<lparr>ow_links := ow_links s - 1, ow_sessions := ow_sessions s - 1,
         ow_by_identity := filter (\<lambda>x. snd x \<noteq> i) (ow_by_identity s),
         ow_by_endpoint := filter (\<lambda>x. \<not> sh_expired (ow_cores s ! snd x) \<and> snd x \<noteq> i) (ow_by_endpoint s)\<rparr>))"

definition sweep_release :: "nat list \<Rightarrow> 'a SessionOwnerState_scheme \<Rightarrow> 'a SessionOwnerState_scheme" where
  "sweep_release is s = fold (\<lambda>i t. snd (ReleasedLocked i t)) is s"

definition SessionExitDone :: "nat \<Rightarrow> 'a SessionOwnerState_scheme \<Rightarrow> 'a SessionOwnerState_scheme" where
  "SessionExitDone i s =
     (let r = sh_responsibilities (ow_cores s ! i); t = on_core i (sh_responsibilities_update (\<lambda>_. r - 1)) s
      in if r \<noteq> 1 then t else snd (ReleasedLocked i t))"

definition KillSession :: "nat \<Rightarrow> 'a SessionOwnerState_scheme \<Rightarrow> 'a SessionOwnerState_scheme" where
  "KillSession i s =
     (if sh_dead (ow_cores s ! i) then s
      else SessionExitDone i (RequestConnClose (sh_conn (ow_cores s ! i)) (on_core i (sh_dead_update (\<lambda>_. True)) s)))"

definition Submit :: "bool \<Rightarrow> nat \<Rightarrow> 'a SessionOwnerState_scheme \<Rightarrow> bool \<times> 'a SessionOwnerState_scheme" where
  "Submit registered i s =
     (if registered
      then (True, on_core i (\<lambda>x. x\<lparr>sh_responsibilities := sh_responsibilities x + 1, sh_tasks := sh_tasks x + 1\<rparr>) s)
      else (False, s))"

section \<open>Installing a link\<close>

definition occupied :: "'a SessionOwnerState_scheme \<Rightarrow> nat" where
  "occupied s = length (ow_by_identity s) + length (filter (\<lambda>x. es_reserved (ow_ests s ! snd x)) (ow_establishing s))"

definition occupied_by_others :: "nat option \<Rightarrow> 'a SessionOwnerState_scheme \<Rightarrow> nat" where
  "occupied_by_others est s =
     (case est of None \<Rightarrow> occupied s | Some e \<Rightarrow> if es_reserved (ow_ests s ! e) then occupied s - 1 else occupied s)"

definition map_endpoint :: "bytes \<Rightarrow> nat \<Rightarrow> 'a SessionOwnerState_scheme \<Rightarrow> 'a SessionOwnerState_scheme" where
  "map_endpoint key i s = (if key = [] then s else s\<lparr>ow_by_endpoint := AList.update key i (ow_by_endpoint s)\<rparr>)"

datatype install = InFail Error | InLost nat | InWon "nat option"

definition install_take ::
  "nat \<Rightarrow> bytes \<Rightarrow> nat option \<Rightarrow> 'a SessionOwnerState_scheme \<Rightarrow> 'a SessionOwnerState_scheme" where
  "install_take i key evicted s =
     (let t = map_endpoint key i (on_core i (sh_quota_held_update (\<lambda>_. True))
                (s\<lparr>ow_by_identity := AList.update (sh_peer_identity (ow_cores s ! i)) i (ow_by_identity s)\<rparr>));
          u = (case evicted of None \<Rightarrow> t
               | Some w \<Rightarrow> t\<lparr>ow_by_endpoint :=
                   map (\<lambda>x. if snd x = w \<and> \<not> sh_expired (ow_cores t ! w) then (fst x, i) else x) (ow_by_endpoint t)\<rparr>)
      in u\<lparr>ow_links := ow_links s + 1, ow_sessions := ow_sessions s + 1\<rparr>)"

definition InstallSession ::
  "nat \<Rightarrow> bytes \<Rightarrow> nat option \<Rightarrow> 'a SessionOwnerState_scheme \<Rightarrow> install \<times> 'a SessionOwnerState_scheme" where
  "InstallSession i key est s =
     (let x = ow_cores s ! i in
      if ow_closed s then (InFail (Err Closed (ascii ''owner closed'')), s)
      else case map_of (ow_by_identity s) (sh_peer_identity x) of
        Some winner \<Rightarrow>
          (if string_less (co_local_identity (ow_options s)) (sh_peer_identity x) = sh_outbound x
           then (InWon (Some winner), install_take i key (Some winner) s)
           else (InLost winner,
                 map_endpoint key winner (RequestConnClose (sh_conn x) (on_core i (sh_dead_update (\<lambda>_. True)) s))))
      | None \<Rightarrow>
          (if co_max_sessions (ow_options s) \<le> occupied_by_others est s
           then (InFail (Err Overloaded (ascii ''max sessions reached'')), s)
           else (InWon None, install_take i key None
                  (case est of None \<Rightarrow> s | Some e \<Rightarrow> on_est e (es_reserved_update (\<lambda>_. False)) s))))"

definition start_session :: "bool \<Rightarrow> bool \<Rightarrow> nat \<Rightarrow> 'a SessionOwnerState_scheme \<Rightarrow> bool \<times> 'a SessionOwnerState_scheme" where
  "start_session reader writer i s =
     (let t = on_core i (\<lambda>x. x\<lparr>sh_responsibilities := sh_responsibilities x + 1\<rparr>) s;
          (a, u) = Submit reader i t
      in if \<not> a then (False, KillSession i u)
         else let (b, v) = Submit writer i u in if b then (True, v) else (False, KillSession i v))"

section \<open>Finding or opening a link\<close>

datatype lookup = LkFail Error | LkFound nat | LkWait nat | LkEstablish nat

definition new_establishing :: Establishing where
  "new_establishing = \<lparr>es_session = None, es_error = Err InternalError (ascii ''unset''), es_done = False,
     es_reserved = True, es_conn = None\<rparr>"

definition live_endpoint :: "bytes \<Rightarrow> 'a SessionOwnerState_scheme \<Rightarrow> nat option" where
  "live_endpoint key s =
     (case map_of (ow_by_endpoint s) key of
        Some i \<Rightarrow> if sh_expired (ow_cores s ! i) \<or> sh_dead (ow_cores s ! i) then None else Some i
      | None \<Rightarrow> None)"

definition GetSession :: "bytes \<Rightarrow> 'a SessionOwnerState_scheme \<Rightarrow> lookup \<times> 'a SessionOwnerState_scheme" where
  "GetSession key s =
     (if ow_closed s then (LkFail (Err Closed (ascii ''owner closed'')), s)
      else let t = sweep_release (map snd (ow_by_identity s)) s in
        case live_endpoint key t of
          Some i \<Rightarrow> (LkFound i, t)
        | None \<Rightarrow>
            (let u = t\<lparr>ow_by_endpoint := AList.delete key (ow_by_endpoint t)\<rparr> in
             case map_of (ow_establishing u) key of
               Some e \<Rightarrow> (LkWait e, u)
             | None \<Rightarrow>
                 if co_max_sessions (ow_options u) \<le> occupied u
                 then (LkFail (Err Overloaded (ascii ''max sessions reached (pre-dial)'')), u)
                 else (LkEstablish (length (ow_ests u)),
                       u\<lparr>ow_ests := ow_ests u @ [new_establishing],
                         ow_establishing := AList.update key (length (ow_ests u)) (ow_establishing u)\<rparr>)))"

definition poll_establishing :: "nat \<Rightarrow> 'a SessionOwnerState_scheme \<Rightarrow> nat result option" where
  "poll_establishing e s =
     (if \<not> es_done (ow_ests s ! e) then None
      else Some (case es_session (ow_ests s ! e) of
        Some i \<Rightarrow> if sh_dead (ow_cores s ! i) then Inl (es_error (ow_ests s ! e)) else Inr i
      | None \<Rightarrow> Inl (es_error (ow_ests s ! e))))"

definition attach_conn :: "nat \<Rightarrow> nat \<Rightarrow> 'a SessionOwnerState_scheme \<Rightarrow> Error option \<times> 'a SessionOwnerState_scheme" where
  "attach_conn e c s =
     (let t = on_est e (es_conn_update (\<lambda>_. Some c)) s
      in if ow_closed s then (Some (Err Closed (ascii ''owner closed'')), RequestConnClose c t) else (None, t))"

definition finish_establishing ::
  "bytes \<Rightarrow> nat \<Rightarrow> nat result \<Rightarrow> 'a SessionOwnerState_scheme \<Rightarrow> nat option \<times> 'a SessionOwnerState_scheme" where
  "finish_establishing key e made s =
     (let x = ow_ests s ! e;
          y = (case made of Inr i \<Rightarrow> x\<lparr>es_session := Some i\<rparr> | Inl err \<Rightarrow> x\<lparr>es_error := err\<rparr>);
          t = (on_est e (\<lambda>_. y\<lparr>es_conn := None, es_done := True\<rparr>) s)
            \<lparr>ow_establishing := (if map_of (ow_establishing s) key = Some e then AList.delete key (ow_establishing s)
                                 else ow_establishing s)\<rparr>
      in (case made of Inr _ \<Rightarrow> None | Inl _ \<Rightarrow> es_conn x, t))"

section \<open>Operations, close and shutdown of a client\<close>

definition SessionOwnerSeal ::
  "Error \<Rightarrow> 'a SessionOwnerState_scheme \<Rightarrow> (nat list \<times> nat list) \<times> 'a SessionOwnerState_scheme" where
  "SessionOwnerSeal reason s =
     (let t = s\<lparr>ow_close_reason := (case ow_close_reason s of None \<Rightarrow> Some reason | Some r \<Rightarrow> Some r)\<rparr>
      in if ow_closed s then (([], []), t)
         else ((map snd (ow_by_identity s), List.map_filter (\<lambda>x. es_conn (ow_ests s ! snd x)) (ow_establishing s)),
               t\<lparr>ow_closed := True\<rparr>))"

definition SessionOwnerBeginOperation ::
  "'a SessionOwnerState_scheme \<Rightarrow> Error option \<times> 'a SessionOwnerState_scheme" where
  "SessionOwnerBeginOperation s =
     (if ow_closed s \<or> ow_draining s
      then (Some (case ow_close_reason s of Some r \<Rightarrow> r | None \<Rightarrow> Err Closed (ascii ''rpc client: closed'')), s)
      else (None, s\<lparr>ow_active_ops := ow_active_ops s + 1\<rparr>))"

definition SessionOwnerEndOperation :: "'a SessionOwnerState_scheme \<Rightarrow> 'a SessionOwnerState_scheme" where
  "SessionOwnerEndOperation s =
     (if ow_active_ops s \<noteq> 0 then s\<lparr>ow_active_ops := ow_active_ops s - 1\<rparr> else s)"

datatype shutdown_pc = ShWaiting | ShReturned "unit result"

definition SessionOwnerShutdown ::
  "bool \<Rightarrow> 'a SessionOwnerState_scheme \<Rightarrow> shutdown_pc \<times> 'a SessionOwnerState_scheme" where
  "SessionOwnerShutdown native_host s =
     (if \<not> native_host
      then (ShReturned (Inl (Err InvalidContext (ascii ''Shutdown requires native host context''))), s)
      else if ow_closed s
      then (ShReturned (Inl (case ow_close_reason s of Some r \<Rightarrow> r | None \<Rightarrow> Err Closed (ascii ''rpc client: closed''))), s)
      else if ow_draining s
      then (ShReturned (if ow_active_ops s = 0 then Inr () else Inl (Err Overloaded (ascii ''shutdown already in progress''))), s)
      else (ShWaiting, s\<lparr>ow_draining := True\<rparr>))"

definition shutdown_poll :: "bool \<Rightarrow> 'a SessionOwnerState_scheme \<Rightarrow> shutdown_pc" where
  "shutdown_poll expired s =
     (if ow_active_ops s = 0 then ShReturned (Inr ())
      else case ow_close_reason s of
        Some r \<Rightarrow> ShReturned (Inl r)
      | None \<Rightarrow> if expired then ShReturned (Inl (Err TimedOut (ascii ''shutdown deadline exceeded; owner remains sealed'')))
                else ShWaiting)"

section \<open>The accepting side of a server\<close>

datatype task_pc =
    DpDial bytes nat
  | DpHandshake bytes nat nat
  | DpInstall bytes nat nat
  | DpEvict bytes nat nat nat
  | DpStart bytes nat nat
  | DpClose bytes nat nat Error
  | DpFinish bytes nat "nat result"
  | DpAbandon nat "nat result"
  | DpReturned "nat result"
  | SvHandshake nat
  | SvPublish nat nat
  | SvInstall nat nat
  | SvEvict nat nat nat
  | SvStart nat nat
  | SvFailed nat nat
  | SvLive nat nat
  | SvFinish nat
  | SvClose nat
  | SvDone

record OwnerWorld = SessionOwnerState +
  sw_max_connections :: nat
  sw_stopping :: bool
  sw_closed :: bool
  sw_close_reason :: "Error option"
  sw_accept_loop_exited :: bool
  sw_accepted :: u64
  sw_links :: "nat list"
  sw_handshakes :: "nat list"
  sw_tasks :: "task_pc list"
  sw_sealers :: "(nat list \<times> nat list) list"
  sw_shutdowns :: "shutdown_pc list"
  sw_operations :: nat

definition ow_init :: "ClientOptions \<Rightarrow> nat \<Rightarrow> OwnerWorld" where
  "ow_init opts max_connections = \<lparr>ow_options = opts, ow_closed = False, ow_draining = False, ow_close_reason = None,
     ow_active_ops = 0, ow_by_endpoint = [], ow_by_identity = [], ow_establishing = [], ow_epoch_counter = 0,
     ow_sessions = 0, ow_links = 0, ow_conns = [], ow_cores = [], ow_ests = [],
     sw_max_connections = max_connections, sw_stopping = False, sw_closed = False, sw_close_reason = None,
     sw_accept_loop_exited = False, sw_accepted = 0, sw_links = [], sw_handshakes = [],
     sw_tasks = [], sw_sealers = [], sw_shutdowns = [], sw_operations = 0\<rparr>"

definition set_task :: "nat \<Rightarrow> task_pc \<Rightarrow> OwnerWorld \<Rightarrow> OwnerWorld" where
  "set_task a p s = s\<lparr>sw_tasks := (sw_tasks s)[a := p]\<rparr>"

definition add_task :: "task_pc \<Rightarrow> OwnerWorld \<Rightarrow> OwnerWorld" where
  "add_task p s = s\<lparr>sw_tasks := sw_tasks s @ [p]\<rparr>"

definition erase_handshake :: "nat \<Rightarrow> OwnerWorld \<Rightarrow> OwnerWorld" where
  "erase_handshake c s = s\<lparr>sw_handshakes := filter (\<lambda>x. x \<noteq> c) (sw_handshakes s)\<rparr>"

definition accept_connection :: "bool \<Rightarrow> OwnerWorld \<Rightarrow> OwnerWorld" where
  "accept_connection registered s =
     (let c = length (ow_conns s); t = add_conn fresh_conn s
      in if sw_stopping t \<or> sw_max_connections t \<le> length (sw_links t) + length (sw_handshakes t)
         then RequestConnClose c t
         else let u = t\<lparr>sw_handshakes := sw_handshakes t @ [c]\<rparr>
              in if registered then add_task (SvHandshake c) u else erase_handshake c (RequestConnClose c u))"

definition serve_publish :: "nat \<Rightarrow> nat \<Rightarrow> nat \<Rightarrow> OwnerWorld \<Rightarrow> OwnerWorld" where
  "serve_publish a c i s =
     (if sw_closed s then set_task a (SvClose i) (erase_handshake c s) else set_task a (SvInstall c i) s)"

definition serve_install :: "nat \<Rightarrow> nat \<Rightarrow> nat \<Rightarrow> OwnerWorld \<Rightarrow> OwnerWorld" where
  "serve_install a c i s =
     (let (r, t) = InstallSession i [] None s
      in set_task a (case r of InFail _ \<Rightarrow> SvFailed c i | InLost w \<Rightarrow> SvLive c w
                     | InWon (Some w) \<Rightarrow> SvEvict c i w | InWon None \<Rightarrow> SvStart c i) t)"

definition serve_start :: "nat \<Rightarrow> nat \<Rightarrow> nat \<Rightarrow> bool \<Rightarrow> bool \<Rightarrow> OwnerWorld \<Rightarrow> OwnerWorld" where
  "serve_start a c i reader writer s =
     (let (ok, t) = start_session reader writer i s in set_task a (if ok then SvLive c i else SvFailed c i) t)"

definition serve_live :: "nat \<Rightarrow> nat \<Rightarrow> nat \<Rightarrow> OwnerWorld \<Rightarrow> OwnerWorld" where
  "serve_live a c w s = set_task a SvDone (erase_handshake c
     (s\<lparr>sw_accepted := sw_accepted s + 1,
        sw_links := filter (\<lambda>x. \<not> sh_expired (ow_cores s ! x)) (sw_links s @ [w])\<rparr>))"

definition ServerV2StopAccepting :: "OwnerWorld \<Rightarrow> OwnerWorld" where
  "ServerV2StopAccepting s = s\<lparr>sw_stopping := True\<rparr>"

definition ServerV2Seal :: "Error \<Rightarrow> OwnerWorld \<Rightarrow> OwnerWorld" where
  "ServerV2Seal reason s =
     (let t = s\<lparr>sw_close_reason := (case sw_close_reason s of None \<Rightarrow> Some reason | Some r \<Rightarrow> Some r)\<rparr>
      in if sw_closed s then t
         else t\<lparr>sw_closed := True, sw_stopping := True,
           sw_sealers := sw_sealers s @ [(filter (\<lambda>x. \<not> sh_expired (ow_cores s ! x)) (sw_links s), sw_handshakes s)]\<rparr>)"

section \<open>The coroutines of a client\<close>

definition dial_lookup :: "bytes \<Rightarrow> OwnerWorld \<Rightarrow> OwnerWorld" where
  "dial_lookup key s =
     (let (r, t) = GetSession key s in case r of LkEstablish e \<Rightarrow> add_task (DpDial key e) t | _ \<Rightarrow> t)"

definition dial_connected :: "nat \<Rightarrow> bytes \<Rightarrow> nat \<Rightarrow> OwnerWorld \<Rightarrow> OwnerWorld" where
  "dial_connected a key e s =
     (let c = length (ow_conns s); (refused, t) = attach_conn e c (add_conn fresh_conn s)
      in case refused of
           Some err \<Rightarrow> set_task a (DpFinish key e (Inl err)) t
         | None \<Rightarrow> set_task a (DpHandshake key e c) t)"

definition dial_install :: "nat \<Rightarrow> bytes \<Rightarrow> nat \<Rightarrow> nat \<Rightarrow> OwnerWorld \<Rightarrow> OwnerWorld" where
  "dial_install a key e i s =
     (let (r, t) = InstallSession i key (Some e) s
      in set_task a (case r of InFail err \<Rightarrow> DpClose key e i err | InLost w \<Rightarrow> DpFinish key e (Inr w)
                     | InWon (Some w) \<Rightarrow> DpEvict key e i w | InWon None \<Rightarrow> DpStart key e i) t)"

definition dial_start :: "nat \<Rightarrow> bytes \<Rightarrow> nat \<Rightarrow> nat \<Rightarrow> bool \<Rightarrow> bool \<Rightarrow> OwnerWorld \<Rightarrow> OwnerWorld" where
  "dial_start a key e i reader writer s =
     (let (ok, t) = start_session reader writer i s
      in set_task a (if ok then DpFinish key e (Inr i)
           else DpClose key e i (Err RuntimeUnavailable (ascii ''session task registration failed''))) t)"

definition dial_finish :: "nat \<Rightarrow> bytes \<Rightarrow> nat \<Rightarrow> nat result \<Rightarrow> OwnerWorld \<Rightarrow> OwnerWorld" where
  "dial_finish a key e made s =
     (let (abandoned, t) = finish_establishing key e made s
      in set_task a (case abandoned of Some c \<Rightarrow> DpAbandon c made | None \<Rightarrow> DpReturned made) t)"

definition seal_owner :: "Error \<Rightarrow> OwnerWorld \<Rightarrow> OwnerWorld" where
  "seal_owner reason s = (let (todo, t) = SessionOwnerSeal reason s in t\<lparr>sw_sealers := sw_sealers t @ [todo]\<rparr>)"

definition seal_next :: "nat \<Rightarrow> OwnerWorld \<Rightarrow> OwnerWorld" where
  "seal_next b s =
     (case sw_sealers s ! b of
        (i # is, cs) \<Rightarrow> (KillSession i s)\<lparr>sw_sealers := (sw_sealers s)[b := (is, cs)]\<rparr>
      | ([], c # cs) \<Rightarrow> (RequestConnClose c s)\<lparr>sw_sealers := (sw_sealers s)[b := ([], cs)]\<rparr>
      | ([], []) \<Rightarrow> s)"

definition begin_operation :: "OwnerWorld \<Rightarrow> OwnerWorld" where
  "begin_operation s =
     (let (refused, t) = SessionOwnerBeginOperation s
      in if refused = None then t\<lparr>sw_operations := sw_operations s + 1\<rparr> else t)"

definition end_operation :: "OwnerWorld \<Rightarrow> OwnerWorld" where
  "end_operation s = (SessionOwnerEndOperation s)\<lparr>sw_operations := sw_operations s - 1\<rparr>"

definition shutdown_begin :: "bool \<Rightarrow> OwnerWorld \<Rightarrow> OwnerWorld" where
  "shutdown_begin native_host s =
     (let (p, t) = SessionOwnerShutdown native_host s in t\<lparr>sw_shutdowns := sw_shutdowns t @ [p]\<rparr>)"

definition shutdown_wake :: "nat \<Rightarrow> bool \<Rightarrow> OwnerWorld \<Rightarrow> OwnerWorld" where
  "shutdown_wake n expired s = s\<lparr>sw_shutdowns := (sw_shutdowns s)[n := shutdown_poll expired s]\<rparr>"

section \<open>Steps\<close>

definition at_task :: "nat \<Rightarrow> task_pc \<Rightarrow> OwnerWorld \<Rightarrow> bool" where
  "at_task a p s \<longleftrightarrow> a < length (sw_tasks s) \<and> sw_tasks s ! a = p"

text \<open>
  The steps of the dialling coroutine follow \<^verbatim>\<open>EstablishOutbound\<close>: the dial fails or connects, the handshake (or the
  hook before it) fails, throws or names the peer, and the link is installed. Those of a served connection follow
  \<^verbatim>\<open>ServeInbound\<close>. The last group is the environment of the owner: a link dies, one of its loops returns, a connection
  whose close was requested is released, the last reference to a retired link goes away. Fewer than \<open>2 ^ 64\<close> operations run at a time.
\<close>

inductive world_step :: "OwnerWorld \<Rightarrow> OwnerWorld \<Rightarrow> bool" where
  get_session: "world_step s (dial_lookup key s)"
| dial_failed: "at_task a (DpDial key e) s \<Longrightarrow> world_step s (set_task a (DpFinish key e (Inl err)) s)"
| dial_ok: "at_task a (DpDial key e) s \<Longrightarrow> world_step s (dial_connected a key e s)"
| dial_epoch: "at_task a (DpHandshake key e c) s \<Longrightarrow> world_step s (snd (NextEpoch s))"
| dial_refused: "at_task a (DpHandshake key e c) s \<Longrightarrow> world_step s (set_task a (DpFinish key e (Inl err)) (RequestConnClose c s))"
| dial_threw: "at_task a (DpHandshake key e c) s \<Longrightarrow> world_step s (set_task a (DpFinish key e (Inl err)) s)"
| dial_agreed: "at_task a (DpHandshake key e c) s
    \<Longrightarrow> world_step s (set_task a (DpInstall key e (length (ow_cores s))) (make_session peer True c s))"
| dial_installs: "at_task a (DpInstall key e i) s \<Longrightarrow> world_step s (dial_install a key e i s)"
| dial_evicts: "at_task a (DpEvict key e i w) s \<Longrightarrow> world_step s (set_task a (DpStart key e i) (KillSession w s))"
| dial_starts: "at_task a (DpStart key e i) s \<Longrightarrow> world_step s (dial_start a key e i reader writer s)"
| dial_closes: "at_task a (DpClose key e i err) s
    \<Longrightarrow> world_step s (set_task a (DpFinish key e (Inl err)) (RequestConnClose (sh_conn (ow_cores s ! i)) s))"
| dial_finishes: "at_task a (DpFinish key e made) s \<Longrightarrow> world_step s (dial_finish a key e made s)"
| dial_abandons: "at_task a (DpAbandon c made) s \<Longrightarrow> world_step s (set_task a (DpReturned made) (RequestConnClose c s))"
| accept: "world_step s (accept_connection registered s)"
| accept_exit: "sw_stopping s \<Longrightarrow> world_step s (s\<lparr>sw_accept_loop_exited := True\<rparr>)"
| accept_failed: "\<not> sw_stopping s \<Longrightarrow> world_step s ((ServerV2Seal reason s)\<lparr>sw_accept_loop_exited := True\<rparr>)"
| serve_epoch: "at_task a (SvHandshake c) s \<Longrightarrow> world_step s (snd (NextEpoch s))"
| serve_refused: "at_task a (SvHandshake c) s \<Longrightarrow> world_step s (set_task a (SvFinish c) (RequestConnClose c s))"
| serve_agreed: "at_task a (SvHandshake c) s
    \<Longrightarrow> world_step s (set_task a (SvPublish c (length (ow_cores s))) (make_session peer False c s))"
| serve_hooked: "at_task a (SvPublish c i) s \<Longrightarrow> world_step s (set_task a (SvFailed c i) s)"
| serve_publishes: "at_task a (SvPublish c i) s \<Longrightarrow> world_step s (serve_publish a c i s)"
| serve_installs: "at_task a (SvInstall c i) s \<Longrightarrow> world_step s (serve_install a c i s)"
| serve_evicts: "at_task a (SvEvict c i w) s \<Longrightarrow> world_step s (set_task a (SvStart c i) (KillSession w s))"
| serve_starts: "at_task a (SvStart c i) s \<Longrightarrow> world_step s (serve_start a c i reader writer s)"
| serve_fails: "at_task a (SvFailed c i) s
    \<Longrightarrow> world_step s (set_task a (SvFinish c) (RequestConnClose (sh_conn (ow_cores s ! i)) s))"
| serve_lives: "at_task a (SvLive c w) s \<Longrightarrow> world_step s (serve_live a c w s)"
| serve_finishes: "at_task a (SvFinish c) s \<Longrightarrow> world_step s (set_task a SvDone (erase_handshake c s))"
| serve_closes: "at_task a (SvClose i) s
    \<Longrightarrow> world_step s (set_task a SvDone (RequestConnClose (sh_conn (ow_cores s ! i)) s))"
| stop_accepting: "world_step s (ServerV2StopAccepting s)"
| seal_server: "world_step s (ServerV2Seal reason s)"
| seal: "world_step s (seal_owner reason s)"
| seal_continues: "b < length (sw_sealers s) \<Longrightarrow> world_step s (seal_next b s)"
| operation: "sw_operations s < 2 ^ 64 - 1 \<Longrightarrow> world_step s (begin_operation s)"
| operation_ends: "0 < sw_operations s \<Longrightarrow> world_step s (end_operation s)"
| shutdown: "world_step s (shutdown_begin native_host s)"
| shutdown_wakes: "n < length (sw_shutdowns s) \<Longrightarrow> sw_shutdowns s ! n = ShWaiting \<Longrightarrow> world_step s (shutdown_wake n expired s)"
| wait_stopped: "world_step s (sweep_release (filter (\<lambda>x. \<not> sh_expired (ow_cores s ! x)) (sw_links s)) s)"
| link_dies: "i < length (ow_cores s) \<Longrightarrow> 0 < sh_tasks (ow_cores s ! i) \<Longrightarrow> world_step s (KillSession i s)"
| loop_returns: "i < length (ow_cores s) \<Longrightarrow> 0 < sh_tasks (ow_cores s ! i)
    \<Longrightarrow> world_step s (SessionExitDone i (on_core i (\<lambda>x. x\<lparr>sh_tasks := sh_tasks x - 1\<rparr>) s))"
| conn_released: "c < length (ow_conns s) \<Longrightarrow> cn_close_requested (ow_conns s ! c)
    \<Longrightarrow> world_step s (s\<lparr>ow_conns := (ow_conns s)[c := (ow_conns s ! c)\<lparr>cn_released := True\<rparr>]\<rparr>)"
| link_expires: "i < length (ow_cores s) \<Longrightarrow> sh_dead (ow_cores s ! i) \<Longrightarrow> sh_tasks (ow_cores s ! i) = 0
    \<Longrightarrow> i \<notin> snd ` set (ow_by_identity s) \<Longrightarrow> world_step s (on_core i (sh_expired_update (\<lambda>_. True)) s)"

inductive world_reachable :: "ClientOptions \<Rightarrow> nat \<Rightarrow> OwnerWorld \<Rightarrow> bool" for opts m where
  initial: "world_reachable opts m (ow_init opts m)"
| step: "world_reachable opts m s \<Longrightarrow> world_step s t \<Longrightarrow> world_reachable opts m t"

end
