(* ===== verification/OwnerInvariant.thy ===== *)
theory OwnerInvariant
  imports SessionOwner "HOL-Library.Multiset"
begin

text \<open>
  The invariants of the session owner (\<open>SessionOwner\<close>) under every interleaving: all references are valid, every
  establishment in progress and every handshake has exactly one coroutine, the session quota is respected, the gauges are exact, and
  every open connection has somebody who will close it. The steps that retire links are captured by one relation, \<open>retire\<close>.
\<close>

section \<open>Coroutines and the entries they are responsible for\<close>

definition tracked :: "('p \<Rightarrow> 'x option) \<Rightarrow> 'p list \<Rightarrow> 'x list \<Rightarrow> bool" where
  "tracked f ps xs \<longleftrightarrow> distinct xs \<and> mset (List.map_filter f ps) = mset xs"

lemma map_filter_append: "List.map_filter f (xs @ ys) = List.map_filter f xs @ List.map_filter f ys"
  by (simp add: List.map_filter_def)

lemma map_filter_split:
  assumes "a < length ps"
  shows "List.map_filter f ps = List.map_filter f (take a ps) @ List.map_filter f [ps ! a] @ List.map_filter f (drop (Suc a) ps)"
    "List.map_filter f (ps[a := q]) = List.map_filter f (take a ps) @ List.map_filter f [q] @ List.map_filter f (drop (Suc a) ps)"
  using id_take_nth_drop [OF assms] upd_conv_take_nth_drop [OF assms, of q]
  by (metis append_Cons append_Nil map_filter_append)+

lemma tracked_mem:
  assumes "tracked f ps xs" "a < length ps" "f (ps ! a) = Some x"
  shows "x \<in> set xs"
proof -
  have "x \<in> set (List.map_filter f ps)"
    using map_filter_split(1) [OF assms(2), of f] assms(3) by (simp add: List.map_filter_simps)
  then show ?thesis using assms(1) unfolding tracked_def by (metis set_mset_mset)
qed

lemma tracked_same:
  assumes "tracked f ps xs" "a < length ps" "f q = f (ps ! a)"
  shows "tracked f (ps[a := q]) xs"
proof -
  have "List.map_filter f [q] = List.map_filter f [ps ! a]" using assms(3) by (simp add: List.map_filter_simps)
  then have "List.map_filter f (ps[a := q]) = List.map_filter f ps" using map_filter_split [OF assms(2), of f] by metis
  then show ?thesis using assms(1) by (simp add: tracked_def)
qed

lemma tracked_drop:
  assumes "tracked f ps xs" "a < length ps" "f (ps ! a) = Some x" "f q = None"
  shows "tracked f (ps[a := q]) (filter (\<lambda>y. y \<noteq> x) xs)"
proof -
  have "mset xs = add_mset x (mset (List.map_filter f (ps[a := q])))"
    using assms(1) map_filter_split [OF assms(2), of f] assms(3,4) by (simp add: tracked_def List.map_filter_simps)
  moreover have "distinct xs" using assms(1) by (simp add: tracked_def)
  moreover from this have "mset (filter (\<lambda>y. y \<noteq> x) xs) = mset xs - {#x#}"
    by (induction xs) (auto simp: filter_id_conv)
  ultimately show ?thesis by (simp add: tracked_def)
qed

lemma tracked_add:
  assumes "tracked f ps xs" "f p = Some x" "x \<notin> set xs"
  shows "tracked f (ps @ [p]) (xs @ [x])"
  using assms by (simp add: tracked_def map_filter_append List.map_filter_simps)

lemma tracked_skip:
  assumes "tracked f ps xs" "f p = None"
  shows "tracked f (ps @ [p]) xs"
  using assms by (simp add: tracked_def map_filter_append List.map_filter_simps)

section \<open>Retiring links\<close>

definition closing :: "'a SessionOwnerState_scheme \<Rightarrow> nat \<Rightarrow> bool" where
  "closing s c \<longleftrightarrow> cn_close_requested (ow_conns s ! c)"

definition held_links :: "'a SessionOwnerState_scheme \<Rightarrow> nat" where
  "held_links s = length (filter sh_quota_held (ow_cores s))"

definition released_ok :: "'a SessionOwnerState_scheme \<Rightarrow> bool" where
  "released_ok s \<longleftrightarrow> (\<forall>c < length (ow_conns s). cn_released (ow_conns s ! c) \<longrightarrow> closing s c)
     \<and> (\<forall>i < length (ow_cores s). sh_conn (ow_cores s ! i) < length (ow_conns s))"

definition identity :: "SessionHandle \<Rightarrow> bytes \<times> bool \<times> nat" where
  "identity x = (sh_peer_identity x, sh_outbound x, sh_conn x)"

definition same_owner :: "'a SessionOwnerState_scheme \<Rightarrow> 'a SessionOwnerState_scheme \<Rightarrow> bool" where
  "same_owner s t \<longleftrightarrow> ow_options t = ow_options s \<and> ow_closed t = ow_closed s \<and> ow_draining t = ow_draining s
     \<and> ow_close_reason t = ow_close_reason s \<and> ow_active_ops t = ow_active_ops s \<and> ow_establishing t = ow_establishing s
     \<and> ow_ests t = ow_ests s \<and> SessionOwnerState.more t = SessionOwnerState.more s
     \<and> map identity (ow_cores t) = map identity (ow_cores s) \<and> length (ow_conns t) = length (ow_conns s)"

definition same_ledger :: "'a SessionOwnerState_scheme \<Rightarrow> 'a SessionOwnerState_scheme \<Rightarrow> bool" where
  "same_ledger s t \<longleftrightarrow> ow_links t - of_nat (held_links t) = ow_links s - of_nat (held_links s)
     \<and> ow_sessions t - of_nat (held_links t) = ow_sessions s - of_nat (held_links s)
     \<and> (\<forall>i < length (ow_cores s). sh_quota_held (ow_cores t ! i) \<longrightarrow> sh_quota_held (ow_cores s ! i))
     \<and> (\<forall>i < length (ow_cores s). sh_quota_held (ow_cores s ! i) \<longrightarrow> sh_quota_held (ow_cores t ! i) \<or> i \<notin> snd ` set (ow_by_identity t))"

definition only_closes :: "'a SessionOwnerState_scheme \<Rightarrow> 'a SessionOwnerState_scheme \<Rightarrow> bool" where
  "only_closes s t \<longleftrightarrow> released_ok t
     \<and> (\<forall>c < length (ow_conns s). closing s c \<longrightarrow> closing t c)
     \<and> (\<forall>i < length (ow_cores s). sh_dead (ow_cores t ! i) \<longrightarrow> sh_dead (ow_cores s ! i) \<or> closing t (sh_conn (ow_cores s ! i)))
     \<and> set (ow_by_endpoint t) \<subseteq> set (ow_by_endpoint s)
     \<and> (\<exists>P. ow_by_identity t = filter P (ow_by_identity s)
           \<and> (\<forall>x \<in> set (ow_by_identity s). snd x < length (ow_cores s) \<longrightarrow> \<not> P x \<longrightarrow> closing t (sh_conn (ow_cores s ! snd x))))"

definition retire :: "'a SessionOwnerState_scheme \<Rightarrow> 'a SessionOwnerState_scheme \<Rightarrow> bool" where
  "retire s t \<longleftrightarrow> same_owner s t \<and> same_ledger s t \<and> only_closes s t"

lemma same_identity:
  assumes "map identity ys = map identity xs"
  shows "length ys = length xs" "i < length xs \<Longrightarrow> sh_conn (ys ! i) = sh_conn (xs ! i)"
    "i < length xs \<Longrightarrow> sh_peer_identity (ys ! i) = sh_peer_identity (xs ! i)"
    "i < length xs \<Longrightarrow> sh_outbound (ys ! i) = sh_outbound (xs ! i)"
proof -
  show len: "length ys = length xs" using assms by (metis length_map)
  have "identity (ys ! i) = identity (xs ! i)" if "i < length xs" for i
    using assms len that by (metis nth_map)
  then show "i < length xs \<Longrightarrow> sh_conn (ys ! i) = sh_conn (xs ! i)"
    "i < length xs \<Longrightarrow> sh_peer_identity (ys ! i) = sh_peer_identity (xs ! i)"
    "i < length xs \<Longrightarrow> sh_outbound (ys ! i) = sh_outbound (xs ! i)"
    by (simp_all add: identity_def)
qed

lemma retire_refl: "released_ok s \<Longrightarrow> retire s s"
proof -
  assume "released_ok s"
  then have "only_closes s s" unfolding only_closes_def by (auto intro: exI [of _ "\<lambda>_. True"])
  then show ?thesis by (simp add: retire_def same_owner_def same_ledger_def)
qed

lemma only_closes_trans:
  assumes "same_owner s t" "only_closes s t" "only_closes t u"
  shows "only_closes s u"
proof -
  note same = same_identity [of "ow_cores t" "ow_cores s"]
  obtain P where P: "ow_by_identity t = filter P (ow_by_identity s)"
      "\<forall>x \<in> set (ow_by_identity s). snd x < length (ow_cores s) \<longrightarrow> \<not> P x \<longrightarrow> closing t (sh_conn (ow_cores s ! snd x))"
    using assms(2) unfolding only_closes_def by blast
  obtain Q where Q: "ow_by_identity u = filter Q (ow_by_identity t)"
      "\<forall>x \<in> set (ow_by_identity t). snd x < length (ow_cores t) \<longrightarrow> \<not> Q x \<longrightarrow> closing u (sh_conn (ow_cores t ! snd x))"
    using assms(3) unfolding only_closes_def by blast
  have len: "length (ow_cores t) = length (ow_cores s)" "length (ow_conns t) = length (ow_conns s)"
    and conn: "i < length (ow_cores s) \<Longrightarrow> sh_conn (ow_cores t ! i) = sh_conn (ow_cores s ! i)" for i
    using assms(1) same by (auto simp: same_owner_def)
  have more: "closing t c \<Longrightarrow> c < length (ow_conns s) \<Longrightarrow> closing u c" for c
    using assms(3) len by (simp add: only_closes_def)
  have in_range: "sh_conn (ow_cores s ! i) < length (ow_conns s)" if "i < length (ow_cores s)" for i
    using assms(2) len conn that by (force simp: only_closes_def released_ok_def)
  have "ow_by_identity u = filter (\<lambda>x. P x \<and> Q x) (ow_by_identity s)" using P(1) Q(1) by simp
  moreover have "closing u (sh_conn (ow_cores s ! snd x))"
    if "x \<in> set (ow_by_identity s)" "snd x < length (ow_cores s)" "\<not> (P x \<and> Q x)" for x
  proof (cases "P x")
    case True
    then have "x \<in> set (ow_by_identity t)" "\<not> Q x" using P(1) that by simp_all
    then show ?thesis using Q(2) that(2) len(1) conn by metis
  next
    case False
    then show ?thesis using P(2) that more in_range by blast
  qed
  ultimately have shrunk: "\<exists>R. ow_by_identity u = filter R (ow_by_identity s)
      \<and> (\<forall>x \<in> set (ow_by_identity s). snd x < length (ow_cores s) \<longrightarrow> \<not> R x \<longrightarrow> closing u (sh_conn (ow_cores s ! snd x)))"
    by blast
  have "sh_dead (ow_cores s ! i) \<or> closing u (sh_conn (ow_cores s ! i))"
    if "i < length (ow_cores s)" "sh_dead (ow_cores u ! i)" for i
  proof -
    have "sh_dead (ow_cores t ! i) \<or> closing u (sh_conn (ow_cores s ! i))"
      using assms(3) that len(1) conn unfolding only_closes_def by metis
    then show ?thesis using assms(2) that(1) more in_range unfolding only_closes_def by blast
  qed
  moreover have "set (ow_by_endpoint u) \<subseteq> set (ow_by_endpoint s)" "released_ok u"
    using assms(2,3) unfolding only_closes_def by blast+
  moreover have "closing u c" if "c < length (ow_conns s)" "closing s c" for c
    using assms(2) that more unfolding only_closes_def by blast
  ultimately show ?thesis unfolding only_closes_def using shrunk by blast
qed

lemma retire_trans:
  assumes "retire s t" "retire t u"
  shows "retire s u"
proof -
  have len: "length (ow_cores t) = length (ow_cores s)"
    using assms(1) by (auto simp: retire_def same_owner_def dest: same_identity(1))
  have fewer: "set (ow_by_identity u) \<subseteq> set (ow_by_identity t)"
    using assms(2) unfolding retire_def only_closes_def by auto
  have st: "same_ledger s t" and tu: "same_ledger t u" using assms by (simp_all add: retire_def)
  have "same_ledger s u"
    unfolding same_ledger_def
  proof (intro conjI allI impI)
    show "ow_links u - of_nat (held_links u) = ow_links s - of_nat (held_links s)"
      "ow_sessions u - of_nat (held_links u) = ow_sessions s - of_nat (held_links s)"
      using st tu by (simp_all add: same_ledger_def)
    fix i assume i: "i < length (ow_cores s)"
    show "sh_quota_held (ow_cores s ! i)" if "sh_quota_held (ow_cores u ! i)"
      using st tu i len that unfolding same_ledger_def by metis
    show "sh_quota_held (ow_cores u ! i) \<or> i \<notin> snd ` set (ow_by_identity u)" if "sh_quota_held (ow_cores s ! i)"
    proof -
      have "i \<in> snd ` set (ow_by_identity u) \<Longrightarrow> i \<in> snd ` set (ow_by_identity t)" using fewer by blast
      then show ?thesis using st tu i len that unfolding same_ledger_def by metis
    qed
  qed
  moreover have "same_owner s u" using assms by (simp add: retire_def same_owner_def)
  ultimately show ?thesis using assms only_closes_trans unfolding retire_def by blast
qed

lemma closing_RequestConnClose:
  "closing (RequestConnClose c s) d \<longleftrightarrow> closing s d \<or> d = c \<and> c < length (ow_conns s)"
  by (cases "c < length (ow_conns s)"; cases "d = c") (auto simp: closing_def RequestConnClose_def list_update_beyond)

lemma RequestClose_conns [simp]:
  "length (ow_conns (RequestConnClose c s)) = length (ow_conns s)"
  "cn_released (ow_conns (RequestConnClose c s) ! d) = cn_released (ow_conns s ! d)"
  by (cases "c < length (ow_conns s)"; cases "d = c"; simp add: RequestConnClose_def list_update_beyond)+

lemma RequestClose_fields [simp]:
  "ow_options (RequestConnClose c s) = ow_options s" "ow_closed (RequestConnClose c s) = ow_closed s"
  "ow_draining (RequestConnClose c s) = ow_draining s" "ow_close_reason (RequestConnClose c s) = ow_close_reason s"
  "ow_active_ops (RequestConnClose c s) = ow_active_ops s" "ow_by_endpoint (RequestConnClose c s) = ow_by_endpoint s"
  "ow_by_identity (RequestConnClose c s) = ow_by_identity s" "ow_establishing (RequestConnClose c s) = ow_establishing s"
  "ow_sessions (RequestConnClose c s) = ow_sessions s" "ow_links (RequestConnClose c s) = ow_links s"
  "ow_cores (RequestConnClose c s) = ow_cores s" "ow_ests (RequestConnClose c s) = ow_ests s"
  "SessionOwnerState.more (RequestConnClose c s) = SessionOwnerState.more s"
  by (simp_all add: RequestConnClose_def)

lemma on_core_fields [simp]:
  "ow_options (on_core i f s) = ow_options s" "ow_closed (on_core i f s) = ow_closed s"
  "ow_draining (on_core i f s) = ow_draining s" "ow_close_reason (on_core i f s) = ow_close_reason s"
  "ow_active_ops (on_core i f s) = ow_active_ops s" "ow_by_endpoint (on_core i f s) = ow_by_endpoint s"
  "ow_by_identity (on_core i f s) = ow_by_identity s" "ow_establishing (on_core i f s) = ow_establishing s"
  "ow_sessions (on_core i f s) = ow_sessions s" "ow_links (on_core i f s) = ow_links s"
  "ow_conns (on_core i f s) = ow_conns s" "ow_ests (on_core i f s) = ow_ests s"
  "SessionOwnerState.more (on_core i f s) = SessionOwnerState.more s"
  "length (ow_cores (on_core i f s)) = length (ow_cores s)"
  by (simp_all add: on_core_def)

lemma on_core_nth:
  "j < length (ow_cores s) \<Longrightarrow> ow_cores (on_core i f s) ! j = (if j = i then f (ow_cores s ! j) else ow_cores s ! j)"
  by (simp add: on_core_def nth_list_update)

lemma on_core_identity:
  assumes "\<And>x. identity (f x) = identity x"
  shows "map identity (ow_cores (on_core i f s)) = map identity (ow_cores s)"
  by (rule nth_equalityI) (auto simp: on_core_nth assms)

lemma on_core_held:
  assumes "\<And>x. sh_quota_held (f x) = sh_quota_held x"
  shows "held_links (on_core i f s) = held_links s"
proof (cases "i < length (ow_cores s)")
  case True
  then show ?thesis using filter_update_length [OF True, of sh_quota_held "f (ow_cores s ! i)"] assms
    by (simp add: held_links_def on_core_def split: if_splits)
qed (simp add: held_links_def on_core_def list_update_beyond)

lemma held_RequestClose [simp]: "held_links (RequestConnClose c s) = held_links s"
  by (simp add: held_links_def)

lemma closing_on_core [simp]: "closing (on_core i f s) c = closing s c"
  by (simp add: closing_def)

lemma released_ok_RequestClose: "released_ok s \<Longrightarrow> released_ok (RequestConnClose c s)"
  by (simp add: released_ok_def closing_RequestConnClose)

lemma released_ok_on_core:
  assumes "released_ok s" "\<And>x. identity (f x) = identity x"
  shows "released_ok (on_core i f s)"
proof -
  have "sh_conn (ow_cores (on_core i f s) ! j) = sh_conn (ow_cores s ! j)" if "j < length (ow_cores s)" for j
    using same_identity(2) [OF on_core_identity [OF assms(2)]] that by blast
  then show ?thesis using assms(1) by (simp add: released_ok_def)
qed

lemma only_closes_kept:
  assumes "released_ok t" "\<And>c. c < length (ow_conns s) \<Longrightarrow> closing s c \<Longrightarrow> closing t c"
    and "\<And>i. i < length (ow_cores s) \<Longrightarrow> sh_dead (ow_cores t ! i) \<Longrightarrow> sh_dead (ow_cores s ! i) \<or> closing t (sh_conn (ow_cores s ! i))"
    and "ow_by_endpoint t = ow_by_endpoint s" "ow_by_identity t = ow_by_identity s"
  shows "only_closes s t"
  unfolding only_closes_def using assms by (auto intro: exI [of _ "\<lambda>_. True"])

lemma retire_RequestConnClose:
  assumes "released_ok s"
  shows "retire s (RequestConnClose c s)"
proof -
  have "only_closes s (RequestConnClose c s)"
    by (rule only_closes_kept) (simp_all add: released_ok_RequestClose assms closing_RequestConnClose)
  then show ?thesis by (simp add: retire_def same_owner_def same_ledger_def)
qed

lemma retire_on_core:
  assumes "released_ok s" "\<And>x. identity (f x) = identity x" "\<And>x. sh_quota_held (f x) = sh_quota_held x"
    and "\<And>x. sh_dead (f x) = sh_dead x"
  shows "retire s (on_core i f s)"
proof -
  have "only_closes s (on_core i f s)"
    by (rule only_closes_kept) (simp_all add: released_ok_on_core assms on_core_nth split: if_splits)
  then show ?thesis
    by (simp add: retire_def same_owner_def same_ledger_def on_core_identity assms on_core_held on_core_nth)
qed

lemma retire_dead:
  assumes "released_ok s" "i < length (ow_cores s)"
  shows "retire s (RequestConnClose (sh_conn (ow_cores s ! i)) (on_core i (sh_dead_update (\<lambda>_. True)) s))"
    (is "retire s ?t")
proof -
  have id: "identity (sh_dead_update (\<lambda>_. True) x) = identity x" for x by (simp add: identity_def)
  have conn: "sh_conn (ow_cores s ! i) < length (ow_conns s)" using assms by (simp add: released_ok_def)
  have "only_closes s ?t"
  proof (rule only_closes_kept)
    show "released_ok ?t" by (intro released_ok_RequestClose released_ok_on_core assms id)
  qed (auto simp: closing_RequestConnClose on_core_nth conn split: if_splits)
  then show ?thesis
    by (simp add: retire_def same_owner_def same_ledger_def on_core_identity id on_core_held on_core_nth)
qed

lemma retire_ReleasedLocked:
  assumes "released_ok s" "i < length (ow_cores s)"
  shows "retire s (snd (ReleasedLocked i s))"
proof (cases "cn_released (ow_conns s ! sh_conn (ow_cores s ! i)) \<and> sh_quota_held (ow_cores s ! i)")
  case False
  then show ?thesis using retire_refl [OF assms(1)] by (auto simp: ReleasedLocked_def)
next
  case True
  let ?u = "on_core i (sh_quota_held_update (\<lambda>_. False)) s"
  let ?t = "snd (ReleasedLocked i s)"
  have id: "identity (sh_quota_held_update (\<lambda>_. False) x) = identity x" for x by (simp add: identity_def)
  have fields: "ow_cores ?t = ow_cores ?u" "ow_conns ?t = ow_conns s" "ow_links ?t = ow_links s - 1" "ow_sessions ?t = ow_sessions s - 1"
    "ow_by_identity ?t = filter (\<lambda>x. snd x \<noteq> i) (ow_by_identity s)"
    using True by (simp_all add: ReleasedLocked_def)
  have conn: "sh_conn (ow_cores s ! i) < length (ow_conns s)" using assms by (simp add: released_ok_def)
  have closed: "closing ?t (sh_conn (ow_cores s ! i))"
    using assms(1) True conn fields(2) by (simp add: released_ok_def closing_def)
  have "held_links ?t + 1 = held_links s"
    using filter_update_length [OF assms(2), of sh_quota_held "(ow_cores s ! i)\<lparr>sh_quota_held := False\<rparr>"] True
    by (simp add: held_links_def fields(1) on_core_def)
  then have count: "(of_nat (held_links s) :: u64) = of_nat (held_links ?t) + 1" by (metis of_nat_Suc Suc_eq_plus1 add.commute)
  have ledger: "same_ledger s ?t"
    unfolding same_ledger_def using count fields(3-5) by (auto simp: fields(1) on_core_nth split: if_splits)
  have "released_ok ?t"
    using released_ok_on_core [OF assms(1), of "sh_quota_held_update (\<lambda>_. False)" i, OF id] fields(1,2)
    by (simp add: released_ok_def closing_def)
  moreover have "set (ow_by_endpoint ?t) \<subseteq> set (ow_by_endpoint s)" using True by (auto simp: ReleasedLocked_def)
  ultimately have "only_closes s ?t"
    unfolding only_closes_def using closed fields(1,2,5)
    by (auto simp: on_core_nth closing_def intro!: exI [of _ "\<lambda>x. snd x \<noteq> i"] split: if_splits)
  moreover have "same_owner s ?t"
    using True on_core_identity [of "sh_quota_held_update (\<lambda>_. False)" i s, OF id]
    by (simp add: same_owner_def ReleasedLocked_def)
  ultimately show ?thesis using ledger by (simp add: retire_def)
qed

lemma retire_ok: "retire s t \<Longrightarrow> released_ok t"
  by (simp add: retire_def only_closes_def)

lemma retire_lengths:
  assumes "retire s t"
  shows "length (ow_cores t) = length (ow_cores s)" "length (ow_conns t) = length (ow_conns s)" "ow_ests t = ow_ests s"
    "ow_establishing t = ow_establishing s" "ow_options t = ow_options s" "ow_closed t = ow_closed s"
  using assms same_identity(1) [of "ow_cores t" "ow_cores s"] by (auto simp: retire_def same_owner_def)

lemma retire_core:
  assumes "retire s t" "i < length (ow_cores s)"
  shows "sh_conn (ow_cores t ! i) = sh_conn (ow_cores s ! i)"
    "sh_peer_identity (ow_cores t ! i) = sh_peer_identity (ow_cores s ! i)"
    "sh_outbound (ow_cores t ! i) = sh_outbound (ow_cores s ! i)"
  using assms by (auto simp: retire_def same_owner_def dest: same_identity(2-4))

lemma retire_closing:
  assumes "retire s t" "c < length (ow_conns s)" "closing s c"
  shows "closing t c"
  using assms by (simp add: retire_def only_closes_def)

lemma retire_ExitDone:
  assumes "released_ok s" "i < length (ow_cores s)"
  shows "retire s (SessionExitDone i s)"
proof -
  let ?t = "on_core i (sh_responsibilities_update (\<lambda>_. sh_responsibilities (ow_cores s ! i) - 1)) s"
  have first: "retire s ?t" by (rule retire_on_core) (simp_all add: assms identity_def)
  moreover have "retire ?t (snd (ReleasedLocked i ?t))"
    by (rule retire_ReleasedLocked) (simp_all add: assms retire_ok [OF first])
  ultimately show ?thesis unfolding SessionExitDone_def Let_def using retire_trans by auto
qed

lemma retire_KillSession:
  assumes "released_ok s" "i < length (ow_cores s)"
  shows "retire s (KillSession i s)"
proof (cases "sh_dead (ow_cores s ! i)")
  case False
  let ?t = "RequestConnClose (sh_conn (ow_cores s ! i)) (on_core i (sh_dead_update (\<lambda>_. True)) s)"
  have "retire s ?t" by (rule retire_dead [OF assms])
  moreover from this have "retire ?t (SessionExitDone i ?t)"
    by (intro retire_ExitDone) (simp_all add: retire_ok assms)
  ultimately show ?thesis using False retire_trans unfolding KillSession_def by auto
qed (simp add: KillSession_def retire_refl assms)

lemma KillSession_closes:
  assumes "released_ok s" "i < length (ow_cores s)" "sh_dead (ow_cores s ! i) \<Longrightarrow> closing s (sh_conn (ow_cores s ! i))"
  shows "closing (KillSession i s) (sh_conn (ow_cores s ! i))"
proof (cases "sh_dead (ow_cores s ! i)")
  case False
  let ?t = "RequestConnClose (sh_conn (ow_cores s ! i)) (on_core i (sh_dead_update (\<lambda>_. True)) s)"
  have "sh_conn (ow_cores s ! i) < length (ow_conns s)" using assms(1,2) by (simp add: released_ok_def)
  moreover from this have "closing ?t (sh_conn (ow_cores s ! i))" by (simp add: closing_RequestConnClose)
  moreover have "retire ?t (SessionExitDone i ?t)"
    by (intro retire_ExitDone) (simp_all add: retire_ok [OF retire_dead [OF assms(1,2)]] assms)
  ultimately show ?thesis using False by (simp add: KillSession_def retire_closing)
qed (simp add: KillSession_def assms)

lemma retire_Submit:
  assumes "released_ok s"
  shows "retire s (snd (Submit registered i s))"
  using retire_on_core [of s "\<lambda>x. x\<lparr>sh_responsibilities := sh_responsibilities x + 1, sh_tasks := sh_tasks x + 1\<rparr>" i]
    retire_refl [OF assms] assms by (simp add: Submit_def identity_def)

lemma retire_start_session:
  assumes "released_ok s" "i < length (ow_cores s)"
  shows "retire s (snd (start_session reader writer i s))"
proof -
  let ?t = "on_core i (\<lambda>x. x\<lparr>sh_responsibilities := sh_responsibilities x + 1\<rparr>) s"
  let ?u = "snd (Submit reader i ?t)"
  let ?v = "snd (Submit writer i ?u)"
  have t: "retire s ?t" by (rule retire_on_core) (simp_all add: assms identity_def)
  have u: "retire s ?u" by (rule retire_trans [OF t retire_Submit [OF retire_ok [OF t]]])
  have v: "retire s ?v" by (rule retire_trans [OF u retire_Submit [OF retire_ok [OF u]]])
  have kill: "retire s (KillSession i w)" if "retire s w" for w
    by (rule retire_trans [OF that retire_KillSession [OF retire_ok [OF that]]]) (simp add: retire_lengths [OF that] assms)
  from kill [OF u] kill [OF v] show ?thesis using u v by (simp add: start_session_def split_def Let_def)
qed

lemma retire_sweep_release:
  assumes "released_ok s" "\<forall>i \<in> set is. i < length (ow_cores s)"
  shows "retire s (sweep_release is s)"
  using assms
proof (induction "is" arbitrary: s)
  case (Cons i "is")
  have first: "retire s (snd (ReleasedLocked i s))" using Cons.prems by (intro retire_ReleasedLocked) simp_all
  moreover have "retire (snd (ReleasedLocked i s)) (sweep_release is (snd (ReleasedLocked i s)))"
    using Cons.prems retire_lengths(1) [OF first] by (intro Cons.IH retire_ok [OF first]) simp
  ultimately show ?case using retire_trans by (auto simp: sweep_release_def)
qed (simp add: sweep_release_def retire_refl)

lemma map_endpoint_fields [simp]:
  "ow_options (map_endpoint key i s) = ow_options s" "ow_closed (map_endpoint key i s) = ow_closed s"
  "ow_draining (map_endpoint key i s) = ow_draining s" "ow_close_reason (map_endpoint key i s) = ow_close_reason s"
  "ow_active_ops (map_endpoint key i s) = ow_active_ops s" "ow_by_identity (map_endpoint key i s) = ow_by_identity s"
  "ow_establishing (map_endpoint key i s) = ow_establishing s" "ow_sessions (map_endpoint key i s) = ow_sessions s"
  "ow_links (map_endpoint key i s) = ow_links s" "ow_conns (map_endpoint key i s) = ow_conns s"
  "ow_cores (map_endpoint key i s) = ow_cores s" "ow_ests (map_endpoint key i s) = ow_ests s"
  "SessionOwnerState.more (map_endpoint key i s) = SessionOwnerState.more s"
  by (simp_all add: map_endpoint_def)

lemma install_take_fields [simp]:
  "ow_options (install_take i key ev s) = ow_options s" "ow_closed (install_take i key ev s) = ow_closed s"
  "ow_draining (install_take i key ev s) = ow_draining s" "ow_close_reason (install_take i key ev s) = ow_close_reason s"
  "ow_active_ops (install_take i key ev s) = ow_active_ops s" "ow_establishing (install_take i key ev s) = ow_establishing s"
  "ow_conns (install_take i key ev s) = ow_conns s" "ow_ests (install_take i key ev s) = ow_ests s"
  "SessionOwnerState.more (install_take i key ev s) = SessionOwnerState.more s" "ow_links (install_take i key ev s) = ow_links s + 1"
  "ow_sessions (install_take i key ev s) = ow_sessions s + 1" "ow_cores (install_take i key ev s) = ow_cores (on_core i (sh_quota_held_update (\<lambda>_. True)) s)"
  "ow_by_identity (install_take i key ev s) = AList.update (sh_peer_identity (ow_cores s ! i)) i (ow_by_identity s)"
  by (simp_all add: install_take_def on_core_def Let_def split: option.splits)

lemma on_est_fields [simp]:
  "ow_options (on_est e f s) = ow_options s" "ow_closed (on_est e f s) = ow_closed s"
  "ow_draining (on_est e f s) = ow_draining s" "ow_close_reason (on_est e f s) = ow_close_reason s"
  "ow_active_ops (on_est e f s) = ow_active_ops s" "ow_by_endpoint (on_est e f s) = ow_by_endpoint s"
  "ow_by_identity (on_est e f s) = ow_by_identity s" "ow_establishing (on_est e f s) = ow_establishing s"
  "ow_sessions (on_est e f s) = ow_sessions s" "ow_links (on_est e f s) = ow_links s"
  "ow_conns (on_est e f s) = ow_conns s" "ow_cores (on_est e f s) = ow_cores s"
  "SessionOwnerState.more (on_est e f s) = SessionOwnerState.more s"
  by (simp_all add: on_est_def)

section \<open>Well-formed states\<close>

fun result_ok :: "nat \<Rightarrow> nat result \<Rightarrow> bool" where
  "result_ok k (Inr i) \<longleftrightarrow> i < k"
| "result_ok k (Inl e) \<longleftrightarrow> True"

fun task_ok :: "nat \<Rightarrow> nat \<Rightarrow> nat \<Rightarrow> task_pc \<Rightarrow> bool" where
  "task_ok nc nk ne (DpDial key e) \<longleftrightarrow> e < ne"
| "task_ok nc nk ne (DpHandshake key e c) \<longleftrightarrow> e < ne \<and> c < nc"
| "task_ok nc nk ne (DpInstall key e i) \<longleftrightarrow> e < ne \<and> i < nk"
| "task_ok nc nk ne (DpEvict key e i w) \<longleftrightarrow> e < ne \<and> i < nk \<and> w < nk"
| "task_ok nc nk ne (DpStart key e i) \<longleftrightarrow> e < ne \<and> i < nk"
| "task_ok nc nk ne (DpClose key e i err) \<longleftrightarrow> e < ne \<and> i < nk"
| "task_ok nc nk ne (DpFinish key e made) \<longleftrightarrow> e < ne \<and> result_ok nk made"
| "task_ok nc nk ne (DpAbandon c made) \<longleftrightarrow> c < nc \<and> result_ok nk made"
| "task_ok nc nk ne (DpReturned made) \<longleftrightarrow> result_ok nk made"
| "task_ok nc nk ne (SvHandshake c) \<longleftrightarrow> c < nc"
| "task_ok nc nk ne (SvPublish c i) \<longleftrightarrow> c < nc \<and> i < nk"
| "task_ok nc nk ne (SvInstall c i) \<longleftrightarrow> c < nc \<and> i < nk"
| "task_ok nc nk ne (SvEvict c i w) \<longleftrightarrow> c < nc \<and> i < nk \<and> w < nk"
| "task_ok nc nk ne (SvStart c i) \<longleftrightarrow> c < nc \<and> i < nk"
| "task_ok nc nk ne (SvFailed c i) \<longleftrightarrow> c < nc \<and> i < nk"
| "task_ok nc nk ne (SvLive c w) \<longleftrightarrow> c < nc \<and> w < nk"
| "task_ok nc nk ne (SvFinish c) \<longleftrightarrow> c < nc"
| "task_ok nc nk ne (SvClose i) \<longleftrightarrow> i < nk"
| "task_ok nc nk ne SvDone \<longleftrightarrow> True"

definition est_ok :: "nat \<Rightarrow> nat \<Rightarrow> Establishing \<Rightarrow> bool" where
  "est_ok nc nk x \<longleftrightarrow> (\<forall>c. es_conn x = Some c \<longrightarrow> c < nc) \<and> (\<forall>i. es_session x = Some i \<longrightarrow> i < nk)"

definition sealer_ok :: "nat \<Rightarrow> nat \<Rightarrow> nat list \<times> nat list \<Rightarrow> bool" where
  "sealer_ok nc nk x \<longleftrightarrow> (\<forall>i \<in> set (fst x). i < nk) \<and> (\<forall>c \<in> set (snd x). c < nc)"

definition owner_wf :: "'a SessionOwnerState_scheme \<Rightarrow> bool" where
  "owner_wf s \<longleftrightarrow> released_ok s
     \<and> (\<forall>x \<in> set (ow_by_identity s). snd x < length (ow_cores s))
     \<and> (\<forall>x \<in> set (ow_by_endpoint s). snd x < length (ow_cores s))
     \<and> (\<forall>x \<in> set (ow_establishing s). snd x < length (ow_ests s))
     \<and> (\<forall>x \<in> set (ow_ests s). est_ok (length (ow_conns s)) (length (ow_cores s)) x)"

definition world_wf :: "OwnerWorld \<Rightarrow> bool" where
  "world_wf s \<longleftrightarrow> owner_wf s
     \<and> (\<forall>i \<in> set (sw_links s). i < length (ow_cores s)) \<and> (\<forall>c \<in> set (sw_handshakes s). c < length (ow_conns s))
     \<and> (\<forall>p \<in> set (sw_tasks s). task_ok (length (ow_conns s)) (length (ow_cores s)) (length (ow_ests s)) p)
     \<and> (\<forall>x \<in> set (sw_sealers s). sealer_ok (length (ow_conns s)) (length (ow_cores s)) x)"

lemma result_ok_mono: "result_ok k r \<Longrightarrow> k \<le> k' \<Longrightarrow> result_ok k' r"
  by (cases r) auto

lemma task_ok_mono:
  "task_ok nc nk ne p \<Longrightarrow> nc \<le> nc' \<Longrightarrow> nk \<le> nk' \<Longrightarrow> ne \<le> ne' \<Longrightarrow> task_ok nc' nk' ne' p"
  by (cases p) (auto intro: result_ok_mono)

lemma world_fields:
  assumes "SessionOwnerState.more t = SessionOwnerState.more (s :: OwnerWorld)"
  shows "sw_max_connections t = sw_max_connections s" "sw_stopping t = sw_stopping s" "sw_closed t = sw_closed s"
    "sw_close_reason t = sw_close_reason s" "sw_accept_loop_exited t = sw_accept_loop_exited s" "sw_accepted t = sw_accepted s"
    "sw_links t = sw_links s" "sw_handshakes t = sw_handshakes s" "sw_tasks t = sw_tasks s" "sw_sealers t = sw_sealers s"
    "sw_shutdowns t = sw_shutdowns s" "sw_operations t = sw_operations s"
  using assms by (cases s; cases t; simp)+

lemma world_wf_more:
  assumes "SessionOwnerState.more t = SessionOwnerState.more (s :: OwnerWorld)" "owner_wf t"
    and "length (ow_conns s) \<le> length (ow_conns t)" "length (ow_cores s) \<le> length (ow_cores t)" "length (ow_ests s) \<le> length (ow_ests t)"
    and "world_wf s"
  shows "world_wf t"
  unfolding world_wf_def world_fields [OF assms(1)]
proof (intro conjI ballI)
  show "owner_wf t" by fact
  show "i < length (ow_cores t)" if "i \<in> set (sw_links s)" for i
    using assms(4,6) that by (auto simp: world_wf_def)
  show "c < length (ow_conns t)" if "c \<in> set (sw_handshakes s)" for c
    using assms(3,6) that by (auto simp: world_wf_def)
  show "task_ok (length (ow_conns t)) (length (ow_cores t)) (length (ow_ests t)) p" if "p \<in> set (sw_tasks s)" for p
    using assms(6) that by (auto simp: world_wf_def intro: task_ok_mono [OF _ assms(3-5)])
  show "sealer_ok (length (ow_conns t)) (length (ow_cores t)) x" if "x \<in> set (sw_sealers s)" for x
    using assms(3,4,6) that by (fastforce simp: world_wf_def sealer_ok_def)
qed

lemma owner_wf_retire:
  assumes "owner_wf s" "retire s t"
  shows "owner_wf t"
proof -
  have "set (ow_by_identity t) \<subseteq> set (ow_by_identity s)" "set (ow_by_endpoint t) \<subseteq> set (ow_by_endpoint s)"
    using assms(2) by (auto simp: retire_def only_closes_def)
  then show ?thesis using assms(1) retire_lengths [OF assms(2)] retire_ok [OF assms(2)] by (auto simp: owner_wf_def)
qed

lemma world_wf_retire:
  assumes "world_wf s" "retire s t"
  shows "world_wf t"
proof (rule world_wf_more [where s = s])
  show "SessionOwnerState.more t = SessionOwnerState.more s" using assms(2) by (simp add: retire_def same_owner_def)
  show "owner_wf t" using assms(1) owner_wf_retire [OF _ assms(2)] by (simp add: world_wf_def)
qed (simp_all add: retire_lengths [OF assms(2)] assms(1))

lemma update_mem: "x \<in> set (AList.update k v al) \<Longrightarrow> x = (k, v) \<or> x \<in> set al"
  by (induction al) (auto split: if_splits)

lemma delete_mem: "x \<in> set (AList.delete k al) \<Longrightarrow> x \<in> set al"
  by (simp add: AList.delete_eq)

lemma owner_wf_cong:
  assumes "owner_wf s" "ow_conns t = ow_conns s" "map identity (ow_cores t) = map identity (ow_cores s)"
    and "set (ow_by_identity t) \<subseteq> set (ow_by_identity s) \<union> {x. snd x < length (ow_cores s)}"
    and "set (ow_by_endpoint t) \<subseteq> set (ow_by_endpoint s) \<union> {x. snd x < length (ow_cores s)}"
    and "set (ow_establishing t) \<subseteq> set (ow_establishing s) \<union> {x. snd x < length (ow_ests t)}" "length (ow_ests s) \<le> length (ow_ests t)"
    and "set (ow_ests t) \<subseteq> set (ow_ests s) \<union> {x. est_ok (length (ow_conns s)) (length (ow_cores s)) x}"
  shows "owner_wf t"
proof -
  have same: "length (ow_cores t) = length (ow_cores s)" "i < length (ow_cores s) \<Longrightarrow> sh_conn (ow_cores t ! i) = sh_conn (ow_cores s ! i)" for i
    using same_identity [OF assms(3)] by simp_all
  show ?thesis
    unfolding owner_wf_def
  proof (intro conjI ballI)
    show "released_ok t" using assms(1,2) same by (simp add: owner_wf_def released_ok_def closing_def)
    show "snd x < length (ow_cores t)" if "x \<in> set (ow_by_identity t)" for x
      using assms(1,4) same(1) that by (auto simp: owner_wf_def)
    show "snd x < length (ow_cores t)" if "x \<in> set (ow_by_endpoint t)" for x
      using assms(1,5) same(1) that by (auto simp: owner_wf_def)
    show "snd x < length (ow_ests t)" if "x \<in> set (ow_establishing t)" for x
      using assms(1,6,7) that by (fastforce simp: owner_wf_def)
    show "est_ok (length (ow_conns t)) (length (ow_cores t)) x" if "x \<in> set (ow_ests t)" for x
      using assms(1,2,8) same(1) that by (auto simp: owner_wf_def)
  qed
qed

lemma world_owner_fields [simp]:
  "owner_wf (sw_tasks_update f s) = owner_wf s" "owner_wf (sw_handshakes_update g s) = owner_wf s"
  "owner_wf (sw_links_update g s) = owner_wf s" "owner_wf (sw_sealers_update h s) = owner_wf s"
  "owner_wf (sw_accepted_update u s) = owner_wf s" "owner_wf (sw_stopping_update b s) = owner_wf s"
  "owner_wf (sw_closed_update b s) = owner_wf s" "owner_wf (sw_close_reason_update r s) = owner_wf s"
  "owner_wf (sw_accept_loop_exited_update b s) = owner_wf s" "owner_wf (sw_shutdowns_update d s) = owner_wf s"
  "owner_wf (sw_operations_update n s) = owner_wf s"
  by (simp_all add: owner_wf_def released_ok_def closing_def)

lemma world_wf_owner: "world_wf s \<Longrightarrow> owner_wf s"
  by (simp add: world_wf_def)

lemma world_wf_released: "world_wf s \<Longrightarrow> released_ok s"
  by (simp add: world_wf_def owner_wf_def)

lemma world_wf_at:
  assumes "world_wf s" "at_task a p s"
  shows "task_ok (length (ow_conns s)) (length (ow_cores s)) (length (ow_ests s)) p"
  using assms nth_mem [of a "sw_tasks s"] by (auto simp: world_wf_def at_task_def)

lemma world_wf_set_task:
  assumes "world_wf s" "task_ok (length (ow_conns s)) (length (ow_cores s)) (length (ow_ests s)) p"
  shows "world_wf (set_task a p s)"
  using assms set_update_subset_insert [of "sw_tasks s" a p] by (auto simp: world_wf_def set_task_def)

lemma world_wf_add_task:
  assumes "world_wf s" "task_ok (length (ow_conns s)) (length (ow_cores s)) (length (ow_ests s)) p"
  shows "world_wf (add_task p s)"
  using assms by (auto simp: world_wf_def add_task_def)

lemma world_wf_erase_handshake: "world_wf s \<Longrightarrow> world_wf (erase_handshake c s)"
  by (auto simp: world_wf_def erase_handshake_def)

lemma world_wf_add_conn:
  assumes "world_wf s"
  shows "world_wf (add_conn fresh_conn s)"
proof (rule world_wf_more [where s = s])
  show "owner_wf (add_conn fresh_conn s)"
    using world_wf_owner [OF assms]
    by (fastforce simp: owner_wf_def released_ok_def closing_def add_conn_def fresh_conn_def nth_append less_Suc_eq est_ok_def)
qed (use assms in \<open>simp_all add: add_conn_def\<close>)

lemma world_wf_make_session:
  assumes "world_wf s" "c < length (ow_conns s)"
  shows "world_wf (make_session peer outbound c s)"
proof (rule world_wf_more [where s = s])
  show "owner_wf (make_session peer outbound c s)"
    using world_wf_owner [OF assms(1)] assms(2)
    by (fastforce simp: owner_wf_def released_ok_def closing_def make_session_def nth_append less_Suc_eq est_ok_def)
qed (use assms in \<open>simp_all add: make_session_def\<close>)

lemma world_wf_change:
  assumes "world_wf s" "SessionOwnerState.more t = SessionOwnerState.more s" "owner_wf t"
    and "ow_conns t = ow_conns s" "length (ow_cores t) = length (ow_cores s)" "length (ow_ests s) \<le> length (ow_ests t)"
  shows "world_wf t"
  by (rule world_wf_more [OF assms(2,3) _ _ assms(6,1)]) (simp_all add: assms(4,5))

lemma world_wf_on_est:
  assumes "world_wf s" "est_ok (length (ow_conns s)) (length (ow_cores s)) (f (ow_ests s ! e))"
  shows "world_wf (on_est e f s)"
proof (rule world_wf_change [OF assms(1)])
  show "owner_wf (on_est e f s)"
    by (rule owner_wf_cong [OF world_wf_owner [OF assms(1)]])
      (use assms(2) set_update_subset_insert [of "ow_ests s" e "f (ow_ests s ! e)"] in \<open>auto simp: on_est_def\<close>)
qed (simp_all add: on_est_def)

lemma world_wf_map_endpoint:
  assumes "world_wf s" "i < length (ow_cores s)"
  shows "world_wf (map_endpoint key i s)"
proof (rule world_wf_change [OF assms(1)])
  show "owner_wf (map_endpoint key i s)"
    by (rule owner_wf_cong [OF world_wf_owner [OF assms(1)]])
      (use assms(2) in \<open>auto simp: map_endpoint_def dest: update_mem\<close>)
qed simp_all

lemma install_endpoints:
  "x \<in> set (ow_by_endpoint (install_take i key ev s)) \<Longrightarrow> snd x = i \<or> x \<in> set (ow_by_endpoint s)"
  by (auto simp: install_take_def map_endpoint_def Let_def split: option.splits if_splits dest!: update_mem)

lemma world_wf_install_take:
  assumes "world_wf s" "i < length (ow_cores s)"
  shows "world_wf (install_take i key ev s)"
proof (rule world_wf_change [OF assms(1)])
  have "map identity (ow_cores (on_core i (sh_quota_held_update (\<lambda>_. True)) s)) = map identity (ow_cores s)"
    by (rule on_core_identity) (simp add: identity_def)
  then show "owner_wf (install_take i key ev s)"
    by (intro owner_wf_cong [OF world_wf_owner [OF assms(1)]])
      (use assms(2) install_endpoints [of _ i key ev s] in \<open>auto dest: update_mem\<close>)
qed simp_all

lemma world_wf_est:
  assumes "world_wf s" "e < length (ow_ests s)"
  shows "est_ok (length (ow_conns s)) (length (ow_cores s)) (ow_ests s ! e)"
  using assms by (simp add: world_wf_def owner_wf_def)

lemma identity_valid:
  assumes "world_wf s" "map_of (ow_by_identity s) k = Some w"
  shows "w < length (ow_cores s)"
  using assms map_of_SomeD [OF assms(2)] by (fastforce simp: world_wf_def owner_wf_def)

lemma install_lengths [simp]:
  "length (ow_cores (snd (InstallSession i key est s))) = length (ow_cores s)"
  "length (ow_conns (snd (InstallSession i key est s))) = length (ow_conns s)"
  "length (ow_ests (snd (InstallSession i key est s))) = length (ow_ests s)"
  "ow_establishing (snd (InstallSession i key est s)) = ow_establishing s"
  "ow_options (snd (InstallSession i key est s)) = ow_options s"
  "ow_closed (snd (InstallSession i key est s)) = ow_closed s"
  "SessionOwnerState.more (snd (InstallSession i key est s)) = SessionOwnerState.more s"
  by (simp_all add: InstallSession_def Let_def on_est_def split: option.splits)

lemma world_wf_InstallSession:
  assumes "world_wf s" "i < length (ow_cores s)" "\<And>e. est = Some e \<Longrightarrow> e < length (ow_ests s)"
  shows "world_wf (snd (InstallSession i key est s))"
    "\<And>w. fst (InstallSession i key est s) = InLost w \<Longrightarrow> w < length (ow_cores s)"
    "\<And>w. fst (InstallSession i key est s) = InWon (Some w) \<Longrightarrow> w < length (ow_cores s)"
proof -
  have lost: "world_wf (map_endpoint key w (RequestConnClose (sh_conn (ow_cores s ! i)) (on_core i (sh_dead_update (\<lambda>_. True)) s)))"
    if "map_of (ow_by_identity s) k = Some w" for w k
    by (rule world_wf_map_endpoint [OF world_wf_retire [OF assms(1) retire_dead [OF world_wf_released [OF assms(1)] assms(2)]]])
      (simp add: identity_valid [OF assms(1) that])
  have "est_ok (length (ow_conns s)) (length (ow_cores s)) (es_reserved_update (\<lambda>_. False) (ow_ests s ! e))" if "est = Some e" for e
    using world_wf_est [OF assms(1) assms(3) [OF that]] by (simp add: est_ok_def)
  then have "world_wf (on_est e (es_reserved_update (\<lambda>_. False)) s)" if "est = Some e" for e
    using world_wf_on_est [OF assms(1)] that by blast
  then have "world_wf (install_take i key None (case est of None \<Rightarrow> s | Some e \<Rightarrow> on_est e (es_reserved_update (\<lambda>_. False)) s))"
    using assms(1,2) by (intro world_wf_install_take) (auto split: option.split)
  then show "world_wf (snd (InstallSession i key est s))"
    using lost world_wf_install_take [OF assms(1,2)] assms(1) by (auto simp: InstallSession_def Let_def split: option.split)
qed (use identity_valid [OF assms(1)] in \<open>auto simp: InstallSession_def Let_def split: option.splits if_splits\<close>)

lemma sweep_identities:
  assumes "world_wf s"
  shows "retire s (sweep_release (map snd (ow_by_identity s)) s)"
  using assms by (intro retire_sweep_release world_wf_released) (auto simp: world_wf_def owner_wf_def)

lemma world_wf_GetSession:
  assumes "world_wf s"
  shows "world_wf (snd (GetSession key s))"
    "\<And>e. fst (GetSession key s) = LkEstablish e \<Longrightarrow> e < length (ow_ests (snd (GetSession key s)))"
proof -
  let ?t = "sweep_release (map snd (ow_by_identity s)) s"
  let ?u = "?t\<lparr>ow_by_endpoint := AList.delete key (ow_by_endpoint ?t)\<rparr>"
  let ?v = "?u\<lparr>ow_ests := ow_ests ?u @ [new_establishing],
      ow_establishing := AList.update key (length (ow_ests ?u)) (ow_establishing ?u)\<rparr>"
  have t: "world_wf ?t" by (rule world_wf_retire [OF assms sweep_identities [OF assms]])
  have "owner_wf ?u"
    by (rule owner_wf_cong [OF world_wf_owner [OF t]]) (auto dest: delete_mem)
  then have u: "world_wf ?u" by (intro world_wf_change [OF t]) simp_all
  have "owner_wf ?v"
    by (rule owner_wf_cong [OF world_wf_owner [OF u]]) (auto simp: est_ok_def new_establishing_def dest: update_mem)
  then have "world_wf ?v" by (intro world_wf_change [OF u]) simp_all
  then show "world_wf (snd (GetSession key s))"
    using assms t u by (simp add: GetSession_def Let_def split: option.split)
qed (auto simp: GetSession_def Let_def split: option.splits if_splits)

lemma world_wf_attach_conn:
  assumes "world_wf s" "c < length (ow_conns s)" "e < length (ow_ests s)"
  shows "world_wf (snd (attach_conn e c s))"
proof -
  have "est_ok (length (ow_conns s)) (length (ow_cores s)) (es_conn_update (\<lambda>_. Some c) (ow_ests s ! e))"
    using world_wf_est [OF assms(1,3)] assms(2) by (simp add: est_ok_def)
  from world_wf_on_est [where f = "es_conn_update (\<lambda>_. Some c)", OF assms(1) this] show ?thesis
    using world_wf_retire [OF _ retire_RequestConnClose [OF world_wf_released]] by (simp add: attach_conn_def Let_def)
qed

lemma world_wf_finish_establishing:
  assumes "world_wf s" "e < length (ow_ests s)" "result_ok (length (ow_cores s)) made"
  shows "world_wf (snd (finish_establishing key e made s))"
    "\<And>c. fst (finish_establishing key e made s) = Some c \<Longrightarrow> c < length (ow_conns s)"
proof -
  let ?x = "ow_ests s ! e"
  let ?y = "(case made of Inr i \<Rightarrow> ?x\<lparr>es_session := Some i\<rparr> | Inl err \<Rightarrow> ?x\<lparr>es_error := err\<rparr>)\<lparr>es_conn := None, es_done := True\<rparr>"
  have x: "est_ok (length (ow_conns s)) (length (ow_cores s)) ?x"
    by (rule world_wf_est [OF assms(1,2)])
  then have "est_ok (length (ow_conns s)) (length (ow_cores s)) ?y"
    using assms(3) by (auto simp: est_ok_def split: sum.splits)
  then have first: "world_wf (on_est e (\<lambda>_. ?y) s)" by (intro world_wf_on_est [OF assms(1)])
  have "owner_wf (snd (finish_establishing key e made s))"
    by (rule owner_wf_cong [OF world_wf_owner [OF first]]) (auto simp: finish_establishing_def Let_def dest: delete_mem)
  then show "world_wf (snd (finish_establishing key e made s))"
    by (intro world_wf_change [OF first]) (simp_all add: finish_establishing_def Let_def)
  show "\<And>c. fst (finish_establishing key e made s) = Some c \<Longrightarrow> c < length (ow_conns s)"
    using x by (auto simp: finish_establishing_def Let_def est_ok_def split: sum.splits)
qed

lemma world_wf_retire_task:
  assumes "world_wf s" "retire s t" "task_ok (length (ow_conns s)) (length (ow_cores s)) (length (ow_ests s)) p"
  shows "world_wf (set_task a p t)"
  using world_wf_set_task [OF world_wf_retire [OF assms(1,2)], of p a] assms(3) retire_lengths(1-3) [OF assms(2)] by simp

lemma add_conn_lengths [simp]:
  "length (ow_conns (add_conn c s)) = Suc (length (ow_conns s))" "ow_cores (add_conn c s) = ow_cores s" "ow_ests (add_conn c s) = ow_ests s"
  "sw_stopping (add_conn c w) = sw_stopping w" "sw_links (add_conn c w) = sw_links w"
  "sw_handshakes (add_conn c w) = sw_handshakes w" "sw_max_connections (add_conn c w) = sw_max_connections w"
  by (simp_all add: add_conn_def)

lemma make_session_lengths [simp]:
  "length (ow_cores (make_session peer outbound c s)) = Suc (length (ow_cores s))"
  "ow_conns (make_session peer outbound c s) = ow_conns s" "ow_ests (make_session peer outbound c s) = ow_ests s"
  by (simp_all add: make_session_def)

lemma attach_conn_lengths [simp]:
  "length (ow_conns (snd (attach_conn e c s))) = length (ow_conns s)" "ow_cores (snd (attach_conn e c s)) = ow_cores s"
  "length (ow_ests (snd (attach_conn e c s))) = length (ow_ests s)"
  by (simp_all add: attach_conn_def Let_def on_est_def)

lemma finish_establishing_lengths [simp]:
  "ow_conns (snd (finish_establishing key e made s)) = ow_conns s" "ow_cores (snd (finish_establishing key e made s)) = ow_cores s"
  "length (ow_ests (snd (finish_establishing key e made s))) = length (ow_ests s)"
  by (simp_all add: finish_establishing_def Let_def on_est_def)

lemma world_wf_dialing:
  assumes "world_wf s"
  shows "world_wf (dial_lookup key s)"
    "at_task a (DpDial key e) s \<Longrightarrow> world_wf (dial_connected a key e s)"
    "at_task a (DpInstall key e i) s \<Longrightarrow> world_wf (dial_install a key e i s)"
    "at_task a (DpStart key e i) s \<Longrightarrow> world_wf (dial_start a key e i reader writer s)"
    "at_task a (DpFinish key e made) s \<Longrightarrow> world_wf (dial_finish a key e made s)"
proof -
  show "world_wf (dial_lookup key s)"
    using world_wf_GetSession [OF assms, of key]
    by (auto simp: dial_lookup_def split_def Let_def split: lookup.split intro: world_wf_add_task)
  show "world_wf (dial_connected a key e s)" if "at_task a (DpDial key e) s"
  proof -
    have "world_wf (snd (attach_conn e (length (ow_conns s)) (add_conn fresh_conn s)))"
      using world_wf_at [OF assms that] by (intro world_wf_attach_conn world_wf_add_conn [OF assms]) simp_all
    then show ?thesis using world_wf_at [OF assms that]
      by (auto simp: dial_connected_def split_def Let_def split: option.split intro!: world_wf_set_task)
  qed
  show "world_wf (dial_install a key e i s)" if "at_task a (DpInstall key e i) s"
  proof -
    have i: "i < length (ow_cores s)" "e < length (ow_ests s)" using world_wf_at [OF assms that] by simp_all
    have "world_wf (snd (InstallSession i key (Some e) s))" using i by (intro world_wf_InstallSession(1) assms) auto
    then show ?thesis using i world_wf_InstallSession(2,3) [OF assms i(1), of "Some e" key]
      by (auto simp: dial_install_def split_def Let_def split: install.split option.split intro!: world_wf_set_task)
  qed
  show "world_wf (dial_start a key e i reader writer s)" if "at_task a (DpStart key e i) s"
  proof -
    have i: "i < length (ow_cores s)" "e < length (ow_ests s)" using world_wf_at [OF assms that] by simp_all
    have "retire s (snd (start_session reader writer i s))" by (rule retire_start_session [OF world_wf_released [OF assms] i(1)])
    then show ?thesis using i by (auto simp: dial_start_def split_def Let_def intro!: world_wf_retire_task [OF assms])
  qed
  show "world_wf (dial_finish a key e made s)" if "at_task a (DpFinish key e made) s"
  proof -
    have e: "e < length (ow_ests s)" "result_ok (length (ow_cores s)) made" using world_wf_at [OF assms that] by simp_all
    show ?thesis using world_wf_finish_establishing [OF assms e, of key] e
      by (auto simp: dial_finish_def split_def Let_def split: option.split intro!: world_wf_set_task)
  qed
qed

lemma world_wf_accept_connection:
  assumes "world_wf s"
  shows "world_wf (accept_connection registered s)"
proof -
  let ?t = "add_conn fresh_conn s" and ?c = "length (ow_conns s)"
  let ?u = "?t\<lparr>sw_handshakes := sw_handshakes ?t @ [?c]\<rparr>"
  have t: "world_wf ?t" by (rule world_wf_add_conn [OF assms])
  then have u: "world_wf ?u" by (auto simp: world_wf_def)
  have "world_wf (RequestConnClose ?c ?t)" "world_wf (erase_handshake ?c (RequestConnClose ?c ?u))"
    by (intro world_wf_erase_handshake world_wf_retire [OF t retire_RequestConnClose] world_wf_retire [OF u retire_RequestConnClose]
        world_wf_released t u)+
  moreover have "world_wf (add_task (SvHandshake ?c) ?u)" by (rule world_wf_add_task [OF u]) simp
  ultimately show ?thesis by (simp add: accept_connection_def Let_def)
qed

lemma world_wf_serving:
  assumes "world_wf s"
  shows "at_task a (SvPublish c i) s \<Longrightarrow> world_wf (serve_publish a c i s)"
    "at_task a (SvInstall c i) s \<Longrightarrow> world_wf (serve_install a c i s)"
    "at_task a (SvStart c i) s \<Longrightarrow> world_wf (serve_start a c i reader writer s)"
    "at_task a (SvLive c w) s \<Longrightarrow> world_wf (serve_live a c w s)"
proof -
  show "world_wf (serve_publish a c i s)" if "at_task a (SvPublish c i) s"
    using world_wf_at [OF assms that] world_wf_erase_handshake [OF assms, of c] assms
    by (auto simp: serve_publish_def erase_handshake_def intro!: world_wf_set_task)
  show "world_wf (serve_install a c i s)" if "at_task a (SvInstall c i) s"
  proof -
    have i: "c < length (ow_conns s)" "i < length (ow_cores s)" using world_wf_at [OF assms that] by simp_all
    have "world_wf (snd (InstallSession i [] None s))" using i by (intro world_wf_InstallSession(1) assms) auto
    then show ?thesis using i world_wf_InstallSession(2,3) [OF assms i(2), of None "[]"]
      by (auto simp: serve_install_def split_def Let_def split: install.split option.split intro!: world_wf_set_task)
  qed
  show "world_wf (serve_start a c i reader writer s)" if "at_task a (SvStart c i) s"
  proof -
    have i: "c < length (ow_conns s)" "i < length (ow_cores s)" using world_wf_at [OF assms that] by simp_all
    have "retire s (snd (start_session reader writer i s))" by (rule retire_start_session [OF world_wf_released [OF assms] i(2)])
    then show ?thesis using i by (auto simp: serve_start_def split_def Let_def intro!: world_wf_retire_task [OF assms])
  qed
  show "world_wf (serve_live a c w s)" if "at_task a (SvLive c w) s"
  proof -
    have "w < length (ow_cores s)" using world_wf_at [OF assms that] by simp
    then have "world_wf (s\<lparr>sw_accepted := sw_accepted s + 1,
        sw_links := filter (\<lambda>x. \<not> sh_expired (ow_cores s ! x)) (sw_links s @ [w])\<rparr>)"
      using assms by (auto simp: world_wf_def)
    then show ?thesis unfolding serve_live_def by (intro world_wf_set_task world_wf_erase_handshake) simp_all
  qed
qed

lemma world_wf_sealing:
  assumes "world_wf s"
  shows "world_wf (ServerV2Seal reason s)" "world_wf (seal_owner reason s)"
    "b < length (sw_sealers s) \<Longrightarrow> world_wf (seal_next b s)"
proof -
  show "world_wf (ServerV2Seal reason s)"
    using assms by (auto simp: ServerV2Seal_def Let_def world_wf_def sealer_ok_def)
  let ?t = "snd (SessionOwnerSeal reason s)"
  have "owner_wf ?t"
    by (rule owner_wf_cong [OF world_wf_owner [OF assms]]) (simp_all add: SessionOwnerSeal_def Let_def)
  then have t: "world_wf ?t"
    by (intro world_wf_change [OF assms]) (simp_all add: SessionOwnerSeal_def Let_def)
  have conns: "c < length (ow_conns s)" if "x \<in> set (ow_establishing s)" "es_conn (ow_ests s ! snd x) = Some c" for x c
  proof -
    have "snd x < length (ow_ests s)" using assms that(1) by (auto simp: world_wf_def owner_wf_def)
    then show ?thesis using world_wf_est [OF assms] that(2) by (simp add: est_ok_def)
  qed
  have "sealer_ok (length (ow_conns ?t)) (length (ow_cores ?t)) (fst (SessionOwnerSeal reason s))"
    using assms conns
    by (auto simp: SessionOwnerSeal_def Let_def sealer_ok_def List.map_filter_def world_wf_def owner_wf_def)
  then show "world_wf (seal_owner reason s)"
    using t by (auto simp: seal_owner_def split_def Let_def world_wf_def)
  show "world_wf (seal_next b s)" if b: "b < length (sw_sealers s)"
  proof -
    have ok: "sealer_ok (length (ow_conns s)) (length (ow_cores s)) (sw_sealers s ! b)"
      using assms nth_mem [OF b] by (auto simp: world_wf_def)
    have shorter: "world_wf (w\<lparr>sw_sealers := (sw_sealers s)[b := x]\<rparr>)"
      if "retire s w" "sealer_ok (length (ow_conns s)) (length (ow_cores s)) x" for w x
      using world_wf_retire [OF assms that(1)] that(2) retire_lengths(1,2) [OF that(1)] assms
        set_update_subset_insert [of "sw_sealers s" b x] by (auto simp: world_wf_def)
    note kill = shorter [OF retire_KillSession [OF world_wf_released [OF assms]]]
    note close = shorter [OF retire_RequestConnClose [OF world_wf_released [OF assms]]]
    show ?thesis
      using ok kill close assms unfolding seal_next_def sealer_ok_def by (fastforce split: prod.split list.split)
  qed
qed

lemma owner_wf_fields:
  assumes "ow_by_endpoint t = ow_by_endpoint s" "ow_by_identity t = ow_by_identity s" "ow_establishing t = ow_establishing s"
    and "ow_conns t = ow_conns s" "ow_cores t = ow_cores s" "ow_ests t = ow_ests s"
  shows "owner_wf t = owner_wf s"
  by (simp add: owner_wf_def released_ok_def closing_def assms)

lemma world_wf_fields:
  assumes "world_wf s" "ow_by_endpoint t = ow_by_endpoint s" "ow_by_identity t = ow_by_identity s" "ow_establishing t = ow_establishing s"
    and "ow_conns t = ow_conns s" "ow_cores t = ow_cores s" "ow_ests t = ow_ests s" "sw_links t = sw_links s"
    and "sw_handshakes t = sw_handshakes s" "sw_tasks t = sw_tasks s" "sw_sealers t = sw_sealers s"
  shows "world_wf t"
  using assms(1) owner_wf_fields [OF assms(2-7)] by (simp add: world_wf_def assms(5-11))

lemma retire_conn_released:
  assumes "released_ok s" "c < length (ow_conns s)" "closing s c"
  shows "retire s (s\<lparr>ow_conns := (ow_conns s)[c := (ow_conns s ! c)\<lparr>cn_released := True\<rparr>]\<rparr>)" (is "retire s ?t")
proof -
  have same: "closing ?t d = closing s d" for d
    using assms(2) by (cases "d = c") (simp_all add: closing_def)
  have "released_ok ?t" using assms same by (auto simp: released_ok_def nth_list_update split: if_splits)
  then have "only_closes s ?t" by (intro only_closes_kept) (simp_all add: same)
  then show ?thesis by (simp add: retire_def same_owner_def same_ledger_def held_links_def)
qed

lemma retire_loop_returns:
  assumes "released_ok s" "i < length (ow_cores s)"
  shows "retire s (SessionExitDone i (on_core i (\<lambda>x. x\<lparr>sh_tasks := sh_tasks x - 1\<rparr>) s))"
proof -
  have first: "retire s (on_core i (\<lambda>x. x\<lparr>sh_tasks := sh_tasks x - 1\<rparr>) s)"
    by (rule retire_on_core) (simp_all add: assms identity_def)
  show ?thesis by (rule retire_trans [OF first retire_ExitDone [OF retire_ok [OF first]]]) (simp add: assms(2))
qed

lemma retire_expires: "released_ok s \<Longrightarrow> retire s (on_core i (sh_expired_update (\<lambda>_. True)) s)"
  by (rule retire_on_core) (simp_all add: identity_def)

lemma retire_wait_stopped:
  assumes "world_wf s"
  shows "retire s (sweep_release (filter (\<lambda>x. \<not> sh_expired (ow_cores s ! x)) (sw_links s)) s)"
  using assms by (intro retire_sweep_release world_wf_released) (auto simp: world_wf_def)

text \<open>Every state reached is well formed, whatever the interleaving.\<close>

lemma owner_step_wf:
  assumes "world_step s t" "world_wf s"
  shows "world_wf t"
  using assms
proof (cases rule: world_step.cases)
  case get_session
  then show ?thesis using world_wf_dialing(1) assms(2) by simp
next
  case (accept registered)
  then show ?thesis using world_wf_accept_connection assms(2) by simp
next
  case (accept_failed reason)
  then show ?thesis
    using world_wf_fields [OF world_wf_sealing(1) [OF assms(2), of reason], of t] by simp
next
  case (dial_agreed a key e c peer)
  then show ?thesis
    using world_wf_at [OF assms(2) dial_agreed(2)] world_wf_make_session [OF assms(2), of c]
    by (auto intro!: world_wf_set_task)
next
  case (serve_agreed a c peer)
  then show ?thesis
    using world_wf_at [OF assms(2) serve_agreed(2)] world_wf_make_session [OF assms(2), of c]
    by (auto intro!: world_wf_set_task)
next
  case (serve_finishes a c)
  then show ?thesis
    using world_wf_erase_handshake [OF assms(2), of c] by (auto intro!: world_wf_set_task)
next
  case (conn_released c)
  then show ?thesis
    using world_wf_retire [OF assms(2) retire_conn_released [OF world_wf_released [OF assms(2)]]] by (simp add: closing_def)
next
  case (loop_returns i)
  then show ?thesis using world_wf_retire [OF assms(2) retire_loop_returns [OF world_wf_released [OF assms(2)]]] by simp
qed (use assms(2) world_wf_released [OF assms(2)] in
    \<open>auto simp: NextEpoch_def begin_operation_def SessionOwnerBeginOperation_def end_operation_def SessionOwnerEndOperation_def
       shutdown_begin_def SessionOwnerShutdown_def shutdown_wake_def ServerV2StopAccepting_def Let_def
     intro: world_wf_dialing(2-) world_wf_serving world_wf_sealing(1,2) world_wf_sealing(3)
       world_wf_retire [OF assms(2) retire_KillSession]
       world_wf_retire [OF assms(2) retire_expires] world_wf_retire [OF assms(2) retire_wait_stopped]
       world_wf_fields [OF assms(2)]
     intro!: world_wf_retire_task [OF assms(2) retire_refl] world_wf_retire_task [OF assms(2) retire_RequestConnClose]
       world_wf_retire_task [OF assms(2) retire_KillSession]
     dest: world_wf_at [OF assms(2)]\<close>)

lemma owner_init_wf: "world_wf (ow_init opts m)"
  by (simp add: world_wf_def owner_wf_def released_ok_def ow_init_def)

lemma owner_reachable_wf: "world_reachable opts m s \<Longrightarrow> world_wf s"
  by (induction rule: world_reachable.induct) (simp_all add: owner_init_wf owner_step_wf)

end
