(* ===== verification/OwnerSteps.thy ===== *)
theory OwnerSteps
  imports OwnerInvariant
begin

text \<open>
  The invariants of the session owner along its steps. Establishments in progress are tracked by coroutines one to one and respect the
  session limit. The locale \<open>owner_invariant\<close> states what any further invariant has to keep, once for all steps; it is
  interpreted here on the dead links (their connections are being closed) and on the gauges (they count the links that hold quota).
\<close>

section \<open>Establishments in progress and the session limit\<close>

fun dial_est :: "task_pc \<Rightarrow> (bytes \<times> nat) option" where
  "dial_est (DpDial key e) = Some (key, e)"
| "dial_est (DpHandshake key e c) = Some (key, e)"
| "dial_est (DpInstall key e i) = Some (key, e)"
| "dial_est (DpEvict key e i w) = Some (key, e)"
| "dial_est (DpStart key e i) = Some (key, e)"
| "dial_est (DpClose key e i err) = Some (key, e)"
| "dial_est (DpFinish key e made) = Some (key, e)"
| "dial_est _ = None"

definition quota_ok :: "'a SessionOwnerState_scheme \<Rightarrow> bool" where
  "quota_ok s \<longleftrightarrow> distinct (map fst (ow_by_identity s)) \<and> distinct (map fst (ow_establishing s))
     \<and> distinct (map snd (ow_establishing s)) \<and> occupied s \<le> co_max_sessions (ow_options s)"

definition est_inv :: "OwnerWorld \<Rightarrow> bool" where
  "est_inv s \<longleftrightarrow> quota_ok s \<and> tracked dial_est (sw_tasks s) (ow_establishing s)
     \<and> (\<forall>a key e c. at_task a (DpHandshake key e c) s \<longrightarrow> es_conn (ow_ests s ! e) = Some c)"

lemma at_set_task:
  "at_task b p (set_task a q s) \<longleftrightarrow> (if b = a then a < length (sw_tasks s) \<and> p = q else at_task b p s)"
  by (auto simp: at_task_def set_task_def)

lemma at_add_task:
  "at_task b p (add_task q s) \<longleftrightarrow> at_task b p s \<or> b = length (sw_tasks s) \<and> p = q"
  by (auto simp: at_task_def add_task_def nth_append)

lemma at_task_cong: "sw_tasks t = sw_tasks s \<Longrightarrow> at_task a p t = at_task a p s"
  by (simp add: at_task_def)

lemma retire_world:
  assumes "retire s (t :: OwnerWorld)"
  shows "SessionOwnerState.more t = SessionOwnerState.more s"
  using assms by (simp add: retire_def same_owner_def)

lemmas retire_tasks = world_fields(9) [OF retire_world]

lemma quota_ok_fewer:
  assumes "quota_ok s" "ow_by_identity t = filter P (ow_by_identity s)" "ow_establishing t = ow_establishing s"
    and "\<And>x. x \<in> set (ow_establishing s) \<Longrightarrow> es_reserved (ow_ests t ! snd x) = es_reserved (ow_ests s ! snd x)"
    and "ow_options t = ow_options s"
  shows "quota_ok t"
proof -
  have "filter (\<lambda>x. es_reserved (ow_ests t ! snd x)) (ow_establishing s) = filter (\<lambda>x. es_reserved (ow_ests s ! snd x)) (ow_establishing s)"
    by (rule filter_cong) (simp_all add: assms(4))
  moreover have "length (filter P (ow_by_identity s)) \<le> length (ow_by_identity s)" by simp
  ultimately have "occupied t \<le> occupied s" by (simp add: occupied_def assms(2,3))
  then show ?thesis using assms(1) by (simp add: quota_ok_def assms(2,3,5) distinct_map_filter)
qed

lemma quota_ok_retire:
  assumes "quota_ok s" "retire s t"
  shows "quota_ok t"
proof -
  obtain P where "ow_by_identity t = filter P (ow_by_identity s)"
    using assms(2) by (auto simp: retire_def only_closes_def)
  then show ?thesis by (rule quota_ok_fewer [OF assms(1)]) (simp_all add: retire_lengths [OF assms(2)])
qed

lemma est_inv_retire:
  assumes "est_inv s" "retire s t"
  shows "est_inv t"
  using assms quota_ok_retire [OF _ assms(2)] retire_lengths(3,4) [OF assms(2)] retire_tasks [OF assms(2)]
  by (simp add: est_inv_def at_task_def)

lemma est_inv_move:
  assumes "est_inv s" "at_task a p s" "dial_est q = dial_est p" "\<And>key e c. q \<noteq> DpHandshake key e c"
  shows "est_inv (set_task a q s)"
proof -
  have "tracked dial_est ((sw_tasks s)[a := q]) (ow_establishing s)"
    by (rule tracked_same) (use assms(1,2,3) in \<open>auto simp: est_inv_def at_task_def\<close>)
  moreover have "quota_ok (set_task a q s)"
    using assms(1) by (simp add: est_inv_def quota_ok_def set_task_def occupied_def)
  ultimately show ?thesis
    using assms(1,4) unfolding est_inv_def at_set_task by (auto simp: set_task_def)
qed

lemma est_inv_fields:
  assumes "est_inv s" "ow_by_identity t = ow_by_identity s" "ow_establishing t = ow_establishing s" "ow_ests t = ow_ests s"
    and "ow_options t = ow_options s" "sw_tasks t = sw_tasks s"
  shows "est_inv t"
  using assms(1) unfolding est_inv_def quota_ok_def occupied_def at_task_def by (simp add: assms(2-6))

lemma est_inv_retire_move:
  assumes "est_inv s" "at_task a p s" "retire s w" "dial_est q = dial_est p" "\<And>key e c. q \<noteq> DpHandshake key e c"
  shows "est_inv (set_task a q w)"
  by (rule est_inv_move [OF est_inv_retire [OF assms(1,3)] _ assms(4,5)])
    (use assms(2) retire_tasks [OF assms(3)] in \<open>simp add: at_task_def\<close>)

lemma update_new: "map_of al k = None \<Longrightarrow> AList.update k v al = al @ [(k, v)]"
  by (induction al) (auto split: if_splits)

lemma update_keys:
  assumes "map_of al k = Some w"
  shows "map fst (AList.update k v al) = map fst al" "length (AList.update k v al) = length al"
  using assms by (induction al) (auto split: if_splits)

lemma est_inv_lookup:
  assumes "est_inv s" "world_wf s"
  shows "est_inv (dial_lookup key s)"
proof (cases "ow_closed s")
  case True
  then show ?thesis using assms(1) by (simp add: dial_lookup_def GetSession_def)
next
  case open_owner: False
  let ?t = "sweep_release (map snd (ow_by_identity s)) s"
  let ?u = "?t\<lparr>ow_by_endpoint := AList.delete key (ow_by_endpoint ?t)\<rparr>"
  have t: "est_inv ?t" by (rule est_inv_retire [OF assms(1) sweep_identities [OF assms(2)]])
  then have u: "est_inv ?u" by (rule est_inv_fields) simp_all
  have valid: "snd x < length (ow_ests ?t)" if "x \<in> set (ow_establishing ?t)" for x
    using world_wf_retire [OF assms(2) sweep_identities [OF assms(2)]] that by (auto simp: world_wf_def owner_wf_def)
  show ?thesis
  proof (cases "live_endpoint key ?t = None \<and> map_of (ow_establishing ?u) key = None \<and> occupied ?u < co_max_sessions (ow_options ?u)")
    case False
    then show ?thesis using t u open_owner
      by (auto simp: dial_lookup_def GetSession_def Let_def split_def split: option.splits if_splits)
  next
    case True
    let ?e = "length (ow_ests ?u)"
    let ?v = "?u\<lparr>ow_ests := ow_ests ?u @ [new_establishing], ow_establishing := ow_establishing ?u @ [(key, ?e)]\<rparr>"
    have result: "dial_lookup key s = add_task (DpDial key ?e) ?v"
      using True open_owner by (simp add: dial_lookup_def GetSession_def Let_def update_new)
    have fresh: "key \<notin> fst ` set (ow_establishing ?t)" "?e \<notin> snd ` set (ow_establishing ?t)"
      using True by (simp add: map_of_eq_None_iff) (use valid in fastforce)
    have same: "filter (\<lambda>x. es_reserved (ow_ests ?v ! snd x)) (ow_establishing ?t) = filter (\<lambda>x. es_reserved (ow_ests ?u ! snd x)) (ow_establishing ?t)"
      by (rule filter_cong) (auto simp: nth_append dest: valid)
    then have "occupied ?v = occupied ?u + 1" by (simp add: occupied_def new_establishing_def)
    then have "quota_ok (add_task (DpDial key ?e) ?v)"
      using u True fresh by (simp add: est_inv_def quota_ok_def add_task_def occupied_def)
    moreover have "tracked dial_est (sw_tasks ?u @ [DpDial key ?e]) (ow_establishing ?u @ [(key, ?e)])"
      by (rule tracked_add) (use u fresh in \<open>auto simp: est_inv_def image_iff\<close>)
    moreover have "es_conn (ow_ests ?v ! e) = Some c" if "at_task a (DpHandshake k e c) ?u" for a k e c
    proof -
      have "(k, e) \<in> set (ow_establishing ?t)"
        by (rule tracked_mem [of dial_est "sw_tasks ?u"]) (use u that in \<open>auto simp: est_inv_def at_task_def\<close>)
      then show ?thesis using u that valid by (fastforce simp: est_inv_def nth_append at_task_def)
    qed
    ultimately show ?thesis unfolding result est_inv_def at_add_task by (simp add: add_task_def at_task_def)
  qed
qed

lemma est_inv_entry:
  assumes "est_inv s" "at_task a p s" "dial_est p = Some (key, e)"
  shows "(key, e) \<in> set (ow_establishing s)"
  by (rule tracked_mem [of dial_est "sw_tasks s" _ a]) (use assms in \<open>auto simp: est_inv_def at_task_def\<close>)

lemma snd_inj:
  assumes "distinct (map snd xs)" "(k, e) \<in> set xs" "(k', e) \<in> set xs"
  shows "k' = k"
  using assms inj_onD [of snd "set xs" "(k', e)" "(k, e)"] by (simp add: distinct_map)

lemma est_inv_other:
  assumes "est_inv s" "at_task a p s" "at_task b q s" "dial_est p = Some (key, e)" "dial_est q = Some (k, e)"
  shows "b = a"
proof (rule ccontr)
  assume "b \<noteq> a"
  have k: "k = key"
    using snd_inj [of "ow_establishing s" key e k] assms(1) est_inv_entry [OF assms(1,2,4)] est_inv_entry [OF assms(1,3,5)]
    by (simp add: est_inv_def quota_ok_def)
  have "tracked dial_est ((sw_tasks s)[a := SvDone]) (filter (\<lambda>y. y \<noteq> (key, e)) (ow_establishing s))"
    by (rule tracked_drop) (use assms in \<open>auto simp: est_inv_def at_task_def\<close>)
  from tracked_mem [OF this, of b "(key, e)"] show False
    using assms(3,5) k \<open>b \<noteq> a\<close> by (simp add: at_task_def)
qed

lemma est_inv_on_est:
  assumes "est_inv s" "at_task a p s" "dial_est p = Some (key, e)" "dial_est q = Some (key, e)" "e < length (ow_ests s)"
    and "\<And>k c. q = DpHandshake k e c \<Longrightarrow> es_conn (f (ow_ests s ! e)) = Some c" "\<And>k c e'. q = DpHandshake k e' c \<Longrightarrow> e' = e"
    and "ow_establishing t = ow_establishing s" "ow_ests t = (ow_ests s)[e := f (ow_ests s ! e)]" "sw_tasks t = sw_tasks s" "quota_ok t"
  shows "est_inv (set_task a q t)"
proof -
  have "tracked dial_est ((sw_tasks s)[a := q]) (ow_establishing s)"
    by (rule tracked_same) (use assms(1-4) in \<open>auto simp: est_inv_def at_task_def\<close>)
  moreover have "quota_ok (set_task a q t)" using assms(11) by (simp add: quota_ok_def set_task_def occupied_def)
  moreover have "es_conn (ow_ests t ! e') = Some c" if at: "at_task b (DpHandshake k e' c) (set_task a q t)" for b k e' c
  proof (cases "b = a")
    case True
    then have "q = DpHandshake k e' c" using at by (simp add: at_set_task)
    then show ?thesis using assms(5,6,9) assms(7) [of k e' c] by simp
  next
    case False
    then have b: "at_task b (DpHandshake k e' c) s"
      using at at_task_cong [OF assms(10)] by (simp add: at_set_task)
    then have "e' \<noteq> e" using est_inv_other [OF assms(1,2) b assms(3)] False by auto
    then show ?thesis using assms(1,9) b by (simp add: est_inv_def)
  qed
  moreover have "ow_ests (set_task a q t) = ow_ests t" "ow_establishing (set_task a q t) = ow_establishing s"
      "sw_tasks (set_task a q t) = (sw_tasks s)[a := q]"
    using assms(8,10) by (simp_all add: set_task_def)
  ultimately show ?thesis unfolding est_inv_def by metis
qed

lemma attach_conn_more [simp]: "SessionOwnerState.more (snd (attach_conn e c s)) = SessionOwnerState.more s"
  by (simp add: attach_conn_def Let_def)

lemma est_inv_connected:
  assumes "est_inv s" "world_wf s" "at_task a (DpDial key e) s"
  shows "est_inv (dial_connected a key e s)"
proof -
  let ?c = "length (ow_conns s)"
  let ?t = "snd (attach_conn e ?c (add_conn fresh_conn s))"
  have ests: "ow_ests ?t = (ow_ests s)[e := es_conn_update (\<lambda>_. Some ?c) (ow_ests s ! e)]" "ow_establishing ?t = ow_establishing s"
    "ow_by_identity ?t = ow_by_identity s" "ow_options ?t = ow_options s"
    by (simp_all add: attach_conn_def Let_def on_est_def add_conn_def)
  have tasks: "sw_tasks ?t = sw_tasks s"
    using world_fields(9) [of ?t "add_conn fresh_conn s"] by (simp add: add_conn_def)
  have reserved: "es_reserved (ow_ests ?t ! j) = es_reserved (ow_ests s ! j)" for j
    by (cases "j = e"; cases "e < length (ow_ests s)") (simp_all add: ests list_update_beyond)
  have quota: "quota_ok ?t"
    by (rule quota_ok_fewer [where s = s and P = "\<lambda>_. True"]) (use assms(1) in \<open>simp_all add: ests(2-4) reserved est_inv_def\<close>)
  have e: "e < length (ow_ests s)" using world_wf_at [OF assms(2,3)] by simp
  note moved = est_inv_on_est [where f = "es_conn_update (\<lambda>_. Some ?c)" and key = key, OF assms(1,3) _ _ e _ _ ests(2,1) tasks quota]
  have "est_inv (set_task a (DpHandshake key e ?c) ?t)" by (rule moved) simp_all
  moreover have "est_inv (set_task a (DpFinish key e (Inl err)) ?t)" for err by (rule moved) simp_all
  ultimately show ?thesis by (auto simp: dial_connected_def split_def Let_def split: option.split)
qed

lemma reserved_drop:
  assumes "distinct (map snd xs)" "(k, e) \<in> set xs" "e < length es" "\<not> es_reserved y"
  shows "length (filter (\<lambda>x. es_reserved (es[e := y] ! snd x)) xs) + (if es_reserved (es ! e) then 1 else 0)
    = length (filter (\<lambda>x. es_reserved (es ! snd x)) xs)"
  using assms
proof (induction xs)
  case (Cons x xs)
  show ?case
  proof (cases "x = (k, e)")
    case True
    then have "e \<noteq> snd z" if "z \<in> set xs" for z using Cons.prems(1) that by force
    then have "filter (\<lambda>z. es_reserved (es[e := y] ! snd z)) xs = filter (\<lambda>z. es_reserved (es ! snd z)) xs"
      by (intro filter_cong) simp_all
    then show ?thesis using True Cons.prems(3,4) by simp
  next
    case False
    then have "snd x \<noteq> e" using Cons.prems(1,2) snd_inj [of "x # xs" k e "fst x"] by (cases x) auto
    then show ?thesis using Cons False by auto
  qed
qed simp

lemma quota_ok_install:
  assumes "quota_ok s" "i < length (ow_cores s)" "\<And>e. est = Some e \<Longrightarrow> \<exists>k. (k, e) \<in> set (ow_establishing s) \<and> e < length (ow_ests s)"
  shows "quota_ok (snd (InstallSession i key est s))"
proof -
  let ?peer = "sh_peer_identity (ow_cores s ! i)" and ?max = "co_max_sessions (ow_options s)"
  let ?t = "case est of None \<Rightarrow> s | Some e \<Rightarrow> on_est e (es_reserved_update (\<lambda>_. False)) s"
  have new: "quota_ok (install_take i key None ?t)" if "map_of (ow_by_identity s) ?peer = None" "occupied_by_others est s < ?max"
  proof -
    have by_identity: "ow_by_identity (install_take i key None ?t) = ow_by_identity s @ [(?peer, i)]"
      by (simp add: update_new that(1) split: option.split)
    have same: "ow_establishing (install_take i key None ?t) = ow_establishing s" "ow_options (install_take i key None ?t) = ow_options s"
      "ow_ests (install_take i key None ?t) = ow_ests ?t"
      by (simp_all split: option.split)
    have "occupied (install_take i key None ?t) \<le> ?max"
    proof (cases est)
      case None
      then show ?thesis using that by (simp add: occupied_def occupied_by_others_def update_new)
    next
      case (Some e)
      obtain k where k: "(k, e) \<in> set (ow_establishing s)" "e < length (ow_ests s)" using assms(3) [OF Some] by blast
      have "length (filter (\<lambda>x. es_reserved (ow_ests ?t ! snd x)) (ow_establishing s)) + (if es_reserved (ow_ests s ! e) then 1 else 0)
          = length (filter (\<lambda>x. es_reserved (ow_ests s ! snd x)) (ow_establishing s))"
        using reserved_drop [OF _ k, of "es_reserved_update (\<lambda>_. False) (ow_ests s ! e)"] assms(1) Some
        by (simp add: quota_ok_def on_est_def)
      then show ?thesis using that Some
        by (simp add: occupied_def occupied_by_others_def update_new split: if_splits)
    qed
    then show ?thesis
      using assms(1) that(1) unfolding quota_ok_def by_identity same by (auto simp: map_of_eq_None_iff)
  qed
  have replaced: "quota_ok (install_take i key ev s)" if "map_of (ow_by_identity s) ?peer = Some w" for ev w
    using assms(1) update_keys [OF that, of i] by (simp add: quota_ok_def occupied_def)
  have lost: "quota_ok (map_endpoint key w (RequestConnClose c (on_core i f s)))" for w c f
    using assms(1) by (simp add: quota_ok_def occupied_def)
  show ?thesis using new replaced lost assms(1)
    by (auto simp: InstallSession_def Let_def not_le split: option.split)
qed

lemma install_es_conn [simp]:
  "es_conn (ow_ests (snd (InstallSession i key est s)) ! j) = es_conn (ow_ests s ! j)"
proof -
  have "es_conn (ow_ests (on_est e (es_reserved_update (\<lambda>_. False)) s) ! j) = es_conn (ow_ests s ! j)" for e
    by (cases "j = e"; cases "e < length (ow_ests s)") (simp_all add: on_est_def list_update_beyond)
  then show ?thesis by (simp add: InstallSession_def Let_def split: option.split)
qed

lemma est_inv_installed:
  assumes "est_inv s" "i < length (ow_cores s)" "\<And>e. est = Some e \<Longrightarrow> \<exists>k. (k, e) \<in> set (ow_establishing s) \<and> e < length (ow_ests s)"
  shows "est_inv (snd (InstallSession i key est s))"
proof -
  have "quota_ok (snd (InstallSession i key est s))"
    by (rule quota_ok_install [OF _ assms(2,3)]) (use assms(1) in \<open>simp_all add: est_inv_def\<close>)
  moreover have "sw_tasks (snd (InstallSession i key est s)) = sw_tasks s" by (rule world_fields(9)) simp
  ultimately show ?thesis using assms(1) by (simp add: est_inv_def at_task_def)
qed

lemma est_inv_dial_install:
  assumes "est_inv s" "world_wf s" "at_task a (DpInstall key e i) s"
  shows "est_inv (dial_install a key e i s)"
proof -
  let ?t = "snd (InstallSession i key (Some e) s)"
  have "i < length (ow_cores s)" "e < length (ow_ests s)" using world_wf_at [OF assms(2,3)] by simp_all
  then have "est_inv ?t" using est_inv_entry [OF assms(1,3)] by (intro est_inv_installed [OF assms(1)]) auto
  moreover have "at_task a (DpInstall key e i) ?t"
    using assms(3) world_fields(9) [of ?t s] by (simp add: at_task_def)
  ultimately show ?thesis
    by (auto simp: dial_install_def split_def Let_def split: install.split option.split intro: est_inv_move)
qed

lemma est_inv_serve_install:
  assumes "est_inv s" "world_wf s" "at_task a (SvInstall c i) s"
  shows "est_inv (serve_install a c i s)"
proof -
  let ?t = "snd (InstallSession i [] None s)"
  have "i < length (ow_cores s)" using world_wf_at [OF assms(2,3)] by simp
  then have "est_inv ?t" by (intro est_inv_installed [OF assms(1)]) auto
  moreover have "at_task a (SvInstall c i) ?t"
    using assms(3) world_fields(9) [of ?t s] by (simp add: at_task_def)
  ultimately show ?thesis
    by (auto simp: serve_install_def split_def Let_def split: install.split option.split intro: est_inv_move)
qed

lemma delete_entry:
  assumes "distinct (map fst xs)" "(k, e) \<in> set xs"
  shows "AList.delete k xs = filter (\<lambda>x. x \<noteq> (k, e)) xs"
proof -
  have "fst x \<noteq> k \<longleftrightarrow> x \<noteq> (k, e)" if "x \<in> set xs" for x
    using assms that inj_onD [of fst "set xs" x "(k, e)"] by (auto simp: distinct_map)
  then show ?thesis unfolding AList.delete_eq by (intro filter_cong) (auto simp: split_def)
qed

lemma est_inv_finish:
  assumes "est_inv s" "world_wf s" "at_task a (DpFinish key e made) s"
  shows "est_inv (dial_finish a key e made s)"
proof -
  let ?t = "snd (finish_establishing key e made s)"
  have e: "e < length (ow_ests s)" using world_wf_at [OF assms(2,3)] by simp
  have entry: "(key, e) \<in> set (ow_establishing s)" using est_inv_entry [OF assms(1,3)] by simp
  have keys: "distinct (map fst (ow_establishing s))" "distinct (map snd (ow_establishing s))"
    using assms(1) by (simp_all add: est_inv_def quota_ok_def)
  have table: "ow_establishing ?t = filter (\<lambda>x. x \<noteq> (key, e)) (ow_establishing s)"
    using entry keys(1) delete_entry [OF keys(1) entry] by (simp add: finish_establishing_def Let_def)
  have other: "ow_ests ?t ! j = ow_ests s ! j" if "j \<noteq> e" for j
    using that by (simp add: finish_establishing_def Let_def on_est_def)
  have same: "ow_by_identity ?t = ow_by_identity s" "ow_options ?t = ow_options s" "SessionOwnerState.more ?t = SessionOwnerState.more s"
    by (simp_all add: finish_establishing_def Let_def)
  note tasks = world_fields(9) [OF same(3)]
  have "filter (\<lambda>x. es_reserved (ow_ests ?t ! snd x)) (ow_establishing ?t) = filter (\<lambda>x. es_reserved (ow_ests s ! snd x)) (ow_establishing ?t)"
    using snd_inj [OF keys(2) entry] by (intro filter_cong) (auto simp: table intro!: arg_cong [of _ _ es_reserved] other)
  then have "length (filter (\<lambda>x. es_reserved (ow_ests ?t ! snd x)) (ow_establishing ?t)) \<le> length (filter (\<lambda>x. es_reserved (ow_ests s ! snd x)) (ow_establishing s))"
    using length_filter_le [of "\<lambda>x. x \<noteq> (key, e)" "filter (\<lambda>x. es_reserved (ow_ests s ! snd x)) (ow_establishing s)"]
    by (simp add: table conj_commute)
  then have "occupied ?t \<le> occupied s" by (simp add: occupied_def same)
  then have quota: "quota_ok ?t"
    using assms(1) by (simp add: est_inv_def quota_ok_def same table distinct_map_filter)
  have result: "est_inv (set_task a q ?t)" if q: "dial_est q = None" for q
  proof -
    have "tracked dial_est ((sw_tasks s)[a := q]) (ow_establishing ?t)"
      unfolding table by (rule tracked_drop) (use assms(1,3) q in \<open>auto simp: est_inv_def at_task_def\<close>)
    moreover have "es_conn (ow_ests ?t ! e') = Some c" if at: "at_task b (DpHandshake k e' c) (set_task a q ?t)" for b k e' c
    proof -
      have b: "at_task b (DpHandshake k e' c) s" "b \<noteq> a"
        using at q by (auto simp: at_set_task at_task_cong [OF tasks] split: if_splits)
      then have "e' \<noteq> e" using est_inv_other [OF assms(1,3) b(1), of key e k] by auto
      then show ?thesis using assms(1) b(1) other by (simp add: est_inv_def)
    qed
    ultimately show ?thesis
      using quota unfolding est_inv_def by (simp add: set_task_def quota_ok_def occupied_def tasks)
  qed
  show ?thesis by (auto simp: dial_finish_def split_def Let_def split: option.split intro: result)
qed

lemma est_inv_add_task:
  assumes "est_inv s" "dial_est p = None"
  shows "est_inv (add_task p s)"
proof -
  have "tracked dial_est (sw_tasks s @ [p]) (ow_establishing s)"
    by (rule tracked_skip) (use assms in \<open>simp_all add: est_inv_def\<close>)
  moreover have "quota_ok (add_task p s)" using assms(1) by (simp add: est_inv_def quota_ok_def add_task_def occupied_def)
  ultimately show ?thesis using assms unfolding est_inv_def at_add_task by (auto simp: add_task_def)
qed

lemma est_inv_sealers [simp]: "est_inv (w\<lparr>sw_sealers := xs\<rparr>) = est_inv w"
  by (simp add: est_inv_def quota_ok_def occupied_def at_task_def)

lemma seal_next_cases:
  assumes "world_wf s" "b < length (sw_sealers s)"
  obtains (idle) "seal_next b s = s"
  | (kill) i "is" cs where "sw_sealers s ! b = (i # is, cs)" "i < length (ow_cores s)"
      "seal_next b s = (KillSession i s)\<lparr>sw_sealers := (sw_sealers s)[b := (is, cs)]\<rparr>"
  | (close) c cs where "sw_sealers s ! b = ([], c # cs)"
      "seal_next b s = (RequestConnClose c s)\<lparr>sw_sealers := (sw_sealers s)[b := ([], cs)]\<rparr>"
proof -
  have ok: "sealer_ok (length (ow_conns s)) (length (ow_cores s)) (sw_sealers s ! b)"
    using assms(1) nth_mem [OF assms(2)] by (auto simp: world_wf_def)
  obtain ks cs where eq: "sw_sealers s ! b = (ks, cs)" by (cases "sw_sealers s ! b")
  show ?thesis
  proof (cases ks)
    case (Cons i "is")
    then show ?thesis using kill [of i "is" cs] ok eq by (simp add: seal_next_def sealer_ok_def)
  next
    case Nil
    then show ?thesis using idle close eq by (cases cs) (simp_all add: seal_next_def)
  qed
qed

lemma retire_evicts:
  assumes "world_wf s"
  shows "at_task a (DpEvict key e i w) s \<Longrightarrow> retire s (KillSession w s)" "at_task a (SvEvict c i w) s \<Longrightarrow> retire s (KillSession w s)"
  by (drule world_wf_at [OF assms]; simp add: retire_KillSession world_wf_released [OF assms])+

lemma retire_starts:
  assumes "world_wf s"
  shows "at_task a (DpStart key e i) s \<Longrightarrow> retire s (snd (start_session reader writer i s))"
    "at_task a (SvStart c i) s \<Longrightarrow> retire s (snd (start_session reader writer i s))"
  by (drule world_wf_at [OF assms]; simp add: retire_start_session world_wf_released [OF assms])+

lemma est_inv_step:
  assumes "world_step s t" "world_wf s" "est_inv s"
  shows "est_inv t"
  using assms(1)
proof (cases rule: world_step.cases)
  case (loop_returns i)
  then show ?thesis using est_inv_retire [OF assms(3) retire_loop_returns [OF world_wf_released [OF assms(2)]]] by simp
next
  case (conn_released c)
  then show ?thesis
    using est_inv_retire [OF assms(3) retire_conn_released [OF world_wf_released [OF assms(2)]]] by (simp add: closing_def)
next
  case (accept registered)
  let ?t = "add_conn fresh_conn s" and ?c = "length (ow_conns s)"
  let ?u = "?t\<lparr>sw_handshakes := sw_handshakes ?t @ [?c]\<rparr>"
  have t: "est_inv ?t" and u: "est_inv ?u" by (rule est_inv_fields [OF assms(3)]; simp add: add_conn_def)+
  have "est_inv (RequestConnClose ?c ?t)" by (rule est_inv_fields [OF t]) (simp_all add: RequestConnClose_def)
  moreover have "est_inv (erase_handshake ?c (RequestConnClose ?c ?u))"
    by (rule est_inv_fields [OF u]) (simp_all add: RequestConnClose_def erase_handshake_def)
  moreover have "est_inv (add_task (SvHandshake ?c) ?u)"
    by (rule est_inv_add_task [OF u]) simp
  ultimately show ?thesis using accept by (simp add: accept_connection_def Let_def)
next
  case (dial_agreed a key e c peer)
  have "est_inv (make_session peer True c s)" by (rule est_inv_fields [OF assms(3)]) (simp_all add: make_session_def)
  then show ?thesis using dial_agreed by (auto intro!: est_inv_move simp: at_task_def make_session_def)
next
  case (serve_agreed a c peer)
  have "est_inv (make_session peer False c s)" by (rule est_inv_fields [OF assms(3)]) (simp_all add: make_session_def)
  then show ?thesis using serve_agreed by (auto intro!: est_inv_move simp: at_task_def make_session_def)
next
  case (serve_finishes a c)
  have "est_inv (erase_handshake c s)" by (rule est_inv_fields [OF assms(3)]) (simp_all add: erase_handshake_def)
  then show ?thesis using serve_finishes by (auto intro!: est_inv_move simp: at_task_def erase_handshake_def)
next
  case (serve_publishes a c i)
  have "est_inv (erase_handshake c s)" by (rule est_inv_fields [OF assms(3)]) (simp_all add: erase_handshake_def)
  then show ?thesis using serve_publishes assms(3)
    by (auto simp: serve_publish_def at_task_def erase_handshake_def intro!: est_inv_move)
next
  case (serve_lives a c w)
  let ?u = "erase_handshake c (s\<lparr>sw_accepted := sw_accepted s + 1,
        sw_links := filter (\<lambda>x. \<not> sh_expired (ow_cores s ! x)) (sw_links s @ [w])\<rparr>)"
  have "est_inv ?u" by (rule est_inv_fields [OF assms(3)]) (simp_all add: erase_handshake_def)
  then show ?thesis using serve_lives by (auto intro!: est_inv_move simp: serve_live_def at_task_def erase_handshake_def)
next
  case (dial_starts a key e i reader writer)
  then show ?thesis using retire_starts(1) [OF assms(2) dial_starts(2)] by (auto simp: dial_start_def split_def Let_def intro!: est_inv_retire_move [OF assms(3)])
next
  case (serve_starts a c i reader writer)
  then show ?thesis using retire_starts(2) [OF assms(2) serve_starts(2)] by (auto simp: serve_start_def split_def Let_def intro!: est_inv_retire_move [OF assms(3)])
next
  case (accept_failed reason)
  then show ?thesis by (intro est_inv_fields [OF assms(3)]) (simp_all add: ServerV2Seal_def Let_def)
next
  case (seal reason)
  then show ?thesis by (intro est_inv_fields [OF assms(3)]) (simp_all add: seal_owner_def split_def SessionOwnerSeal_def Let_def)
next
  case (link_dies i)
  then show ?thesis using est_inv_retire [OF assms(3) retire_KillSession [OF world_wf_released [OF assms(2)]]] by simp
next
  case link_expires
  then show ?thesis using est_inv_retire [OF assms(3) retire_expires [OF world_wf_released [OF assms(2)]]] by simp
next
  case wait_stopped
  then show ?thesis using est_inv_retire [OF assms(3) retire_wait_stopped [OF assms(2)]] by simp
next
  case dial_finishes
  then show ?thesis using est_inv_finish [OF assms(3,2)] by simp
next
  case (dial_evicts a key e i w)
  then show ?thesis using retire_evicts [OF assms(2)] by (auto intro!: est_inv_retire_move [OF assms(3)])
next
  case (serve_evicts a c i w)
  then show ?thesis using retire_evicts [OF assms(2)] by (auto intro!: est_inv_retire_move [OF assms(3)])
next
  case (seal_continues b)
  have "est_inv (seal_next b s)"
    using assms(2) seal_continues(2)
  proof (cases rule: seal_next_cases)
    case (kill i "is" cs)
    then show ?thesis using est_inv_retire [OF assms(3) retire_KillSession [OF world_wf_released [OF assms(2)]]]
      by simp
  next
    case (close c cs)
    then show ?thesis using est_inv_retire [OF assms(3) retire_RequestConnClose [OF world_wf_released [OF assms(2)]]]
      by simp
  qed (simp add: assms(3))
  then show ?thesis by (simp add: seal_continues(1))
qed (use assms(2,3) world_wf_released [OF assms(2)] in
    \<open>auto simp: NextEpoch_def begin_operation_def SessionOwnerBeginOperation_def end_operation_def SessionOwnerEndOperation_def
       shutdown_begin_def SessionOwnerShutdown_def shutdown_wake_def ServerV2StopAccepting_def ServerV2Seal_def Let_def
     intro: est_inv_fields [OF assms(3)] est_inv_connected est_inv_dial_install est_inv_serve_install est_inv_lookup
       est_inv_move [OF assms(3)] est_inv_retire_move [OF assms(3) _ retire_RequestConnClose]
     dest: world_wf_at [OF assms(2)]\<close>)

lemma owner_reachable_est: "world_reachable opts m s \<Longrightarrow> est_inv s"
proof (induction rule: world_reachable.induct)
  case initial
  show ?case by (simp add: est_inv_def quota_ok_def occupied_def tracked_def ow_init_def at_task_def List.map_filter_simps)
next
  case (step s t)
  then show ?case using est_inv_step owner_reachable_wf by blast
qed

section \<open>Invariants of the owner\<close>

text \<open>
  The duties of a coroutine are the connections it has to close or hand over. A step that only moves one coroutine on, while links
  retire, is a \<open>task_move\<close> that drops a duty only when the connection is being closed. The locale collects
  what an invariant has to keep; its lemma covers all steps.
\<close>

fun duty :: "'a SessionOwnerState_scheme \<Rightarrow> task_pc \<Rightarrow> nat set" where
  "duty s (DpHandshake key e c) = {c}"
| "duty s (DpInstall key e i) = {sh_conn (ow_cores s ! i)}"
| "duty s (DpEvict key e i w) = {sh_conn (ow_cores s ! w)}"
| "duty s (DpClose key e i err) = {sh_conn (ow_cores s ! i)}"
| "duty s (DpFinish key e (Inl err)) = set_option (es_conn (ow_ests s ! e))"
| "duty s (DpAbandon c made) = {c}"
| "duty s (SvHandshake c) = {c}"
| "duty s (SvPublish c i) = {sh_conn (ow_cores s ! i)}"
| "duty s (SvInstall c i) = {sh_conn (ow_cores s ! i)}"
| "duty s (SvEvict c i w) = {sh_conn (ow_cores s ! w)}"
| "duty s (SvFailed c i) = {sh_conn (ow_cores s ! i)}"
| "duty s (SvClose i) = {sh_conn (ow_cores s ! i)}"
| "duty s _ = {}"

inductive task_move :: "task_pc \<Rightarrow> task_pc \<Rightarrow> bool" where
  "task_move (DpDial key e) (DpFinish key e (Inl err))"
| "task_move (DpHandshake key e c) (DpFinish key e (Inl err))"
| "task_move (DpEvict key e i w) (DpStart key e i)"
| "task_move (DpStart key e i) (DpFinish key e (Inr i))"
| "task_move (DpStart key e i) (DpClose key e i err)"
| "task_move (DpClose key e i err) (DpFinish key e (Inl err))"
| "task_move (DpAbandon c made) (DpReturned made)"
| "task_move (SvHandshake c) (SvFinish c)"
| "task_move (SvPublish c i) (SvFailed c i)"
| "task_move (SvPublish c i) (SvInstall c i)"
| "task_move (SvEvict c i w) (SvStart c i)"
| "task_move (SvStart c i) (SvLive c i)"
| "task_move (SvStart c i) (SvFailed c i)"
| "task_move (SvFailed c i) (SvFinish c)"
| "task_move (SvClose i) SvDone"

definition same_core :: "OwnerWorld \<Rightarrow> OwnerWorld \<Rightarrow> bool" where
  "same_core s t \<longleftrightarrow> ow_options t = ow_options s \<and> ow_closed t = ow_closed s \<and> ow_by_identity t = ow_by_identity s
     \<and> ow_establishing t = ow_establishing s \<and> ow_sessions t = ow_sessions s \<and> ow_links t = ow_links s \<and> ow_conns t = ow_conns s
     \<and> ow_cores t = ow_cores s \<and> ow_ests t = ow_ests s \<and> sw_max_connections t = sw_max_connections s \<and> sw_links t = sw_links s
     \<and> sw_handshakes t = sw_handshakes s \<and> sw_tasks t = sw_tasks s \<and> sw_sealers t = sw_sealers s"

definition dead_ok :: "'a SessionOwnerState_scheme \<Rightarrow> bool" where
  "dead_ok s \<longleftrightarrow> (\<forall>i < length (ow_cores s). sh_dead (ow_cores s ! i) \<longrightarrow> closing s (sh_conn (ow_cores s ! i)))"

definition sound :: "OwnerWorld \<Rightarrow> bool" where
  "sound s \<longleftrightarrow> world_wf s \<and> est_inv s \<and> dead_ok s"

locale owner_invariant =
  fixes I :: "OwnerWorld \<Rightarrow> bool"
  assumes retires: "I s \<Longrightarrow> sound s \<Longrightarrow> retire s t \<Longrightarrow> I t"
    and moves: "I s \<Longrightarrow> sound s \<Longrightarrow> at_task a p s \<Longrightarrow> retire s w \<Longrightarrow> task_move p q
      \<Longrightarrow> \<forall>c \<in> duty s p. c \<in> duty w q \<or> closing w c \<Longrightarrow> I (set_task a q w)"
    and ignores: "I s \<Longrightarrow> same_core s t \<Longrightarrow> I t"
    and looks_up: "I s \<Longrightarrow> sound s \<Longrightarrow> I (dial_lookup key s)"
    and connects: "I s \<Longrightarrow> sound s \<Longrightarrow> at_task a (DpDial key e) s \<Longrightarrow> I (dial_connected a key e s)"
    and agrees: "I s \<Longrightarrow> sound s \<Longrightarrow> at_task a p s \<Longrightarrow> p = DpHandshake key e c \<and> q = DpInstall key e (length (ow_cores s)) \<and> outbound
        \<or> p = SvHandshake c \<and> q = SvPublish c (length (ow_cores s)) \<and> \<not> outbound
      \<Longrightarrow> I (set_task a q (make_session peer outbound c s))"
    and dial_installs: "I s \<Longrightarrow> sound s \<Longrightarrow> at_task a (DpInstall key e i) s \<Longrightarrow> I (dial_install a key e i s)"
    and serve_installs: "I s \<Longrightarrow> sound s \<Longrightarrow> at_task a (SvInstall c i) s \<Longrightarrow> I (serve_install a c i s)"
    and finishes: "I s \<Longrightarrow> sound s \<Longrightarrow> at_task a (DpFinish key e made) s \<Longrightarrow> I (dial_finish a key e made s)"
    and accepts: "I s \<Longrightarrow> sound s \<Longrightarrow> I (accept_connection registered s)"
    and unlists: "I s \<Longrightarrow> sound s \<Longrightarrow> at_task a p s \<Longrightarrow> p = SvPublish c i \<and> q = SvClose i \<or> p = SvFinish c \<and> q = SvDone
      \<Longrightarrow> I (set_task a q (erase_handshake c s))"
    and lives: "I s \<Longrightarrow> sound s \<Longrightarrow> at_task a (SvLive c v) s \<Longrightarrow> I (serve_live a c v s)"
    and seals_server: "I s \<Longrightarrow> sound s \<Longrightarrow> I (ServerV2Seal reason s)"
    and seals_owner: "I s \<Longrightarrow> sound s \<Longrightarrow> I (seal_owner reason s)"
    and kills_next: "I s \<Longrightarrow> sound s \<Longrightarrow> b < length (sw_sealers s) \<Longrightarrow> retire s w \<Longrightarrow> sw_sealers s ! b = (i # ks, cs)
      \<Longrightarrow> i < length (ow_cores s) \<Longrightarrow> closing w (sh_conn (ow_cores s ! i)) \<Longrightarrow> I (w\<lparr>sw_sealers := (sw_sealers s)[b := (ks, cs)]\<rparr>)"
    and closes_next: "I s \<Longrightarrow> sound s \<Longrightarrow> b < length (sw_sealers s) \<Longrightarrow> retire s w \<Longrightarrow> sw_sealers s ! b = ([], c # cs)
      \<Longrightarrow> I (w\<lparr>sw_sealers := (sw_sealers s)[b := ([], cs)]\<rparr>)"
begin

lemma step:
  assumes "world_step s t" "sound s" "I s"
  shows "I t"
proof -
  have wf: "world_wf s" and est: "est_inv s" using assms(2) by (simp_all add: sound_def)
  have ok: "released_ok s" by (rule world_wf_released [OF wf])
  have stay: "retire s s" by (rule retire_refl [OF ok])
  have close: "retire s (RequestConnClose c s)" for c by (rule retire_RequestConnClose [OF ok])
  note same = retire_lengths(3) retire_core(1)
  have kills: "closing (KillSession w s) (sh_conn (ow_cores s ! w))" if "w < length (ow_cores s)" for w
    using KillSession_closes [OF ok that] assms(2) that by (simp add: sound_def dead_ok_def)
  have conn: "sh_conn (ow_cores s ! i) < length (ow_conns s)" if "i < length (ow_cores s)" for i
    using ok that by (simp add: released_ok_def)
  note go = moves [OF assms(3,2)]
  show ?thesis
    using assms(1)
  proof (cases rule: world_step.cases)
    case (dial_failed a key e err)
    show ?thesis unfolding dial_failed(1) by (rule go [OF dial_failed(2) stay]) (simp_all add: task_move.intros)
  next
    case (dial_refused a key e c err)
    then have "c < length (ow_conns s)" using world_wf_at [OF wf] by force
    then show ?thesis unfolding dial_refused(1)
      by (intro go [OF dial_refused(2) close]) (simp_all add: task_move.intros closing_RequestConnClose)
  next
    case (dial_threw a key e c err)
    then have "es_conn (ow_ests s ! e) = Some c" using est by (auto simp: est_inv_def)
    then show ?thesis unfolding dial_threw(1) by (intro go [OF dial_threw(2) stay]) (simp_all add: task_move.intros)
  next
    case (dial_evicts a key e i w)
    then have "w < length (ow_cores s)" using world_wf_at [OF wf] by force
    then show ?thesis unfolding dial_evicts(1)
      by (intro go [OF dial_evicts(2) retire_evicts(1) [OF wf dial_evicts(2)]]) (simp_all add: task_move.intros kills)
  next
    case (serve_evicts a c i w)
    then have "w < length (ow_cores s)" using world_wf_at [OF wf] by force
    then show ?thesis unfolding serve_evicts(1)
      by (intro go [OF serve_evicts(2) retire_evicts(2) [OF wf serve_evicts(2)]]) (simp_all add: task_move.intros kills)
  next
    case (dial_starts a key e i reader writer)
    have "I (set_task a q (snd (start_session reader writer i s)))" if "task_move (DpStart key e i) q" for q
      by (rule go [OF dial_starts(2) retire_starts(1) [OF wf dial_starts(2)] that]) simp
    then show ?thesis unfolding dial_starts(1) dial_start_def split_def Let_def by (simp add: task_move.intros)
  next
    case (serve_starts a c i reader writer)
    have "I (set_task a q (snd (start_session reader writer i s)))" if "task_move (SvStart c i) q" for q
      by (rule go [OF serve_starts(2) retire_starts(2) [OF wf serve_starts(2)] that]) simp
    then show ?thesis unfolding serve_starts(1) serve_start_def split_def Let_def by (simp add: task_move.intros)
  next
    case (dial_closes a key e i err)
    then have "i < length (ow_cores s)" using world_wf_at [OF wf] by force
    then show ?thesis unfolding dial_closes(1)
      by (intro go [OF dial_closes(2) close]) (simp_all add: task_move.intros closing_RequestConnClose conn)
  next
    case (dial_abandons a c made)
    then have "c < length (ow_conns s)" using world_wf_at [OF wf] by force
    then show ?thesis unfolding dial_abandons(1)
      by (intro go [OF dial_abandons(2) close]) (simp_all add: task_move.intros closing_RequestConnClose)
  next
    case (serve_refused a c)
    then have "c < length (ow_conns s)" using world_wf_at [OF wf] by force
    then show ?thesis unfolding serve_refused(1)
      by (intro go [OF serve_refused(2) close]) (simp_all add: task_move.intros closing_RequestConnClose)
  next
    case (serve_hooked a c i)
    show ?thesis unfolding serve_hooked(1) by (rule go [OF serve_hooked(2) stay]) (simp_all add: task_move.intros)
  next
    case (serve_publishes a c i)
    have "I (set_task a (SvInstall c i) s)" by (rule go [OF serve_publishes(2) stay]) (simp_all add: task_move.intros)
    moreover have "I (set_task a (SvClose i) (erase_handshake c s))"
      by (rule unlists [OF assms(3,2) serve_publishes(2)]) simp
    ultimately show ?thesis unfolding serve_publishes(1) serve_publish_def by simp
  next
    case (serve_fails a c i)
    then have "i < length (ow_cores s)" using world_wf_at [OF wf] by force
    then show ?thesis unfolding serve_fails(1)
      by (intro go [OF serve_fails(2) close]) (simp_all add: task_move.intros closing_RequestConnClose conn)
  next
    case (serve_closes a i)
    then have "i < length (ow_cores s)" using world_wf_at [OF wf] by force
    then show ?thesis unfolding serve_closes(1)
      by (intro go [OF serve_closes(2) close]) (simp_all add: task_move.intros closing_RequestConnClose conn)
  next
    case (serve_finishes a c)
    show ?thesis unfolding serve_finishes(1) by (rule unlists [OF assms(3,2) serve_finishes(2)]) simp
  next
    case (dial_agreed a key e c peer)
    show ?thesis unfolding dial_agreed(1) by (rule agrees [OF assms(3,2) dial_agreed(2)]) simp
  next
    case (serve_agreed a c peer)
    show ?thesis unfolding serve_agreed(1) by (rule agrees [OF assms(3,2) serve_agreed(2)]) simp
  next
    case (accept_failed reason)
    then show ?thesis using ignores [OF seals_server [OF assms(3,2), of reason], of t] by (simp add: same_core_def)
  next
    case (loop_returns i)
    then show ?thesis using retires [OF assms(3,2) retire_loop_returns [OF ok]] by simp
  next
    case (conn_released c)
    then show ?thesis using retires [OF assms(3,2) retire_conn_released [OF ok]] by (simp add: closing_def)
  next
    case link_dies
    then show ?thesis using retires [OF assms(3,2) retire_KillSession [OF ok]] by simp
  next
    case link_expires
    then show ?thesis using retires [OF assms(3,2) retire_expires [OF ok]] by simp
  next
    case wait_stopped
    then show ?thesis using retires [OF assms(3,2) retire_wait_stopped [OF wf]] by simp
  next
    case (seal_continues b)
    have "I (seal_next b s)"
      using wf seal_continues(2)
    proof (cases rule: seal_next_cases)
      case (kill i "is" cs)
      then show ?thesis using kills_next [OF assms(3,2) seal_continues(2) retire_KillSession [OF ok kill(2)] kill(1,2) kills] by simp
    next
      case (close c cs)
      then show ?thesis using closes_next [OF assms(3,2) seal_continues(2) retire_RequestConnClose [OF ok] close(1)] by simp
    qed (simp add: assms(3))
    then show ?thesis by (simp add: seal_continues(1))
  qed (use assms(2,3) in \<open>auto simp: same_core_def NextEpoch_def begin_operation_def SessionOwnerBeginOperation_def end_operation_def
       SessionOwnerEndOperation_def shutdown_begin_def SessionOwnerShutdown_def shutdown_wake_def ServerV2StopAccepting_def Let_def
     intro: looks_up connects dial_installs serve_installs finishes accepts lives seals_server seals_owner ignores [OF assms(3)]\<close>)
qed

end

lemma dead_ok_retire:
  assumes "dead_ok s" "world_wf s" "retire s t"
  shows "dead_ok t"
  unfolding dead_ok_def
proof (intro allI impI)
  fix i assume i: "i < length (ow_cores t)" "sh_dead (ow_cores t ! i)"
  then have i': "i < length (ow_cores s)" using retire_lengths(1) [OF assms(3)] by simp
  have "closing t (sh_conn (ow_cores s ! i))"
  proof (cases "sh_dead (ow_cores s ! i)")
    case True
    have "sh_conn (ow_cores s ! i) < length (ow_conns s)" using world_wf_released [OF assms(2)] i' by (simp add: released_ok_def)
    then show ?thesis using True assms(1) i' retire_closing [OF assms(3)] by (simp add: dead_ok_def)
  next
    case False
    then show ?thesis using assms(3) i' i(2) by (auto simp: retire_def only_closes_def)
  qed
  then show "closing t (sh_conn (ow_cores t ! i))" using retire_core(1) [OF assms(3) i'] by simp
qed

lemma dead_ok_fields: "dead_ok s \<Longrightarrow> ow_cores t = ow_cores s \<Longrightarrow> ow_conns t = ow_conns s \<Longrightarrow> dead_ok t"
  by (simp add: dead_ok_def closing_def)

lemma dead_ok_set_task [simp]: "dead_ok (set_task a q s) = dead_ok s" "dead_ok (add_task q s) = dead_ok s"
    "dead_ok (erase_handshake c s) = dead_ok s"
  by (simp_all add: dead_ok_def closing_def set_task_def add_task_def erase_handshake_def)

lemma dead_ok_add_conn: "dead_ok s \<Longrightarrow> world_wf s \<Longrightarrow> dead_ok (add_conn c s)"
  using world_wf_released [of s] by (auto simp: dead_ok_def closing_def add_conn_def nth_append released_ok_def)

lemma dead_ok_RequestClose: "dead_ok s \<Longrightarrow> dead_ok (RequestConnClose c s)"
  by (auto simp: dead_ok_def closing_RequestConnClose)

lemma dead_ok_install:
  assumes "dead_ok s" "world_wf s" "i < length (ow_cores s)"
  shows "dead_ok (snd (InstallSession i key est s))"
proof -
  have take: "dead_ok (install_take i key ev w)" if "dead_ok w" for ev and w :: OwnerWorld
    using that by (auto simp: dead_ok_def closing_def on_core_nth)
  have "dead_ok (RequestConnClose (sh_conn (ow_cores s ! i)) (on_core i (sh_dead_update (\<lambda>_. True)) s))"
    by (rule dead_ok_retire [OF assms(1,2) retire_dead [OF world_wf_released [OF assms(2)] assms(3)]])
  then have "dead_ok (map_endpoint key w (RequestConnClose (sh_conn (ow_cores s ! i)) (on_core i (sh_dead_update (\<lambda>_. True)) s)))" for w
    by (rule dead_ok_fields) simp_all
  moreover have "dead_ok (on_est e f s)" for e f by (rule dead_ok_fields [OF assms(1)]) simp_all
  ultimately show ?thesis using take assms(1) by (auto simp: InstallSession_def Let_def split: option.split)
qed

interpretation dead: owner_invariant dead_ok
proof
  fix s t w :: OwnerWorld and a b e c i v :: nat and p q and key peer :: bytes and made :: "nat result" and outbound registered :: bool
    and reason :: Error
  assume I: "dead_ok s"
  show "dead_ok t" if "same_core s t" using that by (auto simp: same_core_def intro: dead_ok_fields [OF I])
  assume sound: "sound s"
  then have wf: "world_wf s" by (simp add: sound_def)
  show "dead_ok t" if "retire s t" by (rule dead_ok_retire [OF I wf that])
  show "dead_ok (set_task a q w)" if "retire s w" using dead_ok_retire [OF I wf that] by simp
  show "dead_ok (dial_lookup key s)"
  proof -
    have t: "dead_ok (sweep_release (map snd (ow_by_identity s)) s)" by (rule dead_ok_retire [OF I wf sweep_identities [OF wf]])
    then have "dead_ok (snd (GetSession key s))"
      using I by (auto simp: GetSession_def Let_def split: option.split intro: dead_ok_fields)
    then show ?thesis by (auto simp: dial_lookup_def split_def Let_def split: lookup.split)
  qed
  show "dead_ok (dial_connected a key e s)"
  proof -
    have "dead_ok (on_est e f (add_conn fresh_conn s))" for f
      by (rule dead_ok_fields [OF dead_ok_add_conn [OF I wf]]) simp_all
    then show ?thesis
      by (auto simp: dial_connected_def attach_conn_def split_def Let_def dead_ok_RequestClose split: option.split)
  qed
  show "dead_ok (set_task a q (make_session peer outbound c s))"
    using I by (auto simp: dead_ok_def closing_def make_session_def set_task_def nth_append)
  show "dead_ok (dial_install a key e i s)" if "at_task a (DpInstall key e i) s"
    using dead_ok_install [OF I wf, of i] world_wf_at [OF wf that] by (simp add: dial_install_def split_def Let_def)
  show "dead_ok (serve_install a c i s)" if "at_task a (SvInstall c i) s"
    using dead_ok_install [OF I wf, of i] world_wf_at [OF wf that] by (simp add: serve_install_def split_def Let_def)
  show "dead_ok (dial_finish a key e made s)"
    using dead_ok_fields [OF I, of "snd (finish_establishing key e made s)"] by (simp add: dial_finish_def split_def Let_def)
  show "dead_ok (accept_connection registered s)"
  proof -
    have t: "dead_ok (add_conn fresh_conn s)" by (rule dead_ok_add_conn [OF I wf])
    have "dead_ok ((add_conn fresh_conn s)\<lparr>sw_handshakes := xs\<rparr>)" for xs by (rule dead_ok_fields [OF t]) simp_all
    then show ?thesis using t by (simp add: accept_connection_def Let_def dead_ok_RequestClose)
  qed
  show "dead_ok (set_task a q (erase_handshake c s))" using I by simp
  show "dead_ok (serve_live a c v s)" by (rule dead_ok_fields [OF I]) (simp_all add: serve_live_def set_task_def erase_handshake_def)
  show "dead_ok (ServerV2Seal reason s)" by (rule dead_ok_fields [OF I]) (simp_all add: ServerV2Seal_def Let_def)
  show "dead_ok (seal_owner reason s)"
    by (rule dead_ok_fields [OF I]) (simp_all add: seal_owner_def SessionOwnerSeal_def split_def Let_def)
  have "dead_ok (w\<lparr>sw_sealers := xs\<rparr>)" if "retire s w" for xs
    by (rule dead_ok_fields [OF dead_ok_retire [OF I wf that]]) simp_all
  then show "dead_ok (w\<lparr>sw_sealers := (sw_sealers s)[b := (ks, cs)]\<rparr>)" "dead_ok (w\<lparr>sw_sealers := (sw_sealers s)[b := ([], cs)]\<rparr>)"
    if "retire s w" for ks cs using that by blast+
qed

lemma sound_step: "world_step s t \<Longrightarrow> sound s \<Longrightarrow> sound t"
  using owner_step_wf est_inv_step dead.step by (auto simp: sound_def)

lemma sound_initial: "sound (ow_init opts m)"
proof -
  have "dead_ok (ow_init opts m)" by (simp add: dead_ok_def ow_init_def)
  then show ?thesis using owner_reachable_est [OF world_reachable.initial] by (simp add: sound_def owner_init_wf)
qed

lemma owner_reachable_sound: "world_reachable opts m s \<Longrightarrow> sound s"
  by (induction rule: world_reachable.induct) (blast intro: sound_step sound_initial)+

context owner_invariant
begin

lemma reachable:
  assumes "world_reachable opts m s" "I (ow_init opts m)"
  shows "I s"
  using assms by (induction rule: world_reachable.induct) (auto intro: step owner_reachable_sound)

end

section \<open>The gauges\<close>

fun fresh_core :: "task_pc \<Rightarrow> nat option" where
  "fresh_core (DpInstall key e i) = Some i"
| "fresh_core (SvPublish c i) = Some i"
| "fresh_core (SvInstall c i) = Some i"
| "fresh_core _ = None"

definition ledger_ok :: "'a SessionOwnerState_scheme \<Rightarrow> bool" where
  "ledger_ok s \<longleftrightarrow> ow_links s = of_nat (held_links s) \<and> ow_sessions s = of_nat (held_links s)
     \<and> (\<forall>x \<in> set (ow_by_identity s). sh_quota_held (ow_cores s ! snd x) \<and> sh_peer_identity (ow_cores s ! snd x) = fst x)"

definition fresh_ok :: "nat list \<Rightarrow> OwnerWorld \<Rightarrow> bool" where
  "fresh_ok xs s \<longleftrightarrow> tracked fresh_core (sw_tasks s) xs
     \<and> (\<forall>i \<in> set xs. i < length (ow_cores s) \<and> \<not> sh_quota_held (ow_cores s ! i))"

definition gauge_inv :: "OwnerWorld \<Rightarrow> bool" where
  "gauge_inv s \<longleftrightarrow> ledger_ok s \<and> (\<exists>xs. fresh_ok xs s)"

lemma ledger_ok_retire:
  assumes "ledger_ok s" "owner_wf s" "retire s t"
  shows "ledger_ok t"
proof -
  have ledger: "same_ledger s t" using assms(3) by (simp add: retire_def)
  have "sh_quota_held (ow_cores t ! snd x) \<and> sh_peer_identity (ow_cores t ! snd x) = fst x" if x: "x \<in> set (ow_by_identity t)" for x
  proof -
    have old: "x \<in> set (ow_by_identity s)" using assms(3) x by (auto simp: retire_def only_closes_def)
    then have i: "snd x < length (ow_cores s)" using assms(2) by (simp add: owner_wf_def)
    have "snd x \<in> snd ` set (ow_by_identity t)" using x by (rule imageI)
    then have "sh_quota_held (ow_cores t ! snd x)"
      using ledger assms(1) old i unfolding same_ledger_def ledger_ok_def by blast
    then show ?thesis using assms(1) old retire_core(2) [OF assms(3) i] by (simp add: ledger_ok_def)
  qed
  then show ?thesis using ledger assms(1) by (simp add: ledger_ok_def same_ledger_def)
qed

lemma fresh_ok_retire:
  assumes "fresh_ok xs s" "retire s t"
  shows "fresh_ok xs t"
  using assms(1) retire_lengths(1) [OF assms(2)] retire_tasks [OF assms(2)] assms(2)
  by (auto simp: fresh_ok_def retire_def same_ledger_def)

lemma gauge_inv_retire: "gauge_inv s \<Longrightarrow> world_wf s \<Longrightarrow> retire s t \<Longrightarrow> gauge_inv t"
  unfolding gauge_inv_def using ledger_ok_retire fresh_ok_retire world_wf_owner by blast

lemma gauge_inv_fields:
  assumes "gauge_inv s" "ow_by_identity t = ow_by_identity s" "ow_cores t = ow_cores s" "ow_links t = ow_links s"
    and "ow_sessions t = ow_sessions s" "sw_tasks t = sw_tasks s"
  shows "gauge_inv t"
  using assms(1) by (simp add: gauge_inv_def ledger_ok_def fresh_ok_def held_links_def assms(2-6))

lemma ledger_ok_tasks [simp]: "ledger_ok (set_task a q s) = ledger_ok s" "ledger_ok (add_task q s) = ledger_ok s"
  by (simp_all add: ledger_ok_def held_links_def set_task_def add_task_def)

lemma fresh_ok_move:
  assumes "fresh_ok xs s" "at_task a p s"
  shows "fresh_core q = fresh_core p \<Longrightarrow> fresh_ok xs (set_task a q s)"
    "fresh_core p = Some i \<Longrightarrow> fresh_core q = None \<Longrightarrow> fresh_ok (filter (\<lambda>j. j \<noteq> i) xs) (set_task a q s)"
  using assms tracked_same [of fresh_core "sw_tasks s" xs a q] tracked_drop [of fresh_core "sw_tasks s" xs a i q]
  by (auto simp: fresh_ok_def set_task_def at_task_def)

lemma gauge_inv_move:
  assumes "gauge_inv s" "at_task a p s" "fresh_core q = None \<or> fresh_core q = fresh_core p"
  shows "gauge_inv (set_task a q s)"
proof -
  obtain xs where "fresh_ok xs s" using assms(1) by (auto simp: gauge_inv_def)
  note moved = fresh_ok_move [OF this assms(2)]
  have "\<exists>ys. fresh_ok ys (set_task a q s)"
    using moved(1) [of q] moved(2) [of _ q] assms(3) by (cases "fresh_core p") auto
  then show ?thesis using assms(1) by (simp add: gauge_inv_def)
qed

lemma gauge_inv_retire_move:
  assumes "gauge_inv s" "world_wf s" "at_task a p s" "retire s w" "fresh_core q = None \<or> fresh_core q = fresh_core p"
  shows "gauge_inv (set_task a q w)"
  by (rule gauge_inv_move [OF gauge_inv_retire [OF assms(1,2,4)] _ assms(5)])
    (use assms(3) retire_tasks [OF assms(4)] in \<open>simp add: at_task_def\<close>)

lemma tracked_gain:
  assumes "tracked f ps xs" "a < length ps" "f (ps ! a) = None" "f q = Some x" "x \<notin> set xs"
  shows "tracked f (ps[a := q]) (x # xs)"
  using assms(1) map_filter_split [OF assms(2), of f] assms(3-5) by (simp add: tracked_def List.map_filter_simps)

lemma gauge_inv_make_session:
  assumes "gauge_inv s" "world_wf s" "at_task a p s" "fresh_core p = None" "fresh_core q = Some (length (ow_cores s))"
  shows "gauge_inv (set_task a q (make_session peer outbound c s))"
proof -
  obtain xs where xs: "fresh_ok xs s" using assms(1) by (auto simp: gauge_inv_def)
  then have "length (ow_cores s) \<notin> set xs" by (auto simp: fresh_ok_def)
  then have "tracked fresh_core ((sw_tasks s)[a := q]) (length (ow_cores s) # xs)"
    using xs assms(3-5) by (intro tracked_gain) (auto simp: fresh_ok_def at_task_def)
  then have "fresh_ok (length (ow_cores s) # xs) (set_task a q (make_session peer outbound c s))"
    using xs by (auto simp: fresh_ok_def set_task_def make_session_def nth_append)
  moreover have "ledger_ok (make_session peer outbound c s)"
    using assms(1) world_wf_owner [OF assms(2)]
    by (auto simp: gauge_inv_def ledger_ok_def held_links_def make_session_def nth_append owner_wf_def)
  ultimately show ?thesis by (auto simp: gauge_inv_def)
qed

lemma ledger_ok_install_take:
  assumes "ledger_ok s" "i < length (ow_cores s)" "\<not> sh_quota_held (ow_cores s ! i)"
  shows "ledger_ok (install_take i key ev s)"
proof -
  have "held_links (install_take i key ev s) = held_links s + 1"
    using filter_update_length [OF assms(2), of sh_quota_held "(ow_cores s ! i)\<lparr>sh_quota_held := True\<rparr>"] assms(3)
    by (simp add: held_links_def on_core_def)
  moreover have "sh_quota_held (ow_cores (on_core i (sh_quota_held_update (\<lambda>_. True)) s) ! snd x)
      \<and> sh_peer_identity (ow_cores (on_core i (sh_quota_held_update (\<lambda>_. True)) s) ! snd x) = fst x"
    if "x \<in> set (AList.update (sh_peer_identity (ow_cores s ! i)) i (ow_by_identity s))" for x
    using update_mem [OF that] assms by (cases x; cases "snd x = i") (auto simp: ledger_ok_def on_core_def)
  ultimately show ?thesis using assms(1) by (simp add: ledger_ok_def add.commute)
qed

lemma ledger_ok_same:
  assumes "ledger_ok s" "ow_by_identity t = ow_by_identity s" "ow_cores t = ow_cores s" "ow_links t = ow_links s" "ow_sessions t = ow_sessions s"
  shows "ledger_ok t"
  using assms(1) by (simp add: ledger_ok_def held_links_def assms(2-5))

lemma gauge_inv_install:
  assumes "gauge_inv s" "world_wf s" "at_task a p s" "fresh_core p = Some i" "fresh_core q = None"
  shows "gauge_inv (set_task a q (snd (InstallSession i key est s)))"
proof -
  let ?t = "snd (InstallSession i key est s)"
  obtain xs where xs: "fresh_ok xs s" using assms(1) by (auto simp: gauge_inv_def)
  have mem: "i \<in> set xs" by (rule tracked_mem [of fresh_core]) (use xs assms(3,4) in \<open>auto simp: fresh_ok_def at_task_def\<close>)
  then have i: "i < length (ow_cores s)" "\<not> sh_quota_held (ow_cores s ! i)" using xs by (simp_all add: fresh_ok_def)
  have ledger: "ledger_ok s" using assms(1) by (simp add: gauge_inv_def)
  let ?dead = "RequestConnClose (sh_conn (ow_cores s ! i)) (on_core i (sh_dead_update (\<lambda>_. True)) s)"
  have "ledger_ok ?dead"
    by (rule ledger_ok_retire [OF ledger world_wf_owner [OF assms(2)] retire_dead [OF world_wf_released [OF assms(2)] i(1)]])
  then have "ledger_ok (map_endpoint key w ?dead)" for w by (rule ledger_ok_same) simp_all
  moreover have "ledger_ok (on_est e f s)" for e f by (rule ledger_ok_same [OF ledger]) simp_all
  ultimately have "ledger_ok ?t"
    using ledger i by (auto simp: InstallSession_def Let_def split: option.split intro!: ledger_ok_install_take)
  moreover have "fresh_ok (filter (\<lambda>j. j \<noteq> i) xs) (set_task a q ?t)"
  proof -
    have tasks: "sw_tasks ?t = sw_tasks s" by (rule world_fields(9)) simp
    have "tracked fresh_core ((sw_tasks s)[a := q]) (filter (\<lambda>j. j \<noteq> i) xs)"
      by (rule tracked_drop) (use xs assms(3-5) in \<open>auto simp: fresh_ok_def at_task_def\<close>)
    moreover have "sh_quota_held (ow_cores ?t ! j) = sh_quota_held (ow_cores s ! j)" if "j \<noteq> i" for j
      using that by (simp add: InstallSession_def Let_def on_core_def split: option.split)
    ultimately show ?thesis using xs by (auto simp: fresh_ok_def set_task_def tasks)
  qed
  ultimately show ?thesis by (auto simp: gauge_inv_def)
qed

lemma gauge_inv_lookup:
  assumes "gauge_inv s" "world_wf s"
  shows "gauge_inv (dial_lookup key s)"
proof -
  let ?t = "sweep_release (map snd (ow_by_identity s)) s"
  have t: "gauge_inv ?t" by (rule gauge_inv_retire [OF assms sweep_identities [OF assms(2)]])
  have "gauge_inv w" if "ow_by_identity w = ow_by_identity ?t" "ow_cores w = ow_cores ?t" "ow_links w = ow_links ?t"
    "ow_sessions w = ow_sessions ?t" "sw_tasks w = sw_tasks ?t" for w
    by (rule gauge_inv_fields [OF t that])
  moreover have "gauge_inv (add_task (DpDial key e) w)" if "gauge_inv w" for e w
    using that tracked_skip [of fresh_core "sw_tasks w" _ "DpDial key e"]
    by (auto simp: gauge_inv_def fresh_ok_def add_task_def ledger_ok_def held_links_def)
  ultimately show ?thesis using assms(1) t
    by (auto simp: dial_lookup_def GetSession_def Let_def split_def split: option.split lookup.split)
qed

interpretation gauges: owner_invariant gauge_inv
proof
  fix s t w :: OwnerWorld and a b e c i v :: nat and p q and key peer :: bytes and made :: "nat result" and outbound registered :: bool
    and reason :: Error
  assume I: "gauge_inv s"
  note keep = gauge_inv_fields [OF I]
  show "gauge_inv t" if "same_core s t" using that by (auto simp: same_core_def intro: keep)
  assume sound: "sound s"
  then have wf: "world_wf s" by (simp add: sound_def)
  note retired = gauge_inv_retire [OF I wf]
  show "gauge_inv t" if "retire s t" by (rule retired [OF that])
  show "gauge_inv (set_task a q w)" if "at_task a p s" "retire s w" "task_move p q"
    using that(3) by (intro gauge_inv_retire_move [OF I wf that(1,2)]) (auto elim: task_move.cases)
  show "gauge_inv (dial_lookup key s)" by (rule gauge_inv_lookup [OF I wf])
  show "gauge_inv (dial_connected a key e s)" if "at_task a (DpDial key e) s"
  proof -
    let ?t = "snd (attach_conn e (length (ow_conns s)) (add_conn fresh_conn s))"
    have tasks: "sw_tasks ?t = sw_tasks s" using world_fields(9) [of ?t "add_conn fresh_conn s"] by (simp add: add_conn_def)
    have "gauge_inv ?t" by (rule keep [OF _ _ _ _ tasks]) (simp_all add: attach_conn_def Let_def on_est_def add_conn_def)
    moreover have "at_task a (DpDial key e) ?t" using that tasks by (simp add: at_task_def)
    ultimately show ?thesis by (auto simp: dial_connected_def split_def Let_def split: option.split intro: gauge_inv_move)
  qed
  show "gauge_inv (set_task a q (make_session peer outbound c s))"
    if "at_task a p s" "p = DpHandshake key e c \<and> q = DpInstall key e (length (ow_cores s)) \<and> outbound
        \<or> p = SvHandshake c \<and> q = SvPublish c (length (ow_cores s)) \<and> \<not> outbound"
    using that by (intro gauge_inv_make_session [OF I wf that(1)]) auto
  show "gauge_inv (dial_install a key e i s)" if "at_task a (DpInstall key e i) s"
    using gauge_inv_install [OF I wf that]
    by (auto simp: dial_install_def split_def Let_def split: install.split option.split)
  show "gauge_inv (serve_install a c i s)" if "at_task a (SvInstall c i) s"
    using gauge_inv_install [OF I wf that]
    by (auto simp: serve_install_def split_def Let_def split: install.split option.split)
  show "gauge_inv (dial_finish a key e made s)" if "at_task a (DpFinish key e made) s"
  proof -
    let ?t = "snd (finish_establishing key e made s)"
    have tasks: "sw_tasks ?t = sw_tasks s" by (rule world_fields(9)) (simp add: finish_establishing_def Let_def)
    have "gauge_inv ?t" by (rule keep [OF _ _ _ _ tasks]) (simp_all add: finish_establishing_def Let_def)
    moreover have "at_task a (DpFinish key e made) ?t" using that tasks by (simp add: at_task_def)
    ultimately show ?thesis by (auto simp: dial_finish_def split_def Let_def split: option.split intro: gauge_inv_move)
  qed
  show "gauge_inv (accept_connection registered s)"
  proof -
    let ?t = "add_conn fresh_conn s" and ?c = "length (ow_conns s)"
    have "gauge_inv (RequestConnClose ?c ?t)" "gauge_inv (?t\<lparr>sw_handshakes := xs\<rparr>)" "gauge_inv (erase_handshake d (RequestConnClose ?c (?t\<lparr>sw_handshakes := xs\<rparr>)))" for xs d
      by (rule keep; simp add: add_conn_def RequestConnClose_def erase_handshake_def)+
    moreover have "gauge_inv (add_task (SvHandshake ?c) w)" if "gauge_inv w" for w
      using that tracked_skip [of fresh_core "sw_tasks w" _ "SvHandshake ?c"]
      by (auto simp: gauge_inv_def fresh_ok_def add_task_def ledger_ok_def held_links_def)
    ultimately show ?thesis by (simp add: accept_connection_def Let_def)
  qed
  have unlisted: "gauge_inv (erase_handshake c s)" "at_task a p (erase_handshake c s) = at_task a p s"
    by (rule keep; simp add: erase_handshake_def) (simp add: at_task_def erase_handshake_def)
  show "gauge_inv (set_task a q (erase_handshake c s))"
    if "at_task a p s" "p = SvPublish c i \<and> q = SvClose i \<or> p = SvFinish c \<and> q = SvDone"
    using that unlisted(2) by (intro gauge_inv_move [OF unlisted(1), of a p]) auto
  show "gauge_inv (serve_live a c v s)" if "at_task a (SvLive c v) s"
    unfolding serve_live_def
    by (rule gauge_inv_move [of _ _ "SvLive c v"], rule keep) (use that in \<open>simp_all add: erase_handshake_def at_task_def\<close>)
  show "gauge_inv (ServerV2Seal reason s)" by (rule keep) (simp_all add: ServerV2Seal_def Let_def)
  show "gauge_inv (seal_owner reason s)" by (rule keep) (simp_all add: seal_owner_def SessionOwnerSeal_def split_def Let_def)
  have "gauge_inv (w\<lparr>sw_sealers := xs\<rparr>)" if "retire s w" for xs
    by (rule gauge_inv_fields [OF retired [OF that]]) simp_all
  then show "gauge_inv (w\<lparr>sw_sealers := (sw_sealers s)[b := (ks, cs)]\<rparr>)" "gauge_inv (w\<lparr>sw_sealers := (sw_sealers s)[b := ([], cs)]\<rparr>)"
    if "retire s w" for ks cs using that by blast+
qed

end
