(* ===== verification/OwnerGuarantees.thy ===== *)
theory OwnerGuarantees
  imports OwnerSteps
begin

text \<open>
  Three more invariants of the session owner: the connection limit of a server, the duty to close every open connection, and the gate that
  admits operations until a close or a shutdown.
\<close>

section \<open>The connection limit\<close>

fun serve_conn :: "task_pc \<Rightarrow> nat option" where
  "serve_conn (SvHandshake c) = Some c"
| "serve_conn (SvPublish c i) = Some c"
| "serve_conn (SvInstall c i) = Some c"
| "serve_conn (SvEvict c i w) = Some c"
| "serve_conn (SvStart c i) = Some c"
| "serve_conn (SvFailed c i) = Some c"
| "serve_conn (SvLive c w) = Some c"
| "serve_conn (SvFinish c) = Some c"
| "serve_conn _ = None"

definition conn_inv :: "OwnerWorld \<Rightarrow> bool" where
  "conn_inv s \<longleftrightarrow> tracked serve_conn (sw_tasks s) (sw_handshakes s)
     \<and> length (sw_links s) + length (sw_handshakes s) \<le> sw_max_connections s"

lemma conn_inv_fields:
  assumes "conn_inv s" "sw_tasks t = sw_tasks s" "sw_handshakes t = sw_handshakes s" "sw_links t = sw_links s"
    and "sw_max_connections t = sw_max_connections s"
  shows "conn_inv t"
  using assms(1) by (simp add: conn_inv_def assms(2-5))

lemma conn_inv_more:
  assumes "conn_inv s" "SessionOwnerState.more t = SessionOwnerState.more s"
  shows "conn_inv t"
  by (rule conn_inv_fields [OF assms(1) world_fields(9,8,7,1) [OF assms(2)]])

lemma conn_inv_move:
  assumes "conn_inv s" "at_task a p s" "serve_conn q = serve_conn p"
  shows "conn_inv (set_task a q s)"
  using assms tracked_same [of serve_conn "sw_tasks s" "sw_handshakes s" a q]
  by (auto simp: conn_inv_def at_task_def set_task_def)

lemma conn_inv_drop:
  assumes "conn_inv s" "at_task a p s" "serve_conn p = Some c" "serve_conn q = None" "n \<le> length (sw_links s) + 1"
  shows "tracked serve_conn ((sw_tasks s)[a := q]) (filter (\<lambda>x. x \<noteq> c) (sw_handshakes s))"
    "n + length (filter (\<lambda>x. x \<noteq> c) (sw_handshakes s)) \<le> sw_max_connections s"
proof -
  show "tracked serve_conn ((sw_tasks s)[a := q]) (filter (\<lambda>x. x \<noteq> c) (sw_handshakes s))"
    by (rule tracked_drop) (use assms(1-4) in \<open>auto simp: conn_inv_def at_task_def\<close>)
  have "c \<in> set (sw_handshakes s)"
    by (rule tracked_mem [of serve_conn "sw_tasks s" _ a]) (use assms(1-3) in \<open>auto simp: conn_inv_def at_task_def\<close>)
  then have "length (filter (\<lambda>x. x \<noteq> c) (sw_handshakes s)) < length (sw_handshakes s)"
    by (simp add: length_filter_less)
  then show "n + length (filter (\<lambda>x. x \<noteq> c) (sw_handshakes s)) \<le> sw_max_connections s"
    using assms(1,5) by (simp add: conn_inv_def)
qed

lemma at_task_more: "SessionOwnerState.more t = SessionOwnerState.more s \<Longrightarrow> at_task a p t = at_task a p s"
  using world_fields(9) [of t s] by (simp add: at_task_def)

lemma GetSession_more [simp]:
  "world_wf s \<Longrightarrow> SessionOwnerState.more (snd (GetSession key s)) = SessionOwnerState.more s"
  using retire_world [OF sweep_identities] by (simp add: GetSession_def Let_def split: option.split)

lemma finish_establishing_more [simp]:
  "SessionOwnerState.more (snd (finish_establishing key e made s)) = SessionOwnerState.more s"
  by (simp add: finish_establishing_def Let_def)

lemma conn_inv_accept:
  assumes "conn_inv s" "world_wf s"
  shows "conn_inv (accept_connection registered s)"
proof -
  let ?t = "add_conn fresh_conn s" and ?c = "length (ow_conns s)"
  let ?u = "?t\<lparr>sw_handshakes := sw_handshakes ?t @ [?c]\<rparr>"
  have t: "conn_inv ?t" by (rule conn_inv_more [OF assms(1)]) (simp add: add_conn_def)
  then have "conn_inv (RequestConnClose ?c ?t)" by (rule conn_inv_more) simp
  moreover have fresh: "?c \<notin> set (sw_handshakes s)" using assms(2) by (auto simp: world_wf_def)
  have "sw_handshakes (erase_handshake ?c (RequestConnClose ?c ?u)) = sw_handshakes s"
    using fresh world_fields(8) [of "RequestConnClose ?c ?u" ?u] by (auto simp: erase_handshake_def filter_id_conv)
  then have "conn_inv (erase_handshake ?c (RequestConnClose ?c ?u))"
    using world_fields [of "RequestConnClose ?c ?u" ?u]
    by (intro conn_inv_fields [OF assms(1)]) (simp_all add: erase_handshake_def add_conn_def)
  moreover have "conn_inv (add_task (SvHandshake ?c) ?u)"
    if "length (sw_links s) + length (sw_handshakes s) < sw_max_connections s"
    using that fresh tracked_add [of serve_conn "sw_tasks s" "sw_handshakes s" "SvHandshake ?c" ?c] assms(1)
    by (simp add: conn_inv_def add_task_def add_conn_def)
  ultimately show ?thesis by (simp add: accept_connection_def Let_def not_le)
qed

interpretation connections: owner_invariant conn_inv
proof
  fix s t w :: OwnerWorld and a b e c i v :: nat and p q and key peer :: bytes and made :: "nat result" and outbound registered :: bool
    and reason :: Error
  assume I: "conn_inv s"
  note keep = conn_inv_fields [OF I]
  show "conn_inv t" if "same_core s t" using that by (auto simp: same_core_def intro: keep)
  assume sound: "sound s"
  then have wf: "world_wf s" by (simp add: sound_def)
  show retired: "conn_inv t" if "retire s t" for t by (rule conn_inv_more [OF I retire_world [OF that]])
  have moved: "conn_inv (set_task a q w)" if "at_task a p s" "SessionOwnerState.more w = SessionOwnerState.more s" "serve_conn q = serve_conn p" for w p q
    using that(1,3) at_task_more [OF that(2)] by (intro conn_inv_move [OF conn_inv_more [OF I that(2)], of a p]) simp_all
  show "conn_inv (set_task a q w)" if "at_task a p s" "retire s w" "task_move p q"
    using that(3) by (intro moved [OF that(1) retire_world [OF that(2)]]) (auto elim: task_move.cases)
  show "conn_inv (dial_lookup key s)"
  proof -
    let ?t = "snd (GetSession key s)"
    have t: "conn_inv ?t" by (rule conn_inv_more [OF I]) (simp add: wf)
    then have "conn_inv (add_task (DpDial key e) ?t)" for e
      using tracked_skip [of serve_conn "sw_tasks ?t" "sw_handshakes ?t" "DpDial key e"] by (simp add: conn_inv_def add_task_def)
    then show ?thesis using t by (simp add: dial_lookup_def split_def Let_def split: lookup.split)
  qed
  show "conn_inv (dial_connected a key e s)" if "at_task a (DpDial key e) s"
    using moved [OF that, of "snd (attach_conn e (length (ow_conns s)) (add_conn fresh_conn s))"]
    by (simp add: dial_connected_def split_def Let_def add_conn_def split: option.split)
  show "conn_inv (set_task a q (make_session peer outbound c s))"
    if "at_task a p s" "p = DpHandshake key e c \<and> q = DpInstall key e (length (ow_cores s)) \<and> outbound
        \<or> p = SvHandshake c \<and> q = SvPublish c (length (ow_cores s)) \<and> \<not> outbound"
    using that by (intro moved [OF that(1)]) (auto simp: make_session_def)
  show "conn_inv (dial_install a key e i s)" if "at_task a (DpInstall key e i) s"
    using moved [OF that, of "snd (InstallSession i key (Some e) s)"]
    by (auto simp: dial_install_def split_def Let_def split: install.split option.split)
  show "conn_inv (serve_install a c i s)" if "at_task a (SvInstall c i) s"
    using moved [OF that, of "snd (InstallSession i [] None s)"]
    by (auto simp: serve_install_def split_def Let_def split: install.split option.split)
  show "conn_inv (dial_finish a key e made s)" if "at_task a (DpFinish key e made) s"
    using moved [OF that, of "snd (finish_establishing key e made s)"]
    by (auto simp: dial_finish_def split_def Let_def split: option.split)
  show "conn_inv (accept_connection registered s)" by (rule conn_inv_accept [OF I wf])
  have dropped: "conn_inv (set_task a q (erase_handshake c (s\<lparr>sw_accepted := x, sw_links := ls\<rparr>)))"
    if "at_task a p s" "serve_conn p = Some c" "serve_conn q = None" "length ls \<le> length (sw_links s) + 1" for x ls p q
    using conn_inv_drop [OF I that] by (simp add: conn_inv_def set_task_def erase_handshake_def)
  show "conn_inv (set_task a q (erase_handshake c s))"
    if "at_task a p s" "p = SvPublish c i \<and> q = SvClose i \<or> p = SvFinish c \<and> q = SvDone"
    using dropped [OF that(1), of q "sw_links s" "sw_accepted s"] that(2) by auto
  have few: "length (filter P (sw_links s @ [v])) \<le> length (sw_links s) + 1" for P
    using length_filter_le [of P "sw_links s @ [v]"] by simp
  show "conn_inv (serve_live a c v s)" if "at_task a (SvLive c v) s"
    unfolding serve_live_def by (rule dropped [OF that _ _ few]) simp_all
  show "conn_inv (ServerV2Seal reason s)" by (rule keep) (simp_all add: ServerV2Seal_def Let_def)
  show "conn_inv (seal_owner reason s)" by (rule keep) (simp_all add: seal_owner_def SessionOwnerSeal_def split_def Let_def)
  have "conn_inv (w\<lparr>sw_sealers := xs\<rparr>)" if "retire s w" for xs
    by (rule conn_inv_fields [OF retired [OF that]]) simp_all
  then show "conn_inv (w\<lparr>sw_sealers := (sw_sealers s)[b := (ks, cs)]\<rparr>)" "conn_inv (w\<lparr>sw_sealers := (sw_sealers s)[b := ([], cs)]\<rparr>)"
    if "retire s w" for ks cs using that by blast+
qed

section \<open>Who closes a connection\<close>

definition covered :: "OwnerWorld \<Rightarrow> nat \<Rightarrow> bool" where
  "covered s c \<longleftrightarrow> closing s c \<or> (\<exists>a p. at_task a p s \<and> c \<in> duty s p)
     \<or> (\<exists>x \<in> set (ow_by_identity s). sh_conn (ow_cores s ! snd x) = c)"

definition seals_pending :: "OwnerWorld \<Rightarrow> bool" where
  "seals_pending s \<longleftrightarrow> ow_closed s \<longrightarrow> (\<forall>x \<in> set (ow_by_identity s).
     closing s (sh_conn (ow_cores s ! snd x)) \<or> (\<exists>y \<in> set (sw_sealers s). snd x \<in> set (fst y)))"

definition duty_inv :: "OwnerWorld \<Rightarrow> bool" where
  "duty_inv s \<longleftrightarrow> (\<forall>c < length (ow_conns s). covered s c) \<and> seals_pending s"

lemma coveredE:
  assumes "covered s c"
  obtains (closing) "closing s c" | (task) b q where "at_task b q s" "c \<in> duty s q"
  | (installed) x where "x \<in> set (ow_by_identity s)" "sh_conn (ow_cores s ! snd x) = c"
  using assms by (auto simp: covered_def)

lemma covered_task: "at_task a p s \<Longrightarrow> c \<in> duty s p \<Longrightarrow> covered s c"
  by (auto simp: covered_def)

lemma covered_installed: "x \<in> set (ow_by_identity s) \<Longrightarrow> covered s (sh_conn (ow_cores s ! snd x))"
  by (auto simp: covered_def)

lemma duty_same:
  assumes "task_ok nc (length (ow_cores s)) ne p"
    and "\<And>i. i < length (ow_cores s) \<Longrightarrow> sh_conn (ow_cores t ! i) = sh_conn (ow_cores s ! i)"
    and "\<And>key e err. p = DpFinish key e (Inl err) \<Longrightarrow> es_conn (ow_ests t ! e) = es_conn (ow_ests s ! e)"
  shows "duty t p = duty s p"
proof (cases p)
  case (DpFinish key e made)
  then show ?thesis using assms(3) by (cases made) auto
qed (use assms(1,2) in auto)

lemma identity_conn:
  assumes "world_wf s" "x \<in> set (ow_by_identity s)"
  shows "snd x < length (ow_cores s)" "sh_conn (ow_cores s ! snd x) < length (ow_conns s)"
  using assms by (auto simp: world_wf_def owner_wf_def released_ok_def)

lemma duty_retire:
  assumes "world_wf s" "retire s t" "at_task a p s"
  shows "duty t p = duty s p"
  by (rule duty_same [OF world_wf_at [OF assms(1,3)]]) (simp_all add: retire_core(1) [OF assms(2)] retire_lengths(3) [OF assms(2)])

lemma retire_installed:
  assumes "retire s t" "world_wf s" "x \<in> set (ow_by_identity s)"
  shows "x \<in> set (ow_by_identity t) \<or> closing t (sh_conn (ow_cores s ! snd x))"
  using assms(1,3) identity_conn(1) [OF assms(2,3)] by (auto simp: retire_def only_closes_def)

lemma duty_cong:
  assumes "ow_cores t = ow_cores s" "ow_ests t = ow_ests s"
  shows "duty t p = duty s p"
proof (cases p)
  case (DpFinish key e made)
  then show ?thesis using assms by (cases made) auto
qed (use assms in auto)

lemma set_task_view [simp]:
  "closing (set_task a q w) c = closing w c" "ow_by_identity (set_task a q w) = ow_by_identity w"
  "ow_cores (set_task a q w) = ow_cores w" "ow_conns (set_task a q w) = ow_conns w" "ow_closed (set_task a q w) = ow_closed w"
  "sw_sealers (set_task a q w) = sw_sealers w"
  by (simp_all add: closing_def set_task_def)

lemma duty_set_task [simp]: "duty (set_task a q w) p = duty w p"
  by (rule duty_cong) (simp_all add: set_task_def)

lemma covered_retire:
  assumes "covered s c" "c < length (ow_conns s)" "world_wf s" "retire s t"
  shows "covered t c"
  using assms(1)
proof (cases rule: coveredE)
  case closing
  then show ?thesis using retire_closing [OF assms(4,2)] by (simp add: covered_def)
next
  case (task b q)
  then show ?thesis using duty_retire [OF assms(3,4) task(1)] at_task_more [OF retire_world [OF assms(4)]] covered_task by blast
next
  case (installed x)
  then show ?thesis
    using retire_installed [OF assms(4,3) installed(1)] retire_core(1) [OF assms(4) identity_conn(1) [OF assms(3) installed(1)]]
    by (auto simp: covered_def)
qed

lemma covered_move:
  assumes "covered w c" "at_task a p w" "c \<in> duty w p \<Longrightarrow> c \<in> duty w q \<or> closing w c"
  shows "covered (set_task a q w) c"
  using assms(1)
proof (cases rule: coveredE)
  case (task b r)
  show ?thesis
  proof (cases "b = a")
    case True
    then have "c \<in> duty w q \<or> closing w c" using task assms(2,3) by (auto simp: at_task_def)
    moreover have "at_task a q (set_task a q w)" using assms(2) by (simp add: at_task_def set_task_def)
    ultimately show ?thesis by (auto simp: covered_def)
  next
    case False
    then have "at_task b r (set_task a q w)" using task(1) by (simp add: at_set_task)
    then show ?thesis using task(2) by (intro covered_task [of b r]) simp_all
  qed
qed (auto simp: covered_def)

lemma seals_pending_retire:
  assumes "seals_pending s" "world_wf s" "retire s t"
  shows "seals_pending t"
  unfolding seals_pending_def
proof (intro impI ballI)
  fix x assume x: "ow_closed t" "x \<in> set (ow_by_identity t)"
  then have old: "x \<in> set (ow_by_identity s)" "ow_closed s"
    using assms(3) retire_lengths(6) [OF assms(3)] by (auto simp: retire_def only_closes_def)
  note i = identity_conn [OF assms(2) old(1)]
  show "closing t (sh_conn (ow_cores t ! snd x)) \<or> (\<exists>y \<in> set (sw_sealers t). snd x \<in> set (fst y))"
    using assms(1) old retire_closing [OF assms(3) i(2)] retire_core(1) [OF assms(3) i(1)] world_fields(10) [OF retire_world [OF assms(3)]]
    by (auto simp: seals_pending_def)
qed

lemma seals_pending_set_task [simp]: "seals_pending (set_task a q s) = seals_pending s"
  by (simp add: seals_pending_def)

lemma duty_inv_retire: "duty_inv s \<Longrightarrow> world_wf s \<Longrightarrow> retire s t \<Longrightarrow> duty_inv t"
  using covered_retire [of s _ t] seals_pending_retire [of s t] retire_lengths(2) [of s t] by (simp add: duty_inv_def)

lemma duty_inv_move:
  assumes "duty_inv w" "at_task a p w" "\<forall>c \<in> duty w p. c \<in> duty w q \<or> closing w c"
  shows "duty_inv (set_task a q w)"
  using assms covered_move [OF _ assms(2)] by (simp add: duty_inv_def)

lemma covered_cong:
  assumes "covered s c" "ow_conns t = ow_conns s" "ow_by_identity t = ow_by_identity s" "ow_cores t = ow_cores s" "ow_ests t = ow_ests s"
    and "\<And>a p. at_task a p s \<Longrightarrow> at_task a p t"
  shows "covered t c"
  using assms(1,6) duty_cong [OF assms(4,5)] unfolding covered_def closing_def by (auto simp: assms(2-4))

lemma duty_inv_fields:
  assumes "duty_inv s" "ow_conns t = ow_conns s" "ow_by_identity t = ow_by_identity s" "ow_cores t = ow_cores s" "ow_ests t = ow_ests s"
    and "ow_closed t = ow_closed s" "\<And>a p. at_task a p s \<Longrightarrow> at_task a p t" "set (sw_sealers s) \<subseteq> set (sw_sealers t)"
  shows "duty_inv t"
proof -
  have "seals_pending t"
    using assms(1,8) unfolding duty_inv_def seals_pending_def closing_def assms(2-4,6) by blast
  then show ?thesis using assms(1,2) covered_cong [OF _ assms(2-5,7)] by (simp add: duty_inv_def)
qed

lemma covered_here: "a < length (sw_tasks t) \<Longrightarrow> c \<in> duty t q \<Longrightarrow> covered (set_task a q t) c"
  by (rule covered_task [of a q]) (simp_all add: at_set_task)

lemma covered_tasks:
  assumes "covered s c" "world_wf s" "at_task a p s" "sw_tasks t = sw_tasks s" "closing s c \<Longrightarrow> closing t c"
    and "\<And>i. i < length (ow_cores s) \<Longrightarrow> sh_conn (ow_cores t ! i) = sh_conn (ow_cores s ! i)"
    and "\<And>b key e err. at_task b (DpFinish key e (Inl err)) s \<Longrightarrow> b \<noteq> a \<Longrightarrow> es_conn (ow_ests t ! e) = es_conn (ow_ests s ! e)"
    and "\<And>x. x \<in> set (ow_by_identity s) \<Longrightarrow> sh_conn (ow_cores s ! snd x) = c \<Longrightarrow> covered (set_task a q t) c"
    and "c \<in> duty s p \<Longrightarrow> covered (set_task a q t) c"
  shows "covered (set_task a q t) c"
  using assms(1)
proof (cases rule: coveredE)
  case closing
  then show ?thesis using assms(5) by (simp add: covered_def)
next
  case (task b r)
  show ?thesis
  proof (cases "b = a")
    case True
    then show ?thesis using task assms(3,9) by (auto simp: at_task_def)
  next
    case False
    have "duty t r = duty s r"
      by (rule duty_same [OF world_wf_at [OF assms(2) task(1)] assms(6)]) (use assms(7) task(1) False in auto)
    moreover have "at_task b r (set_task a q t)" using task(1) False at_task_cong [OF assms(4)] by (simp add: at_set_task)
    ultimately show ?thesis using task(2) by (intro covered_task [of b r]) simp_all
  qed
next
  case (installed x)
  then show ?thesis using assms(8) by blast
qed

lemma seals_pending_same:
  assumes "seals_pending s" "world_wf s" "ow_closed t = ow_closed s" "set (ow_by_identity t) \<subseteq> set (ow_by_identity s) \<or> \<not> ow_closed s"
    and "\<And>c. c < length (ow_conns s) \<Longrightarrow> closing s c \<Longrightarrow> closing t c" "set (sw_sealers s) \<subseteq> set (sw_sealers t)"
    and "\<And>i. i < length (ow_cores s) \<Longrightarrow> sh_conn (ow_cores t ! i) = sh_conn (ow_cores s ! i)"
  shows "seals_pending t"
  unfolding seals_pending_def
proof (intro impI ballI)
  fix x assume x: "ow_closed t" "x \<in> set (ow_by_identity t)"
  then have old: "x \<in> set (ow_by_identity s)" "ow_closed s" using assms(3,4) by auto
  note i = identity_conn [OF assms(2) old(1)]
  show "closing t (sh_conn (ow_cores t ! snd x)) \<or> (\<exists>y \<in> set (sw_sealers t). snd x \<in> set (fst y))"
    using assms(1) old assms(5) [OF i(2)] assms(6) assms(7) [OF i(1)] unfolding seals_pending_def by (metis subsetD)
qed

lemma duty_inv_ests:
  assumes "duty_inv s" "world_wf s" "ow_conns t = ow_conns s" "ow_by_identity t = ow_by_identity s" "ow_cores t = ow_cores s"
    and "\<And>e. e < length (ow_ests s) \<Longrightarrow> es_conn (ow_ests t ! e) = es_conn (ow_ests s ! e)"
    and "ow_closed t = ow_closed s" "\<And>a p. at_task a p s \<Longrightarrow> at_task a p t" "set (sw_sealers s) \<subseteq> set (sw_sealers t)"
  shows "duty_inv t"
proof -
  have duty: "duty t p = duty s p" if "at_task a p s" for a p
    by (rule duty_same [OF world_wf_at [OF assms(2) that]]) (use assms(5,6) world_wf_at [OF assms(2) that] in auto)
  have "covered t c" if "covered s c" for c
    using that assms(8) duty unfolding covered_def closing_def assms(3-5) by blast
  moreover have "seals_pending t"
    by (rule seals_pending_same [of s]) (use assms(1,2,3,4,5,7,9) in \<open>auto simp: duty_inv_def closing_def\<close>)
  ultimately show ?thesis using assms(1,3) by (simp add: duty_inv_def)
qed

lemma duty_inv_lookup:
  assumes "duty_inv s" "world_wf s"
  shows "duty_inv (dial_lookup key s)"
proof -
  let ?t = "sweep_release (map snd (ow_by_identity s)) s"
  note swept = sweep_identities [OF assms(2)]
  have t: "duty_inv ?t" by (rule duty_inv_retire [OF assms swept])
  note wf = world_wf_retire [OF assms(2) swept]
  let ?u = "?t\<lparr>ow_by_endpoint := AList.delete key (ow_by_endpoint ?t)\<rparr>"
  have u: "duty_inv ?u" by (rule duty_inv_fields [OF t]) (simp_all add: at_task_def)
  have "duty_inv (add_task (DpDial key e) (?u\<lparr>ow_ests := ow_ests ?u @ [new_establishing], ow_establishing := xs\<rparr>))" for e xs
    by (rule duty_inv_ests [OF t wf]) (simp_all add: add_task_def at_task_def nth_append)
  then show ?thesis using assms(1) t u
    by (auto simp: dial_lookup_def GetSession_def Let_def split_def split: option.split lookup.split)
qed

lemma closing_add_conn: "c < length (ow_conns s) \<Longrightarrow> closing (add_conn d s) c = closing s c"
  by (simp add: closing_def add_conn_def nth_append)

lemma duty_inv_connected:
  assumes "duty_inv s" "sound s" "at_task a (DpDial key e) s"
  shows "duty_inv (dial_connected a key e s)"
proof -
  let ?c = "length (ow_conns s)"
  let ?t = "snd (attach_conn e ?c (add_conn fresh_conn s))"
  have wf: "world_wf s" and est: "est_inv s" using assms(2) by (simp_all add: sound_def)
  have e: "e < length (ow_ests s)" using world_wf_at [OF wf assms(3)] by simp
  have tasks: "sw_tasks ?t = sw_tasks s" using world_fields(9) [of ?t "add_conn fresh_conn s"] by (simp add: add_conn_def)
  have sealers: "sw_sealers ?t = sw_sealers s" using world_fields(10) [of ?t "add_conn fresh_conn s"] by (simp add: add_conn_def)
  have view: "ow_by_identity ?t = ow_by_identity s" "ow_cores ?t = ow_cores s" "ow_closed ?t = ow_closed s"
    "length (ow_conns ?t) = Suc ?c" "ow_ests ?t = (ow_ests s)[e := (ow_ests s ! e)\<lparr>es_conn := Some ?c\<rparr>]"
    by (simp_all add: attach_conn_def Let_def add_conn_def on_est_def)
  have closes: "closing ?t c" if "closing s c" "c < ?c" for c
  proof -
    have "closing (on_est e f (add_conn fresh_conn s)) c" for f using that closing_add_conn [OF that(2)] by (simp add: closing_def)
    then show ?thesis by (simp add: attach_conn_def Let_def closing_RequestConnClose)
  qed
  have "duty_inv (set_task a q ?t)" if q: "?c \<in> duty ?t q" for q
  proof -
    have here: "covered (set_task a q ?t) ?c"
      using q assms(3) tasks by (intro covered_here) (auto simp: at_task_def)
    have "covered (set_task a q ?t) c" if c: "c < ?c" for c
    proof (rule covered_tasks [OF _ wf assms(3) tasks])
      show "covered s c" using assms(1) c by (simp add: duty_inv_def)
      show "es_conn (ow_ests ?t ! e') = es_conn (ow_ests s ! e')" if "at_task b (DpFinish k e' (Inl err)) s" "b \<noteq> a" for b k e' err
        using est_inv_other [OF est assms(3) that(1)] that(2) by (cases "e' = e") (auto simp: view(5))
      show "covered (set_task a q ?t) c" if "x \<in> set (ow_by_identity s)" "sh_conn (ow_cores s ! snd x) = c" for x
        using that by (auto simp: covered_def view)
    qed (use closes c in \<open>auto simp: view(2)\<close>)
    moreover have "seals_pending ?t"
      by (rule seals_pending_same [of s]) (use assms(1) wf closes in \<open>auto simp: duty_inv_def view sealers\<close>)
    ultimately show ?thesis using here view(4) by (auto simp: duty_inv_def less_Suc_eq)
  qed
  then show ?thesis using e by (auto simp: dial_connected_def split_def Let_def view(5) split: option.split)
qed

lemma duty_inv_agrees:
  assumes "duty_inv s" "world_wf s" "at_task a p s" "duty s p = {c}" "duty (make_session peer outbound c s) q = {c}"
  shows "duty_inv (set_task a q (make_session peer outbound c s))"
proof -
  let ?t = "make_session peer outbound c s"
  have old: "sh_conn (ow_cores ?t ! i) = sh_conn (ow_cores s ! i)" if "i < length (ow_cores s)" for i
    using that by (simp add: make_session_def nth_append)
  have view: "sw_tasks ?t = sw_tasks s" "sw_sealers ?t = sw_sealers s" "ow_by_identity ?t = ow_by_identity s" "ow_closed ?t = ow_closed s"
    by (simp_all add: make_session_def)
  have "covered (set_task a q ?t) d" if d: "d < length (ow_conns s)" for d
  proof (rule covered_tasks [OF _ assms(2,3) view(1)])
    show "covered s d" using assms(1) d by (simp add: duty_inv_def)
    show "covered (set_task a q ?t) d" if "d \<in> duty s p"
      using that assms(3-5) view(1) by (intro covered_here) (auto simp: at_task_def)
    show "covered (set_task a q ?t) d" if "x \<in> set (ow_by_identity s)" "sh_conn (ow_cores s ! snd x) = d" for x
      using that old identity_conn(1) [OF assms(2) that(1)] view(3) by (auto simp: covered_def)
  qed (simp_all add: old closing_def)
  moreover have "seals_pending ?t"
    by (rule seals_pending_same [of s]) (use assms(1,2) old in \<open>auto simp: duty_inv_def view closing_def\<close>)
  ultimately show ?thesis by (simp add: duty_inv_def)
qed

lemma update_other: "x \<in> set al \<Longrightarrow> fst x \<noteq> k \<Longrightarrow> x \<in> set (AList.update k v al)"
  by (induction al) (auto split: if_splits)

lemma update_here: "(k, v) \<in> set (AList.update k v al)"
  by (induction al) auto

lemma install_view:
  assumes "j < length (ow_cores s)"
  shows "sh_conn (ow_cores (snd (InstallSession i key est s)) ! j) = sh_conn (ow_cores s ! j)"
  using assms by (simp add: InstallSession_def Let_def on_core_nth split: option.split)

lemma install_closing: "closing s c \<Longrightarrow> closing (snd (InstallSession i key est s)) c"
proof -
  assume c: "closing s c"
  have "closing (install_take i key ev w) c" if "ow_conns w = ow_conns s" for ev and w :: "'a SessionOwnerState_scheme"
    using c that by (simp add: closing_def)
  moreover have "closing (map_endpoint key w (RequestConnClose d (on_core i f s))) c" for w d f
    using c closing_RequestConnClose [of d "on_core i f s" c] by (simp add: closing_def)
  ultimately show ?thesis using c by (simp add: InstallSession_def Let_def split: option.split)
qed

lemma InstallSession_cases:
  obtains (failed) e where "InstallSession i key est s = (InFail e, s)"
  | (lost) w where "\<not> ow_closed s" "map_of (ow_by_identity s) (sh_peer_identity (ow_cores s ! i)) = Some w"
      "string_less (co_local_identity (ow_options s)) (sh_peer_identity (ow_cores s ! i)) \<noteq> sh_outbound (ow_cores s ! i)"
      "InstallSession i key est s = (InLost w, map_endpoint key w
         (RequestConnClose (sh_conn (ow_cores s ! i)) (on_core i (sh_dead_update (\<lambda>_. True)) s)))"
  | (won) w where "\<not> ow_closed s" "map_of (ow_by_identity s) (sh_peer_identity (ow_cores s ! i)) = Some w"
      "string_less (co_local_identity (ow_options s)) (sh_peer_identity (ow_cores s ! i)) = sh_outbound (ow_cores s ! i)"
      "InstallSession i key est s = (InWon (Some w), install_take i key (Some w) s)"
  | (new) "\<not> ow_closed s" "map_of (ow_by_identity s) (sh_peer_identity (ow_cores s ! i)) = None"
      "occupied_by_others est s < co_max_sessions (ow_options s)"
      "InstallSession i key est s = (InWon None, install_take i key None
         (case est of None \<Rightarrow> s | Some e \<Rightarrow> on_est e (es_reserved_update (\<lambda>_. False)) s))"
proof (cases "ow_closed s")
  case True
  then show ?thesis using failed by (simp add: InstallSession_def)
next
  case False
  show ?thesis
  proof (cases "map_of (ow_by_identity s) (sh_peer_identity (ow_cores s ! i))")
    case None
    then show ?thesis using False failed new
      by (cases "occupied_by_others est s < co_max_sessions (ow_options s)") (simp_all add: InstallSession_def Let_def)
  next
    case (Some w)
    then show ?thesis using False lost [OF False Some] won [OF False Some]
      by (cases "string_less (co_local_identity (ow_options s)) (sh_peer_identity (ow_cores s ! i)) = sh_outbound (ow_cores s ! i)")
        (simp_all add: InstallSession_def Let_def)
  qed
qed

lemma covered_install:
  assumes "duty_inv s" "sound s" "at_task a p s" "i < length (ow_cores s)" "duty s p = {sh_conn (ow_cores s ! i)}" "c < length (ow_conns s)"
    and "\<And>e. fst (InstallSession i key est s) = InFail e \<Longrightarrow> sh_conn (ow_cores s ! i) \<in> duty (snd (InstallSession i key est s)) q"
    and "\<And>w. fst (InstallSession i key est s) = InWon (Some w) \<Longrightarrow> sh_conn (ow_cores s ! w) \<in> duty (snd (InstallSession i key est s)) q"
  shows "covered (set_task a q (snd (InstallSession i key est s))) c"
proof -
  let ?t = "snd (InstallSession i key est s)" and ?peer = "sh_peer_identity (ow_cores s ! i)"
  have wf: "world_wf s" using assms(2) by (simp add: sound_def)
  have keys: "distinct (map fst (ow_by_identity s))" using assms(2) by (simp add: sound_def est_inv_def quota_ok_def)
  have tasks: "sw_tasks ?t = sw_tasks s" by (rule world_fields(9)) simp
  have conn: "sh_conn (ow_cores s ! i) < length (ow_conns s)"
    using world_wf_released [OF wf] assms(4) by (simp add: released_ok_def)
  have a: "a < length (sw_tasks ?t)" using assms(3) tasks by (simp add: at_task_def)
  have "covered (set_task a q ?t) c"
    if own: "covered (set_task a q ?t) (sh_conn (ow_cores s ! i))"
      and installed: "\<And>x. x \<in> set (ow_by_identity s) \<Longrightarrow> sh_conn (ow_cores s ! snd x) = c \<Longrightarrow> covered (set_task a q ?t) c"
    by (rule covered_tasks [OF _ wf assms(3) tasks _ _ _ installed])
      (use assms(1,5,6) own in \<open>auto simp: duty_inv_def install_view install_closing\<close>)
  moreover have "covered (set_task a q ?t) (sh_conn (ow_cores s ! i))
    \<and> (\<forall>x \<in> set (ow_by_identity s). sh_conn (ow_cores s ! snd x) = c \<longrightarrow> covered (set_task a q ?t) c)"
  proof -
    have kept: "covered (set_task a q ?t) (sh_conn (ow_cores s ! snd x))" if "x \<in> set (ow_by_identity s)" "x \<in> set (ow_by_identity ?t)" for x
      using covered_installed [of x "set_task a q ?t"] that(2) install_view [OF identity_conn(1) [OF wf that(1)]] by simp
    have mine: "covered (set_task a q ?t) (sh_conn (ow_cores s ! i))" if "ow_by_identity ?t = AList.update ?peer i (ow_by_identity s)"
      using that update_here [of ?peer i "ow_by_identity s"] install_view [OF assms(4)] by (fastforce simp: covered_def)
    show ?thesis
    proof (cases rule: InstallSession_cases [where s = s and i = i and est = est and key = key])
      case (failed e)
      then show ?thesis using covered_here [OF a assms(7)] kept by auto
    next
      case (lost w)
      have "closing ?t (sh_conn (ow_cores s ! i))"
        using closing_RequestConnClose [of "sh_conn (ow_cores s ! i)" "on_core i (sh_dead_update (\<lambda>_. True)) s" "sh_conn (ow_cores s ! i)"] conn
        by (simp add: lost(4) closing_def)
      then show ?thesis using kept by (auto simp: covered_def lost(4))
    next
      case (won w)
      have "covered (set_task a q ?t) (sh_conn (ow_cores s ! snd x))" if x: "x \<in> set (ow_by_identity s)" for x
      proof (cases "fst x = ?peer")
        case True
        then have "snd x = w" using map_of_is_SomeI [OF keys, of ?peer "snd x"] x won(2) by (cases x) auto
        then show ?thesis using covered_here [OF a assms(8)] won(4) by simp
      next
        case False
        then show ?thesis using kept [OF x] update_other [OF x False, of i] won(4) by simp
      qed
      then show ?thesis using mine won(4) by auto
    next
      case new
      have "fst x \<noteq> ?peer" if "x \<in> set (ow_by_identity s)" for x using new(2) that by (force simp: map_of_eq_None_iff)
      then have "covered (set_task a q ?t) (sh_conn (ow_cores s ! snd x))" if "x \<in> set (ow_by_identity s)" for x
        using kept [OF that] update_other [OF that] that new(4) by (auto split: option.splits)
      then show ?thesis using mine new(4) by (auto split: option.splits)
    qed
  qed
  ultimately show ?thesis by blast
qed

lemma install_pending:
  assumes "duty_inv s" "world_wf s"
  shows "seals_pending (snd (InstallSession i key est s))"
proof (rule seals_pending_same [of s])
  show "set (ow_by_identity (snd (InstallSession i key est s))) \<subseteq> set (ow_by_identity s) \<or> \<not> ow_closed s"
    by (cases "ow_closed s") (simp_all add: InstallSession_def)
  show "set (sw_sealers s) \<subseteq> set (sw_sealers (snd (InstallSession i key est s)))"
    using world_fields(10) [of "snd (InstallSession i key est s)" s] by simp
qed (use assms in \<open>simp_all add: duty_inv_def install_closing install_view\<close>)

lemma duty_inv_installs:
  assumes "duty_inv s" "sound s"
  shows "at_task a (DpInstall key e i) s \<Longrightarrow> duty_inv (dial_install a key e i s)"
    "at_task a (SvInstall c i) s \<Longrightarrow> duty_inv (serve_install a c i s)"
proof -
  have wf: "world_wf s" using assms(2) by (simp add: sound_def)
  have put: "duty_inv (set_task a q (snd (InstallSession i key est s)))"
    if "at_task a p s" "i < length (ow_cores s)" "duty s p = {sh_conn (ow_cores s ! i)}"
      "\<And>e. fst (InstallSession i key est s) = InFail e \<Longrightarrow> sh_conn (ow_cores s ! i) \<in> duty (snd (InstallSession i key est s)) q"
      "\<And>w. fst (InstallSession i key est s) = InWon (Some w) \<Longrightarrow> sh_conn (ow_cores s ! w) \<in> duty (snd (InstallSession i key est s)) q"
    for p q key est
    unfolding duty_inv_def using covered_install [OF assms that(1-3)] that(4,5) install_pending [OF assms(1) wf] by simp
  show "duty_inv (dial_install a key e i s)" if at: "at_task a (DpInstall key e i) s"
  proof -
    have i: "i < length (ow_cores s)" "e < length (ow_ests s)" using world_wf_at [OF wf at] by simp_all
    show ?thesis
      unfolding dial_install_def split_def Let_def
      by (rule put [OF at i(1)])
        (use i world_wf_InstallSession(3) [OF wf i(1), of "Some e" key] in \<open>auto simp: install_view split: install.split option.split\<close>)
  qed
  show "duty_inv (serve_install a c i s)" if at: "at_task a (SvInstall c i) s"
  proof -
    have i: "i < length (ow_cores s)" using world_wf_at [OF wf at] by simp
    show ?thesis
      unfolding serve_install_def split_def Let_def
      by (rule put [OF at i])
        (use i world_wf_InstallSession(3) [OF wf i, of None "[]"] in \<open>auto simp: install_view split: install.split option.split\<close>)
  qed
qed

lemma duty_inv_finish:
  assumes "duty_inv s" "sound s" "at_task a (DpFinish key e made) s"
  shows "duty_inv (dial_finish a key e made s)"
proof -
  let ?t = "snd (finish_establishing key e made s)"
  have wf: "world_wf s" and est: "est_inv s" using assms(2) by (simp_all add: sound_def)
  have view: "sw_tasks ?t = sw_tasks s" "sw_sealers ?t = sw_sealers s"
    using world_fields(9,10) [OF finish_establishing_more] by simp_all
  have same: "ow_by_identity ?t = ow_by_identity s" "ow_closed ?t = ow_closed s" by (simp_all add: finish_establishing_def Let_def)
  have other: "ow_ests ?t ! j = ow_ests s ! j" if "j \<noteq> e" for j
    using that by (simp add: finish_establishing_def Let_def on_est_def)
  have "duty_inv (set_task a q ?t)" if q: "\<And>c. c \<in> duty s (DpFinish key e made) \<Longrightarrow> c \<in> duty ?t q" for q
  proof -
    have "covered (set_task a q ?t) c" if c: "c < length (ow_conns s)" for c
    proof (rule covered_tasks [OF _ wf assms(3) view(1)])
      show "covered s c" using assms(1) c by (simp add: duty_inv_def)
      show "es_conn (ow_ests ?t ! e') = es_conn (ow_ests s ! e')" if "at_task b (DpFinish k e' (Inl err)) s" "b \<noteq> a" for b k e' err
        using est_inv_other [OF est assms(3) that(1)] that(2) other by (cases "e' = e") auto
      show "covered (set_task a q ?t) c" if "c \<in> duty s (DpFinish key e made)"
        using q [OF that] assms(3) view(1) by (intro covered_here) (simp_all add: at_task_def)
      show "covered (set_task a q ?t) c" if "x \<in> set (ow_by_identity s)" "sh_conn (ow_cores s ! snd x) = c" for x
        using covered_installed [of x "set_task a q ?t"] that same by simp
    qed (simp_all add: closing_def)
    moreover have "seals_pending ?t"
      by (rule seals_pending_same [of s]) (use assms(1) wf in \<open>auto simp: duty_inv_def view same closing_def\<close>)
    ultimately show ?thesis by (simp add: duty_inv_def)
  qed
  then show ?thesis
    by (cases made) (auto simp: dial_finish_def split_def Let_def finish_establishing_def split: option.split)
qed

lemma duty_inv_accept:
  assumes "duty_inv s" "world_wf s"
  shows "duty_inv (accept_connection registered s)"
proof -
  let ?t = "add_conn fresh_conn s" and ?c = "length (ow_conns s)"
  have grown: "duty_inv w" if conns: "length (ow_conns w) = Suc ?c" "\<And>c. c < ?c \<Longrightarrow> closing s c \<Longrightarrow> closing w c" "covered w ?c"
    and same: "ow_by_identity w = ow_by_identity s" "ow_cores w = ow_cores s" "ow_ests w = ow_ests s" "ow_closed w = ow_closed s"
      "sw_sealers w = sw_sealers s" "\<And>a p. at_task a p s \<Longrightarrow> at_task a p w" for w
  proof -
    have "covered w c" if c: "c < ?c" for c
    proof -
      have "covered s c" using assms(1) c by (simp add: duty_inv_def)
      then show ?thesis
      proof (cases rule: coveredE)
        case (task b q)
        then show ?thesis using same(6) duty_cong [OF same(2,3)] covered_task by blast
      next
        case (installed x)
        then show ?thesis using covered_installed [of x w] same(1,2) by simp
      qed (use conns(2) c in \<open>simp add: covered_def\<close>)
    qed
    moreover have "seals_pending w"
      by (rule seals_pending_same [of s]) (use assms conns(2) in \<open>auto simp: duty_inv_def same\<close>)
    ultimately show ?thesis using conns by (auto simp: duty_inv_def less_Suc_eq)
  qed
  note closed = closing_RequestConnClose [of ?c ?t] closing_RequestConnClose [of ?c "?t\<lparr>sw_handshakes := xs\<rparr>" for xs]
  have "duty_inv (RequestConnClose ?c ?t)"
    by (rule grown) (simp_all add: closed covered_def closing_add_conn, simp_all add: add_conn_def at_task_def RequestConnClose_def)
  moreover have "duty_inv (erase_handshake ?c (RequestConnClose ?c (?t\<lparr>sw_handshakes := xs\<rparr>)))" for xs
    by (rule grown) (auto simp: covered_def closing_def add_conn_def at_task_def RequestConnClose_def erase_handshake_def nth_append nth_list_update)
  moreover have "duty_inv (add_task (SvHandshake ?c) (?t\<lparr>sw_handshakes := xs\<rparr>))" for xs
    by (rule grown) (auto simp: closing_def add_conn_def at_task_def add_task_def nth_append
        intro!: covered_task [of "length (sw_tasks s)" "SvHandshake ?c"])
  ultimately show ?thesis by (simp add: accept_connection_def Let_def)
qed

interpretation duties: owner_invariant duty_inv
proof
  fix s t w :: OwnerWorld and a b e c i v :: nat and p q and key peer :: bytes and made :: "nat result" and outbound registered :: bool
    and reason :: Error
  assume I: "duty_inv s"
  note keep = duty_inv_fields [OF I]
  show "duty_inv t" if "same_core s t" using that by (intro keep) (auto simp: same_core_def at_task_def)
  assume sound: "sound s"
  then have wf: "world_wf s" by (simp add: sound_def)
  show retired: "duty_inv t" if "retire s t" for t by (rule duty_inv_retire [OF I wf that])
  show "duty_inv (set_task a q w)"
    if "at_task a p s" "retire s w" "\<forall>c \<in> duty s p. c \<in> duty w q \<or> closing w c"
    using that(1,3) at_task_more [OF retire_world [OF that(2)]] duty_retire [OF wf that(2,1)]
    by (intro duty_inv_move [OF retired [OF that(2)], of a p]) simp_all
  show "duty_inv (dial_lookup key s)" by (rule duty_inv_lookup [OF I wf])
  show "duty_inv (dial_connected a key e s)" if "at_task a (DpDial key e) s" by (rule duty_inv_connected [OF I sound that])
  show "duty_inv (set_task a q (make_session peer outbound c s))"
    if "at_task a p s" "p = DpHandshake key e c \<and> q = DpInstall key e (length (ow_cores s)) \<and> outbound
        \<or> p = SvHandshake c \<and> q = SvPublish c (length (ow_cores s)) \<and> \<not> outbound"
    by (rule duty_inv_agrees [OF I wf that(1)]) (use that(2) in \<open>auto simp: make_session_def\<close>)
  show "duty_inv (dial_install a key e i s)" if "at_task a (DpInstall key e i) s" by (rule duty_inv_installs(1) [OF I sound that])
  show "duty_inv (serve_install a c i s)" if "at_task a (SvInstall c i) s" by (rule duty_inv_installs(2) [OF I sound that])
  show "duty_inv (dial_finish a key e made s)" if "at_task a (DpFinish key e made) s" by (rule duty_inv_finish [OF I sound that])
  show "duty_inv (accept_connection registered s)" by (rule duty_inv_accept [OF I wf])
  have unlisted: "duty_inv (set_task a q w)" if "at_task a p s" "duty s p \<subseteq> duty s q" "ow_conns w = ow_conns s"
    "ow_by_identity w = ow_by_identity s" "ow_cores w = ow_cores s" "ow_ests w = ow_ests s" "ow_closed w = ow_closed s"
    "sw_tasks w = sw_tasks s" "sw_sealers w = sw_sealers s" for p q w
  proof -
    have "duty_inv w" by (rule keep [OF that(3-7)]) (simp_all add: that(8,9) at_task_def)
    moreover have "at_task a p w" using that(1,8) by (simp add: at_task_def)
    ultimately show ?thesis using that(2) duty_cong [OF that(5,6)] by (intro duty_inv_move [of w a p]) auto
  qed
  show "duty_inv (set_task a q (erase_handshake c s))"
    if "at_task a p s" "p = SvPublish c i \<and> q = SvClose i \<or> p = SvFinish c \<and> q = SvDone"
    by (rule unlisted [OF that(1)]) (use that(2) in \<open>auto simp: erase_handshake_def\<close>)
  show "duty_inv (serve_live a c v s)" if "at_task a (SvLive c v) s"
    unfolding serve_live_def by (rule unlisted [OF that]) (simp_all add: erase_handshake_def)
  show "duty_inv (ServerV2Seal reason s)" by (rule keep) (auto simp: ServerV2Seal_def Let_def at_task_def)
  show "duty_inv (seal_owner reason s)"
  proof (cases "ow_closed s")
    case True
    then show ?thesis by (intro keep) (auto simp: seal_owner_def SessionOwnerSeal_def Let_def at_task_def)
  next
    case False
    let ?t = "seal_owner reason s"
    have same: "ow_conns ?t = ow_conns s" "ow_by_identity ?t = ow_by_identity s" "ow_cores ?t = ow_cores s" "ow_ests ?t = ow_ests s"
      "\<And>a p. at_task a p s \<Longrightarrow> at_task a p ?t" "\<exists>y \<in> set (sw_sealers ?t). fst y = map snd (ow_by_identity s)"
      using False by (auto simp: seal_owner_def SessionOwnerSeal_def split_def Let_def at_task_def)
    from same(6) obtain y where y: "y \<in> set (sw_sealers ?t)" "fst y = map snd (ow_by_identity s)" by blast
    have "snd x \<in> set (fst y)" if "x \<in> set (ow_by_identity s)" for x using y(2) that by simp
    then have "seals_pending ?t" using y(1) unfolding seals_pending_def same(2) by blast
    then show ?thesis using I covered_cong [OF _ same(1-5)] same(1) by (simp add: duty_inv_def)
  qed
  have shorter: "duty_inv (w\<lparr>sw_sealers := (sw_sealers s)[b := y]\<rparr>)"
    if "retire s w" "b < length (sw_sealers s)"
      "\<And>j. j \<in> set (fst (sw_sealers s ! b)) \<Longrightarrow> j < length (ow_cores s) \<Longrightarrow> j \<in> set (fst y) \<or> closing w (sh_conn (ow_cores s ! j))" for y
  proof -
    note given = that
    let ?t = "w\<lparr>sw_sealers := (sw_sealers s)[b := y]\<rparr>"
    have w: "duty_inv w" by (rule retired [OF given(1)])
    have wf': "world_wf w" by (rule world_wf_retire [OF wf given(1)])
    have "closing w (sh_conn (ow_cores w ! snd x)) \<or> (\<exists>z \<in> set ((sw_sealers s)[b := y]). snd x \<in> set (fst z))"
      if x: "x \<in> set (ow_by_identity w)" "ow_closed w" for x
    proof -
      have j: "snd x < length (ow_cores s)" using identity_conn(1) [OF wf' x(1)] retire_lengths(1) [OF given(1)] by simp
      have sealers: "sw_sealers w = sw_sealers s" by (rule world_fields(10) [OF retire_world [OF given(1)]])
      have "closing w (sh_conn (ow_cores w ! snd x)) \<or> (\<exists>z \<in> set (sw_sealers s). snd x \<in> set (fst z))"
        using w x by (simp add: duty_inv_def seals_pending_def sealers)
      then consider "closing w (sh_conn (ow_cores w ! snd x))" | k where "k < length (sw_sealers s)" "snd x \<in> set (fst (sw_sealers s ! k))"
        by (metis in_set_conv_nth)
      then show ?thesis
      proof cases
        case 2
        show ?thesis
        proof (cases "k = b")
          case True
          then show ?thesis using 2 given(2) given(3) [OF _ j] retire_core(1) [OF given(1) j] set_update_memI [OF given(2), of y] by auto
        next
          case False
          then have "(sw_sealers s)[b := y] ! k = sw_sealers s ! k" "k < length ((sw_sealers s)[b := y])" using 2(1) by simp_all
          then show ?thesis using 2(2) nth_mem by metis
        qed
      qed simp
    qed
    then have "seals_pending ?t" by (simp add: seals_pending_def closing_def)
    moreover have "covered ?t c" if "covered w c" for c
      by (rule covered_cong [OF that]) (simp_all add: at_task_def)
    ultimately show ?thesis using w by (simp add: duty_inv_def)
  qed
  show "duty_inv (w\<lparr>sw_sealers := (sw_sealers s)[b := (ks, cs)]\<rparr>)"
    if "b < length (sw_sealers s)" "retire s w" "sw_sealers s ! b = (i # ks, cs)" "closing w (sh_conn (ow_cores s ! i))" for ks cs
    by (rule shorter [OF that(2,1)]) (use that(3,4) in auto)
  show "duty_inv (w\<lparr>sw_sealers := (sw_sealers s)[b := ([], cs)]\<rparr>)"
    if "b < length (sw_sealers s)" "retire s w" "sw_sealers s ! b = ([], c # cs)" for cs
    by (rule shorter [OF that(2,1)]) (use that(3) in auto)
qed

section \<open>Operations, close and shutdown\<close>

definition same_gate :: "OwnerWorld \<Rightarrow> OwnerWorld \<Rightarrow> bool" where
  "same_gate s t \<longleftrightarrow> ow_closed t = ow_closed s \<and> ow_draining t = ow_draining s \<and> ow_close_reason t = ow_close_reason s
     \<and> ow_active_ops t = ow_active_ops s \<and> sw_operations t = sw_operations s \<and> sw_shutdowns t = sw_shutdowns s"

lemma same_gate_retire:
  assumes "retire s t"
  shows "same_gate s t"
  using assms world_fields(11,12) [OF retire_world [OF assms]] by (simp add: same_gate_def retire_def same_owner_def)

lemma same_gate_simps [simp]:
  "same_gate s (set_task a q t) = same_gate s t" "same_gate s (add_task q t) = same_gate s t"
  "same_gate s (erase_handshake c t) = same_gate s t" "same_gate s (add_conn d t) = same_gate s t"
  "same_gate s (make_session peer outbound c t) = same_gate s t" "same_gate s s"
  by (simp_all add: same_gate_def set_task_def add_task_def erase_handshake_def add_conn_def make_session_def)

lemma same_gate_more:
  assumes "SessionOwnerState.more t = SessionOwnerState.more s" "ow_closed t = ow_closed s" "ow_draining t = ow_draining s"
    and "ow_close_reason t = ow_close_reason s" "ow_active_ops t = ow_active_ops s"
  shows "same_gate s t"
  using assms world_fields(11,12) [OF assms(1)] by (simp add: same_gate_def)

lemma same_gate_RequestClose [simp]: "same_gate s (RequestConnClose c s)"
  by (rule same_gate_more) simp_all

lemma same_gate_Install [simp]: "same_gate s (snd (InstallSession i key est s))"
  by (rule same_gate_more) (simp_all add: InstallSession_def Let_def split: option.split)

lemma same_gate_GetSession:
  assumes "world_wf s"
  shows "same_gate s (snd (GetSession key s))"
proof -
  have "same_owner s (sweep_release (map snd (ow_by_identity s)) s)" using sweep_identities [OF assms] by (simp add: retire_def)
  then show ?thesis using assms
    by (intro same_gate_more) (auto simp: same_owner_def GetSession_def Let_def split: option.split)
qed

lemma same_gate_establishing [simp]:
  "same_gate s (snd (attach_conn e c (add_conn d s)))" "same_gate s (snd (finish_establishing key e made s))"
  by (rule same_gate_more; simp add: attach_conn_def finish_establishing_def add_conn_def Let_def)+

lemma gate_step:
  assumes "world_step s t" "world_wf s"
  obtains (same) "same_gate s t" | (seal) reason where "t = seal_owner reason s"
  | (begins) "sw_operations s < 2 ^ 64 - 1" "t = begin_operation s" | (ends) "0 < sw_operations s" "t = end_operation s"
  | (starts) native_host where "t = shutdown_begin native_host s"
  | (wakes) n expired where "n < length (sw_shutdowns s)" "sw_shutdowns s ! n = ShWaiting" "t = shutdown_wake n expired s"
  using assms(1)
proof (cases rule: world_step.cases)
  case (get_session key)
  then have "same_gate s t" using same_gate_GetSession [OF assms(2), of key]
    by (auto simp: dial_lookup_def split_def Let_def split: lookup.split)
  then show ?thesis by (rule same)
next
  case (accept registered)
  have "same_gate s (RequestConnClose c (add_conn fresh_conn s))" "same_gate s ((add_conn fresh_conn s)\<lparr>sw_handshakes := xs\<rparr>)"
    "same_gate s (RequestConnClose c ((add_conn fresh_conn s)\<lparr>sw_handshakes := xs\<rparr>))" for c xs
    by (simp_all add: same_gate_def add_conn_def RequestConnClose_def)
  then have "same_gate s t" using accept by (simp add: accept_connection_def Let_def)
  then show ?thesis by (rule same)
next
  case (seal_continues b)
  have "same_gate s (seal_next b s)"
    using assms(2) seal_continues(2)
  proof (cases rule: seal_next_cases)
    case (kill i "is" cs)
    then show ?thesis using same_gate_retire [OF retire_KillSession [OF world_wf_released [OF assms(2)]]] by (simp add: same_gate_def)
  next
    case (close c cs)
    then show ?thesis using same_gate_RequestClose [of s c] by (simp add: same_gate_def)
  qed simp
  then show ?thesis using seal_continues same by simp
next
  case (dial_evicts a key e i w)
  then show ?thesis using same_gate_retire [OF retire_evicts(1) [OF assms(2)]] same by simp
next
  case (serve_evicts a c i w)
  then show ?thesis using same_gate_retire [OF retire_evicts(2) [OF assms(2)]] same by simp
next
  case (dial_starts a key e i reader writer)
  then show ?thesis using same_gate_retire [OF retire_starts(1) [OF assms(2)]] same by (simp add: dial_start_def split_def Let_def)
next
  case (serve_starts a c i reader writer)
  then show ?thesis using same_gate_retire [OF retire_starts(2) [OF assms(2)]] same by (simp add: serve_start_def split_def Let_def)
next
  case (loop_returns i)
  then show ?thesis using same_gate_retire [OF retire_loop_returns [OF world_wf_released [OF assms(2)]]] same by simp
next
  case (link_dies i)
  then show ?thesis using same_gate_retire [OF retire_KillSession [OF world_wf_released [OF assms(2)]]] same by simp
next
  case wait_stopped
  then show ?thesis using same_gate_retire [OF retire_wait_stopped [OF assms(2)]] same by simp
next
  case (conn_released c)
  then show ?thesis using same by (simp add: same_gate_def)
next
  case (link_expires i)
  then show ?thesis using same_gate_retire [OF retire_expires [OF world_wf_released [OF assms(2)]]] same by simp
next
  case (dial_ok a key e)
  then show ?thesis using same by (auto simp: dial_connected_def split_def Let_def split: option.splits)
next
  case (serve_lives a c w)
  then show ?thesis using same by (simp add: serve_live_def same_gate_def set_task_def erase_handshake_def)
next
  case (accept_failed reason)
  then show ?thesis using same by (simp add: same_gate_def ServerV2Seal_def Let_def)
next
  case (seal_server reason)
  then show ?thesis using same by (simp add: same_gate_def ServerV2Seal_def Let_def)
next
  case stop_accepting
  then show ?thesis using same by (simp add: same_gate_def ServerV2StopAccepting_def)
next
  case accept_exit
  then show ?thesis using same by (simp add: same_gate_def)
next
  case (dial_epoch a key e c)
  then show ?thesis using same by (simp add: same_gate_def NextEpoch_def Let_def)
next
  case (serve_epoch a c)
  then show ?thesis using same by (simp add: same_gate_def NextEpoch_def Let_def)
next
  case (serve_publishes a c i)
  then show ?thesis using same by (simp add: serve_publish_def)
qed (use that in \<open>auto simp: dial_install_def serve_install_def dial_finish_def split_def Let_def\<close>)

definition gate_inv :: "OwnerWorld \<Rightarrow> bool" where
  "gate_inv s \<longleftrightarrow> unat (ow_active_ops s) = sw_operations s
     \<and> (ShWaiting \<in> set (sw_shutdowns s) \<or> ShReturned (Inr ()) \<in> set (sw_shutdowns s) \<longrightarrow> ow_draining s)
     \<and> (ShReturned (Inr ()) \<in> set (sw_shutdowns s) \<longrightarrow> sw_operations s = 0)"

definition gate_kept :: "OwnerWorld \<Rightarrow> OwnerWorld \<Rightarrow> bool" where
  "gate_kept s t \<longleftrightarrow> (ow_closed s \<longrightarrow> ow_closed t) \<and> (ow_draining s \<longrightarrow> ow_draining t)
     \<and> (\<forall>r. ow_close_reason s = Some r \<longrightarrow> ow_close_reason t = Some r)
     \<and> (ow_closed s \<or> ow_draining s \<longrightarrow> sw_operations t \<le> sw_operations s)"

lemma gate_inv_step:
  assumes "world_step s t" "world_wf s" "gate_inv s"
  shows "gate_inv t" "gate_kept s t"
proof -
  have "gate_inv t \<and> gate_kept s t"
    using assms(1,2)
  proof (cases rule: gate_step)
    case same
    then show ?thesis using assms(3) by (simp add: same_gate_def gate_inv_def gate_kept_def)
  next
    case (seal reason)
    then show ?thesis using assms(3)
      by (auto simp: seal_owner_def SessionOwnerSeal_def Let_def gate_inv_def gate_kept_def split: option.split)
  next
    case begins
    have "unat (ow_active_ops s + 1) = Suc (unat (ow_active_ops s))"
      using begins(1) assms(3) unat_add_lem [of "ow_active_ops s" 1] by (simp add: gate_inv_def)
    then show ?thesis using assms(3) begins(2)
      by (auto simp: begin_operation_def SessionOwnerBeginOperation_def Let_def gate_inv_def gate_kept_def)
  next
    case ends
    then have "ow_active_ops s \<noteq> 0" using assms(3) by (auto simp: gate_inv_def)
    then have "unat (ow_active_ops s - 1) = unat (ow_active_ops s) - 1" by (metis unat_minus_one)
    then show ?thesis using assms(3) ends \<open>ow_active_ops s \<noteq> 0\<close>
      by (auto simp: end_operation_def SessionOwnerEndOperation_def gate_inv_def gate_kept_def)
  next
    case (starts native_host)
    then show ?thesis using assms(3)
      by (auto simp: shutdown_begin_def SessionOwnerShutdown_def gate_inv_def gate_kept_def split: if_splits)
  next
    case (wakes n expired)
    then have "ow_draining s" using assms(3) nth_mem [OF wakes(1)] by (simp add: gate_inv_def)
    then show ?thesis using assms(3) wakes set_update_subset_insert [of "sw_shutdowns s" n "shutdown_poll expired s"]
      by (auto simp: shutdown_wake_def shutdown_poll_def gate_inv_def gate_kept_def split: if_splits option.splits)
  qed
  then show "gate_inv t" "gate_kept s t" by simp_all
qed

lemma gate_kept_trans: "gate_kept s t \<Longrightarrow> gate_kept t u \<Longrightarrow> gate_kept s u"
  by (auto simp: gate_kept_def)

lemma gate_run:
  assumes "world_step\<^sup>*\<^sup>* s t" "world_reachable opts m s" "gate_inv s"
  shows "world_reachable opts m t \<and> gate_inv t \<and> gate_kept s t"
  using assms
proof (induction rule: rtranclp_induct)
  case base
  then show ?case by (simp add: gate_kept_def)
next
  case (step t u)
  then show ?case
    using gate_inv_step [OF step(2) owner_reachable_wf] gate_kept_trans world_reachable.step by blast
qed

lemma owner_reachable_gate: "world_reachable opts m s \<Longrightarrow> gate_inv s"
proof (induction rule: world_reachable.induct)
  case initial
  show ?case by (simp add: gate_inv_def ow_init_def)
next
  case (step s t)
  then show ?case using gate_inv_step(1) owner_reachable_wf by blast
qed

section \<open>The options\<close>

interpretation options: owner_invariant "\<lambda>s. ow_options s = opts \<and> sw_max_connections s = m" for opts m
proof
  fix s t w :: OwnerWorld and a b e c i v :: nat and p q and key peer :: bytes and made :: "nat result" and outbound registered :: bool
    and reason :: Error
  let ?I = "\<lambda>s. ow_options s = opts \<and> sw_max_connections s = m"
  assume I: "?I s"
  show "?I t" if "same_core s t" using that I by (simp add: same_core_def)
  assume sound: "sound s"
  then have wf: "world_wf s" by (simp add: sound_def)
  have more: "?I t" if "SessionOwnerState.more t = SessionOwnerState.more s" "ow_options t = ow_options s" for t
    using I that(2) world_fields(1) [OF that(1)] by simp
  show retired: "?I t" if "retire s t" for t by (rule more [OF retire_world [OF that] retire_lengths(5) [OF that]])
  then show "?I (set_task a q w)" if "retire s w" using that by (simp add: set_task_def)
  have "?I (snd (GetSession key s))"
    using retire_lengths(5) [OF sweep_identities [OF wf]]
    by (intro more) (simp_all add: wf, simp add: GetSession_def Let_def split: option.split)
  then show "?I (dial_lookup key s)" by (simp add: dial_lookup_def split_def Let_def add_task_def split: lookup.split)
  have "?I (snd (attach_conn e (length (ow_conns s)) (add_conn fresh_conn s)))"
    by (intro more) (simp_all add: add_conn_def, simp add: attach_conn_def Let_def)
  then show "?I (dial_connected a key e s)" by (simp add: dial_connected_def split_def Let_def set_task_def split: option.split)
  show "?I (set_task a q (make_session peer outbound c s))" using I by (simp add: set_task_def make_session_def)
  have "?I (snd (InstallSession i key est s))" for key est by (intro more) simp_all
  then show "?I (dial_install a key e i s)" "?I (serve_install a c i s)"
    by (simp_all add: dial_install_def serve_install_def split_def Let_def set_task_def)
  have "?I (snd (finish_establishing key e made s))" by (intro more) (simp_all add: finish_establishing_def Let_def)
  then show "?I (dial_finish a key e made s)" by (simp add: dial_finish_def split_def Let_def set_task_def)
  show "?I (accept_connection registered s)"
    using I by (simp add: accept_connection_def Let_def add_conn_def add_task_def erase_handshake_def RequestConnClose_def)
  show "?I (set_task a q (erase_handshake c s))" "?I (serve_live a c v s)" "?I (ServerV2Seal reason s)" "?I (seal_owner reason s)"
    using I by (simp_all add: set_task_def erase_handshake_def serve_live_def ServerV2Seal_def seal_owner_def SessionOwnerSeal_def Let_def split_def)
  show "?I (w\<lparr>sw_sealers := (sw_sealers s)[b := (ks, cs)]\<rparr>)" "?I (w\<lparr>sw_sealers := (sw_sealers s)[b := ([], cs)]\<rparr>)"
    if "retire s w" for ks cs using retired [OF that] by simp_all
qed

lemma owner_reachable_options:
  assumes "world_reachable opts m s"
  shows "ow_options s = opts" "sw_max_connections s = m"
  using options.reachable [OF assms, of opts m] by (simp_all add: ow_init_def)

end
