(* ===== verification/OwnerProperties.thy ===== *)
theory OwnerProperties
  imports OwnerGuarantees
begin

text \<open>
  The properties of the session owner, with runs that show they speak about states the code reaches, and the behaviours that fall short of
  what the comments promise.
\<close>

section \<open>Every interleaving\<close>

lemma owner_reachable_gauge: "world_reachable opts m s \<Longrightarrow> gauge_inv s"
proof (erule gauges.reachable)
  have "fresh_ok [] (ow_init opts m)" by (simp add: fresh_ok_def tracked_def ow_init_def List.map_filter_simps)
  then show "gauge_inv (ow_init opts m)"
    by (auto simp: gauge_inv_def ledger_ok_def held_links_def ow_init_def)
qed


text \<open>C13: The session limit holds in every interleaving: the installed links and the reservations of establishments in progress together
  never exceed it, no two links are installed for one peer, and every installed link is of that peer and holds its quota.\<close>

theorem sessions_within_limit:
  assumes "world_reachable opts m s"
  shows "occupied s \<le> co_max_sessions opts \<and> distinct (map fst (ow_by_identity s))
    \<and> (\<forall>(peer, i) \<in> set (ow_by_identity s). i < length (ow_cores s) \<and> sh_peer_identity (ow_cores s ! i) = peer
          \<and> sh_quota_held (ow_cores s ! i))"
proof -
  have "gauge_inv s" by (rule owner_reachable_gauge [OF assms])
  then show ?thesis
    using owner_reachable_est [OF assms] owner_reachable_wf [OF assms] owner_reachable_options [OF assms]
    by (auto simp: est_inv_def quota_ok_def gauge_inv_def ledger_ok_def world_wf_def owner_wf_def)
qed

text \<open>C17: Two coroutines never establish a link to the same endpoint at the same time, and a reservation does not outlive its
  coroutine: once no coroutine is establishing, no establishment is on record.\<close>

theorem one_establishment_per_endpoint:
  assumes "world_reachable opts m s"
  shows "(\<forall>a b p q key e e'. at_task a p s \<longrightarrow> at_task b q s \<longrightarrow> dial_est p = Some (key, e) \<longrightarrow> dial_est q = Some (key, e') \<longrightarrow> a = b)
    \<and> ((\<forall>p \<in> set (sw_tasks s). dial_est p = None) \<longrightarrow> ow_establishing s = [])"
proof (intro conjI allI impI)
  have inv: "est_inv s" by (rule owner_reachable_est [OF assms])
  fix a b p q key e e'
  show "a = b" if "at_task a p s" "at_task b q s" "dial_est p = Some (key, e)" "dial_est q = Some (key, e')"
  proof -
    have "inj_on fst (set (ow_establishing s))" using inv by (simp add: est_inv_def quota_ok_def distinct_map)
    then have "e = e'"
      using inj_onD [of fst _ "(key, e)" "(key, e')"] est_inv_entry [OF inv that(1,3)] est_inv_entry [OF inv that(2,4)] by simp
    then show ?thesis using est_inv_other [OF inv that(2,1)] that(3,4) by blast
  qed
  show "ow_establishing s = []" if "\<forall>p \<in> set (sw_tasks s). dial_est p = None"
  proof -
    have "List.map_filter dial_est (sw_tasks s) = []" using that by (simp add: List.map_filter_def filter_empty_conv)
    then show ?thesis using inv by (simp add: est_inv_def tracked_def)
  qed
qed

text \<open>C18: The gauges are exact: both count the links that hold quota, the installed ones and the evicted ones whose connection
  has not been released yet.\<close>

theorem gauges_count_links:
  assumes "world_reachable opts m s"
  shows "ow_links s = of_nat (length (filter sh_quota_held (ow_cores s)))
    \<and> ow_sessions s = of_nat (length (filter sh_quota_held (ow_cores s)))
    \<and> length (ow_by_identity s) \<le> length (filter sh_quota_held (ow_cores s))"
proof -
  have inv: "gauge_inv s" by (rule owner_reachable_gauge [OF assms])
  have "distinct (ow_by_identity s)"
    using owner_reachable_est [OF assms] by (auto simp: est_inv_def quota_ok_def distinct_map)
  moreover have "inj_on snd (set (ow_by_identity s))"
    using inv by (intro inj_onI) (metis gauge_inv_def ledger_ok_def prod.expand)
  ultimately have "distinct (map snd (ow_by_identity s))" by (simp add: distinct_map)
  moreover have "set (map snd (ow_by_identity s)) \<subseteq> {i. i < length (ow_cores s) \<and> sh_quota_held (ow_cores s ! i)}"
    using inv owner_reachable_wf [OF assms] by (auto simp: gauge_inv_def ledger_ok_def world_wf_def owner_wf_def)
  moreover have "finite {i. i < length (ow_cores s) \<and> sh_quota_held (ow_cores s ! i)}" by simp
  ultimately have "length (map snd (ow_by_identity s)) \<le> card {i. i < length (ow_cores s) \<and> sh_quota_held (ow_cores s ! i)}"
    by (metis card_mono distinct_card)
  then show ?thesis using inv by (simp add: gauge_inv_def ledger_ok_def held_links_def length_filter_conv_card)
qed

text \<open>C14: Nothing is left open after a close. When the owner is closed, the closing thread has been through its list and no
  coroutine has a connection in hand, the close of every connection ever opened has been requested, dialled or accepted, installed,
  evicted or abandoned in the middle of a handshake.\<close>

theorem closed_owner_leaks_no_connection:
  assumes "world_reachable opts m s" "ow_closed s"
    and "\<forall>p \<in> set (sw_tasks s). duty s p = {}" "\<forall>x \<in> set (sw_sealers s). fst x = []"
  shows "\<forall>c < length (ow_conns s). cn_close_requested (ow_conns s ! c)"
proof (intro allI impI)
  fix c assume c: "c < length (ow_conns s)"
  have inv: "duty_inv s"
    using duties.reachable [OF assms(1)] by (simp add: duty_inv_def seals_pending_def ow_init_def)
  then have "covered s c" using c by (simp add: duty_inv_def)
  then have "closing s c"
  proof (cases rule: coveredE)
    case (task b q)
    then show ?thesis using assms(3) nth_mem [of b "sw_tasks s"] by (auto simp: at_task_def)
  next
    case (installed x)
    then show ?thesis using inv assms(2,4) by (auto simp: duty_inv_def seals_pending_def)
  qed
  then show "cn_close_requested (ow_conns s ! c)" by (simp add: closing_def)
qed

text \<open>C19: The connection limit of a server holds in every interleaving: the links on its list and the handshakes in progress together
  never exceed it.\<close>

theorem connections_within_limit:
  assumes "world_reachable opts m s"
  shows "length (sw_links s) + length (sw_handshakes s) \<le> m"
proof -
  have "conn_inv s"
    using connections.reachable [OF assms] by (simp add: conn_inv_def tracked_def ow_init_def List.map_filter_simps)
  then show ?thesis using owner_reachable_options(2) [OF assms] by (simp add: conn_inv_def)
qed

text \<open>C16: Close and shutdown are final. From a state in which the owner is closed or draining the number of running operations only falls;
  the published reason never changes; and once a shutdown has returned success no operation is running and none ever starts.\<close>

theorem shutdown_means_idle:
  assumes "world_reachable opts m s" "world_step\<^sup>*\<^sup>* s t"
  shows "(ow_closed s \<or> ow_draining s \<longrightarrow> sw_operations t \<le> sw_operations s)
    \<and> (\<forall>r. ow_close_reason s = Some r \<longrightarrow> ow_close_reason t = Some r)
    \<and> (ShReturned (Inr ()) \<in> set (sw_shutdowns s) \<longrightarrow> sw_operations t = 0 \<and> ow_active_ops t = 0)"
proof -
  have inv: "gate_inv s" by (rule owner_reachable_gate [OF assms(1)])
  have run: "gate_inv t" "gate_kept s t" using gate_run [OF assms(2,1) inv] by simp_all
  have "sw_operations t = 0 \<and> ow_active_ops t = 0" if "ShReturned (Inr ()) \<in> set (sw_shutdowns s)"
  proof -
    have "sw_operations s = 0" "ow_draining s" using inv that by (simp_all add: gate_inv_def)
    then have "sw_operations t = 0" using run(2) by (simp add: gate_kept_def)
    then show ?thesis using run(1) by (simp add: gate_inv_def unat_eq_zero)
  qed
  then show ?thesis using run(2) by (simp add: gate_kept_def)
qed

section \<open>Crossing links\<close>

definition install_one :: "nat \<Rightarrow> bytes \<Rightarrow> nat option \<Rightarrow> 'a SessionOwnerState_scheme \<Rightarrow> 'a SessionOwnerState_scheme" where
  "install_one i key est s =
     (let (r, t) = InstallSession i key est s in case r of InWon (Some w) \<Rightarrow> KillSession w t | _ \<Rightarrow> t)"

definition install_both ::
  "bool \<Rightarrow> nat \<Rightarrow> bytes \<Rightarrow> nat \<Rightarrow> nat \<Rightarrow> 'a SessionOwnerState_scheme \<Rightarrow> 'a SessionOwnerState_scheme" where
  "install_both dialled_first i key e j s =
     (if dialled_first then install_one j [] None (install_one i key (Some e) s)
      else install_one i key (Some e) (install_one j [] None s))"

definition crossing :: "bytes \<Rightarrow> bytes \<Rightarrow> nat \<Rightarrow> nat \<Rightarrow> 'a SessionOwnerState_scheme \<Rightarrow> bool" where
  "crossing local peer i j s \<longleftrightarrow> co_local_identity (ow_options s) = local \<and> \<not> ow_closed s
     \<and> occupied s < co_max_sessions (ow_options s) \<and> map_of (ow_by_identity s) peer = None
     \<and> i < length (ow_cores s) \<and> j < length (ow_cores s) \<and> i \<noteq> j
     \<and> sh_peer_identity (ow_cores s ! i) = peer \<and> sh_outbound (ow_cores s ! i) \<and> \<not> sh_dead (ow_cores s ! i)
     \<and> sh_peer_identity (ow_cores s ! j) = peer \<and> \<not> sh_outbound (ow_cores s ! j) \<and> \<not> sh_dead (ow_cores s ! j)"

definition survives :: "bytes \<Rightarrow> nat \<Rightarrow> nat \<Rightarrow> 'a SessionOwnerState_scheme \<Rightarrow> bool" where
  "survives peer i j t \<longleftrightarrow> map_of (ow_by_identity t) peer = Some i \<and> \<not> sh_dead (ow_cores t ! i) \<and> sh_dead (ow_cores t ! j)"

lemma install_first:
  assumes "\<not> ow_closed s" "occupied s < co_max_sessions (ow_options s)" "map_of (ow_by_identity s) (sh_peer_identity (ow_cores s ! i)) = None"
  shows "map_of (ow_by_identity (install_one i key est s)) (sh_peer_identity (ow_cores s ! i)) = Some i"
    "map (\<lambda>x. (identity x, sh_dead x)) (ow_cores (install_one i key est s)) = map (\<lambda>x. (identity x, sh_dead x)) (ow_cores s)"
    "ow_options (install_one i key est s) = ow_options s" "ow_closed (install_one i key est s) = ow_closed s"
proof -
  have room: "occupied_by_others est s < co_max_sessions (ow_options s)"
    using assms(2) by (auto simp: occupied_by_others_def split: option.split)
  have result: "install_one i key est s = install_take i key None (case est of None \<Rightarrow> s | Some e \<Rightarrow> on_est e (es_reserved_update (\<lambda>_. False)) s)"
    using assms room by (simp add: install_one_def InstallSession_def Let_def not_le)
  show "map_of (ow_by_identity (install_one i key est s)) (sh_peer_identity (ow_cores s ! i)) = Some i"
    by (simp add: result update_conv split: option.split)
  show "map (\<lambda>x. (identity x, sh_dead x)) (ow_cores (install_one i key est s)) = map (\<lambda>x. (identity x, sh_dead x)) (ow_cores s)"
    by (rule nth_equalityI) (auto simp: result on_core_nth identity_def split: option.split)
qed (use assms in \<open>simp_all add: install_one_def split_def Let_def InstallSession_def split: option.split\<close>)

lemma dead_on_core:
  assumes "\<And>x. sh_dead (f x) = sh_dead x"
  shows "sh_dead (ow_cores (on_core i f s) ! j) = sh_dead (ow_cores s ! j)"
  by (cases "i < length (ow_cores s)"; cases "j = i") (simp_all add: on_core_def assms list_update_beyond)

lemma map_of_kept: "map_of al k = Some v \<Longrightarrow> P (k, v) \<Longrightarrow> map_of (filter P al) k = Some v"
  by (induction al) (auto split: if_splits)

lemma ExitDone_effect:
  shows "sh_dead (ow_cores (SessionExitDone w s) ! j) = sh_dead (ow_cores s ! j)"
    "map_of (ow_by_identity s) k = Some v \<Longrightarrow> v \<noteq> w \<Longrightarrow> map_of (ow_by_identity (SessionExitDone w s)) k = Some v"
proof -
  have released: "sh_dead (ow_cores (snd (ReleasedLocked w t)) ! j) = sh_dead (ow_cores t ! j)" for t :: "'a SessionOwnerState_scheme"
    using dead_on_core [of "sh_quota_held_update (\<lambda>_. False)" w t j] by (simp add: ReleasedLocked_def)
  show "sh_dead (ow_cores (SessionExitDone w s) ! j) = sh_dead (ow_cores s ! j)"
    by (simp add: SessionExitDone_def Let_def released dead_on_core)
  show "map_of (ow_by_identity s) k = Some v \<Longrightarrow> v \<noteq> w \<Longrightarrow> map_of (ow_by_identity (SessionExitDone w s)) k = Some v"
    by (simp add: SessionExitDone_def Let_def ReleasedLocked_def map_of_kept)
qed

lemma KillSession_effect:
  assumes "w < length (ow_cores s)" "\<not> sh_dead (ow_cores s ! w)"
  shows "sh_dead (ow_cores (KillSession w s) ! j) = (j = w \<or> sh_dead (ow_cores s ! j))"
    "map_of (ow_by_identity s) k = Some v \<Longrightarrow> v \<noteq> w \<Longrightarrow> map_of (ow_by_identity (KillSession w s)) k = Some v"
  using assms by (auto simp: KillSession_def ExitDone_effect on_core_def nth_list_update)

lemma install_second:
  assumes "\<not> ow_closed s" "map_of (ow_by_identity s) peer = Some w" "sh_peer_identity (ow_cores s ! i) = peer"
    and "i < length (ow_cores s)" "w < length (ow_cores s)" "i \<noteq> w" "\<not> sh_dead (ow_cores s ! i)" "\<not> sh_dead (ow_cores s ! w)"
  shows "if string_less (co_local_identity (ow_options s)) peer = sh_outbound (ow_cores s ! i)
    then survives peer i w (install_one i key est s) else survives peer w i (install_one i key est s)"
proof (cases "string_less (co_local_identity (ow_options s)) peer = sh_outbound (ow_cores s ! i)")
  case True
  let ?t = "install_take i key (Some w) s"
  have dead: "sh_dead (ow_cores ?t ! j) = sh_dead (ow_cores s ! j)" for j by (simp add: dead_on_core)
  have "w < length (ow_cores ?t)" "\<not> sh_dead (ow_cores ?t ! w)" using assms(5,8) dead by simp_all
  note killed = KillSession_effect [OF this]
  have "map_of (ow_by_identity ?t) peer = Some i" using assms(3) by (simp add: update_conv)
  then have "survives peer i w (KillSession w ?t)" using killed assms(6,7) dead by (simp add: survives_def)
  then show ?thesis using True assms by (simp add: install_one_def InstallSession_def)
next
  case False
  have "install_one i key est s = map_endpoint key w (RequestConnClose (sh_conn (ow_cores s ! i)) (on_core i (sh_dead_update (\<lambda>_. True)) s))"
    using False assms by (simp add: install_one_def InstallSession_def)
  then show ?thesis using False assms by (simp add: survives_def on_core_nth)
qed

lemma crossing_survivor:
  assumes "crossing local peer i j s"
  shows "if string_less local peer then survives peer i j (install_both first i key e j s) else survives peer j i (install_both first i key e j s)"
proof -
  have second: "if string_less local peer = sh_outbound (ow_cores s ! q) then survives peer q p (install_one q key' est' (install_one p key est s))
      else survives peer p q (install_one q key' est' (install_one p key est s))"
    if pq: "{p, q} = {i, j}" "p \<noteq> q" for p q key est key' est'
  proof -
    let ?t = "install_one p key est s"
    have s: "\<not> ow_closed s" "occupied s < co_max_sessions (ow_options s)" "sh_peer_identity (ow_cores s ! p) = peer"
      "sh_peer_identity (ow_cores s ! q) = peer" "p < length (ow_cores s)" "q < length (ow_cores s)" "\<not> sh_dead (ow_cores s ! p)"
      "\<not> sh_dead (ow_cores s ! q)" "map_of (ow_by_identity s) (sh_peer_identity (ow_cores s ! p)) = None"
      using assms pq by (auto simp: crossing_def doubleton_eq_iff)
    note t = install_first [OF s(1,2,9), of key est]
    have len: "length (ow_cores ?t) = length (ow_cores s)" using arg_cong [OF t(2), of length] by simp
    have same: "identity (ow_cores ?t ! n) = identity (ow_cores s ! n)" "sh_dead (ow_cores ?t ! n) = sh_dead (ow_cores s ! n)"
      if "n < length (ow_cores s)" for n
      using arg_cong [OF t(2), of "\<lambda>xs. xs ! n"] that len by simp_all
    show ?thesis
      using install_second [of ?t peer p q key' est'] s t(1,3,4) len same [OF s(5)] same [OF s(6)] pq(2) assms
      by (simp add: identity_def crossing_def)
  qed
  show ?thesis
    using second [of i j "[]" None key "Some e"] second [of j i key "Some e" "[]" None]
      second [of i j key "Some e" "[]" None] second [of j i "[]" None key "Some e"] assms
    by (auto simp: install_both_def crossing_def insert_commute split: if_splits)
qed


section \<open>A client that reconnects\<close>

text \<open>The client \<open>b\<close> dials its peer \<open>a\<close>, the link dies, and the client dials again before the old connection has been released.\<close>

definition own_options :: "nat \<Rightarrow> ClientOptions" where
  "own_options n = sample_options\<lparr>co_local_identity := ascii ''b'', co_max_sessions := n\<rparr>"

definition run_key :: bytes where "run_key = ascii ''k''"

definition dialled :: "nat \<Rightarrow> nat \<Rightarrow> OwnerWorld \<Rightarrow> OwnerWorld" where
  "dialled a e s = set_task a (DpInstall run_key e (length (ow_cores s)))
     (make_session (ascii ''a'') True (length (ow_conns s)) (dial_connected a run_key e s))"

definition run_up :: "nat \<Rightarrow> OwnerWorld" where
  "run_up n = dial_finish 0 run_key 0 (Inr 0) (dial_start 0 run_key 0 0 True True (dial_install 0 run_key 0 0
     (dialled 0 0 (dial_lookup run_key (ow_init (own_options n) 2)))))"

definition run_again :: OwnerWorld where
  "run_again = dialled 1 1 (dial_lookup run_key (KillSession 0 (run_up 2)))"

lemma dialled_step:
  assumes "world_reachable opts m s" "at_task a (DpDial run_key e) s" "at_task a (DpHandshake run_key e (length (ow_conns s))) (dial_connected a run_key e s)"
    and "ow_cores (dial_connected a run_key e s) = ow_cores s"
  shows "world_reachable opts m (dialled a e s)"
  using world_reachable.step [OF world_reachable.step [OF assms(1) world_step.dial_ok [OF assms(2)]] world_step.dial_agreed [OF assms(3)]]
  by (simp add: dialled_def assms(4))

lemma run_up_reachable:
  "world_reachable (own_options 1) 2 (run_up 1)" "world_reachable (own_options 2) 2 (run_up 2)"
proof -
  note next_step = world_reachable.step
  have up: "world_reachable (own_options n) 2 (run_up n)"
    if "at_task 0 (DpDial run_key 0) (dial_lookup run_key (ow_init (own_options n) 2))"
      "at_task 0 (DpHandshake run_key 0 0) (dial_connected 0 run_key 0 (dial_lookup run_key (ow_init (own_options n) 2)))"
      "(ow_conns (dial_lookup run_key (ow_init (own_options n) 2)), ow_cores (dial_lookup run_key (ow_init (own_options n) 2)),
        ow_cores (dial_connected 0 run_key 0 (dial_lookup run_key (ow_init (own_options n) 2)))) = ([], [], [])"
      "at_task 0 (DpInstall run_key 0 0) (dialled 0 0 (dial_lookup run_key (ow_init (own_options n) 2)))"
      "at_task 0 (DpStart run_key 0 0) (dial_install 0 run_key 0 0 (dialled 0 0 (dial_lookup run_key (ow_init (own_options n) 2))))"
      "at_task 0 (DpFinish run_key 0 (Inr 0)) (dial_start 0 run_key 0 0 True True (dial_install 0 run_key 0 0
        (dialled 0 0 (dial_lookup run_key (ow_init (own_options n) 2)))))"
    for n
    unfolding run_up_def
    by (rule next_step [OF _ world_step.dial_finishes [OF that(6)]], rule next_step [OF _ world_step.dial_starts [OF that(5)]],
        rule next_step [OF _ world_step.dial_installs [OF that(4)]], rule dialled_step [OF _ that(1)],
        rule next_step [OF world_reachable.initial world_step.get_session]) (use that(2,3) in simp_all)
  show "world_reachable (own_options 1) 2 (run_up 1)" by (rule up) code_simp+
  show "world_reachable (own_options 2) 2 (run_up 2)" by (rule up) code_simp+
qed

lemma run_again_reachable: "world_reachable (own_options 2) 2 run_again"
proof -
  let ?k = "KillSession 0 (run_up 2)"
  have "(length (ow_cores (run_up 2)), sh_tasks (ow_cores (run_up 2) ! 0)) = (1, 2)" by code_simp
  then have "world_reachable (own_options 2) 2 ?k"
    by (intro world_reachable.step [OF run_up_reachable(2)] world_step.link_dies) simp_all
  then have "world_reachable (own_options 2) 2 (dial_lookup run_key ?k)" by (rule world_reachable.step) (rule world_step.get_session)
  moreover have "at_task 1 (DpDial run_key 1) (dial_lookup run_key ?k)" by code_simp
  moreover have "at_task 1 (DpHandshake run_key 1 (length (ow_conns (dial_lookup run_key ?k)))) (dial_connected 1 run_key 1 (dial_lookup run_key ?k))"
    by code_simp
  moreover have "ow_cores (dial_connected 1 run_key 1 (dial_lookup run_key ?k)) = ow_cores (dial_lookup run_key ?k)" by code_simp
  ultimately show ?thesis unfolding run_again_def by (rule dialled_step)
qed

text \<open>C36: A new link can lose the election to a dead one. \<^verbatim>\<open>InstallSession\<close> compares the new link with the entry of
  its peer without asking whether that link is still alive, and the entry stays until the old connection is released. In this run the freshly
  established link is closed in favour of the dead one, the establishing caller gets the dead link as a success, and every other
  caller waiting for the establishment gets the placeholder error \<^verbatim>\<open>unset\<close>.\<close>

theorem reconnect_loses_to_dead_link:
  "\<exists>s. world_reachable (own_options 2) 2 s \<and> at_task 1 (DpInstall run_key 1 1) s \<and> \<not> sh_dead (ow_cores s ! 1)
     \<and> (let t = dial_install 1 run_key 1 1 s
        in at_task 1 (DpFinish run_key 1 (Inr 0)) t \<and> sh_dead (ow_cores t ! 0) \<and> sh_dead (ow_cores t ! 1)
          \<and> poll_establishing 1 (dial_finish 1 run_key 1 (Inr 0) t) = Some (Inl (Err InternalError (ascii ''unset''))))"
proof (intro exI conjI)
  show "world_reachable (own_options 2) 2 run_again" by (rule run_again_reachable)
qed code_simp+

section \<open>A server with crossing and repeated links\<close>

definition offered :: "bytes \<Rightarrow> OwnerWorld \<Rightarrow> OwnerWorld" where
  "offered peer s =
     (let a = length (sw_tasks s); c = length (ow_conns s); i = length (ow_cores s)
      in serve_publish a c i (set_task a (SvPublish c i) (make_session peer False c (accept_connection True s))))"

definition run_evict :: OwnerWorld where
  "run_evict = serve_install 1 1 1 (offered (ascii ''a'') (run_up 1))"

definition run_server :: OwnerWorld where
  "run_server = serve_live 0 0 0 (serve_start 0 0 0 True True (serve_install 0 0 0 (offered (ascii ''c'') (ow_init (own_options 2) 2))))"

definition run_repeat :: OwnerWorld where
  "run_repeat = serve_live 1 1 0 (serve_install 1 1 1 (offered (ascii ''c'') run_server))"

lemma offered_step:
  assumes "world_reachable opts m s" "at_task (length (sw_tasks s)) (SvHandshake (length (ow_conns s))) (accept_connection True s)"
    and "ow_cores (accept_connection True s) = ow_cores s"
  shows "world_reachable opts m (offered peer s)"
proof -
  let ?a = "length (sw_tasks s)" and ?c = "length (ow_conns s)" and ?i = "length (ow_cores s)"
  let ?t = "set_task ?a (SvPublish ?c ?i) (make_session peer False ?c (accept_connection True s))"
  have "world_reachable opts m ?t"
    using world_reachable.step [OF world_reachable.step [OF assms(1) world_step.accept] world_step.serve_agreed [OF assms(2), of peer]]
    by (simp add: assms(3))
  moreover have "at_task ?a (SvPublish ?c ?i) ?t" using assms(2) by (simp add: at_task_def set_task_def make_session_def)
  ultimately show ?thesis
    unfolding offered_def Let_def by (rule world_reachable.step [OF _ world_step.serve_publishes])
qed

lemma run_evict_reachable: "world_reachable (own_options 1) 2 run_evict"
proof -
  have "world_reachable (own_options 1) 2 (offered (ascii ''a'') (run_up 1))"
    by (rule offered_step [OF run_up_reachable(1)]) code_simp+
  moreover have "at_task 1 (SvInstall 1 1) (offered (ascii ''a'') (run_up 1))" by code_simp
  ultimately show ?thesis unfolding run_evict_def by (rule world_reachable.step [OF _ world_step.serve_installs])
qed

lemma run_server_reachable: "world_reachable (own_options 2) 2 run_server"
proof -
  let ?s = "offered (ascii ''c'') (ow_init (own_options 2) 2)"
  have "world_reachable (own_options 2) 2 ?s" by (rule offered_step [OF world_reachable.initial]) code_simp+
  moreover have "at_task 0 (SvInstall 0 0) ?s" by code_simp
  ultimately have "world_reachable (own_options 2) 2 (serve_install 0 0 0 ?s)" by (rule world_reachable.step [OF _ world_step.serve_installs])
  moreover have "at_task 0 (SvStart 0 0) (serve_install 0 0 0 ?s)" by code_simp
  ultimately have "world_reachable (own_options 2) 2 (serve_start 0 0 0 True True (serve_install 0 0 0 ?s))"
    by (rule world_reachable.step [OF _ world_step.serve_starts])
  moreover have "at_task 0 (SvLive 0 0) (serve_start 0 0 0 True True (serve_install 0 0 0 ?s))" by code_simp
  ultimately show ?thesis unfolding run_server_def by (rule world_reachable.step [OF _ world_step.serve_lives])
qed

lemma run_repeat_reachable: "world_reachable (own_options 2) 2 run_repeat"
proof -
  let ?s = "offered (ascii ''c'') run_server"
  have "world_reachable (own_options 2) 2 ?s" by (rule offered_step [OF run_server_reachable]) code_simp+
  moreover have "at_task 1 (SvInstall 1 1) ?s" by code_simp
  ultimately have "world_reachable (own_options 2) 2 (serve_install 1 1 1 ?s)" by (rule world_reachable.step [OF _ world_step.serve_installs])
  moreover have "at_task 1 (SvLive 1 0) (serve_install 1 1 1 ?s)" by code_simp
  ultimately show ?thesis unfolding run_repeat_def by (rule world_reachable.step [OF _ world_step.serve_lives])
qed

text \<open>C37: An evicted link does not count against the session limit, although \<^verbatim>\<open>ReleasedLocked\<close> is there so that a link keeps its quota until it
  is released: with a limit of one session, two links hold quota and neither connection is released.\<close>

theorem evicted_link_escapes_limit:
  "\<exists>s. world_reachable (own_options 1) 2 s \<and> co_max_sessions (own_options 1) = 1 \<and> ow_links s = 2
     \<and> length (filter sh_quota_held (ow_cores s)) = 2 \<and> list_all (\<lambda>x. \<not> cn_released x) (ow_conns s)"
proof (intro exI conjI)
  show "world_reachable (own_options 1) 2 run_evict" by (rule run_evict_reachable)
qed code_simp+

text \<open>C38: A connection that loses the election is put on the server's list as the winner once more. In this run one link is listed twice, so that two
  connections count as accepted and, with a limit of two, the next connection is refused although only one link is alive.\<close>

theorem losing_connection_lists_winner_again:
  "\<exists>s. world_reachable (own_options 2) 2 s \<and> sw_links s = [0, 0] \<and> sw_accepted s = 2 \<and> length (ow_by_identity s) = 1
     \<and> sw_handshakes s = [] \<and> ow_conns (accept_connection True s) = ow_conns s @ [fresh_conn\<lparr>cn_close_requested := True\<rparr>]"
proof (intro exI conjI)
  show "world_reachable (own_options 2) 2 run_repeat" by (rule run_repeat_reachable)
qed code_simp+

section \<open>Instances\<close>


theorem sessions_within_limit_witness:
  "occupied run_again \<le> co_max_sessions (own_options 2) \<and> distinct (map fst (ow_by_identity run_again)) \<and> occupied run_again = 2"
proof -
  have "occupied run_again = 2" by code_simp
  then show ?thesis using sessions_within_limit [OF run_again_reachable] by simp
qed

theorem one_establishment_per_endpoint_witness: "ow_establishing (run_up 2) = [] \<and> ow_establishing run_again = [(run_key, 1)]"
proof -
  have "list_all (\<lambda>p. dial_est p = None) (sw_tasks (run_up 2))" "ow_establishing run_again = [(run_key, 1)]" by code_simp+
  then show ?thesis using one_establishment_per_endpoint [OF run_up_reachable(2)] by (simp add: list_all_iff)
qed

theorem gauges_count_links_witness:
  "ow_links run_evict = of_nat (length (filter sh_quota_held (ow_cores run_evict))) \<and> ow_links run_evict = 2"
proof -
  have "ow_links run_evict = 2" by code_simp
  then show ?thesis using gauges_count_links [OF run_evict_reachable] by simp
qed

definition run_closed :: OwnerWorld where
  "run_closed = seal_next 0 (seal_owner (Err Closed []) (run_up 2))"

theorem closed_owner_leaks_no_connection_witness:
  "ow_closed run_closed \<and> length (ow_conns run_closed) = 1 \<and> list_all cn_close_requested (ow_conns run_closed)"
proof -
  have sealed: "world_reachable (own_options 2) 2 (seal_owner (Err Closed []) (run_up 2))"
    by (rule world_reachable.step [OF run_up_reachable(2) world_step.seal])
  have "length (sw_sealers (seal_owner (Err Closed []) (run_up 2))) = 1" by code_simp
  then have reached: "world_reachable (own_options 2) 2 run_closed"
    unfolding run_closed_def by (intro world_reachable.step [OF sealed] world_step.seal_continues) simp
  have facts: "(ow_closed run_closed, length (ow_conns run_closed), sw_tasks run_closed, map fst (sw_sealers run_closed))
      = (True, 1, [DpReturned (Inr 0)], [[]])"
    by code_simp
  then have "\<forall>x \<in> set (sw_sealers run_closed). fst x = []" by (auto simp: map_eq_Cons_conv)
  with facts show ?thesis
    using closed_owner_leaks_no_connection [OF reached] by (simp add: list_all_length)
qed

theorem connections_within_limit_witness:
  "length (sw_links run_repeat) + length (sw_handshakes run_repeat) \<le> 2 \<and> sw_links run_repeat = [0, 0]"
proof -
  have "sw_links run_repeat = [0, 0]" by code_simp
  then show ?thesis using connections_within_limit [OF run_repeat_reachable] by simp
qed

definition run_idle :: OwnerWorld where
  "run_idle = shutdown_wake 0 False (shutdown_begin True (end_operation (begin_operation (ow_init (own_options 2) 2))))"

theorem shutdown_means_idle_witness:
  "sw_shutdowns run_idle = [ShReturned (Inr ())] \<and> sw_operations (begin_operation run_idle) = 0 \<and> ow_active_ops (begin_operation run_idle) = 0"
proof -
  let ?a = "begin_operation (ow_init (own_options 2) 2)"
  have facts: "(sw_operations ?a, sw_shutdowns (shutdown_begin True (end_operation ?a)), sw_shutdowns run_idle) = (1, [ShWaiting], [ShReturned (Inr ())])"
    by code_simp
  have "sw_operations run_idle = 0" by code_simp
  then have more: "world_step run_idle (begin_operation run_idle)" by (intro world_step.operation) simp
  have "world_reachable (own_options 2) 2 ?a"
    by (rule world_reachable.step [OF world_reachable.initial world_step.operation]) (simp add: ow_init_def)
  then have "world_reachable (own_options 2) 2 (end_operation ?a)"
    by (rule world_reachable.step [OF _ world_step.operation_ends]) (use facts in simp)
  then have "world_reachable (own_options 2) 2 (shutdown_begin True (end_operation ?a))"
    by (rule world_reachable.step [OF _ world_step.shutdown])
  then have "world_reachable (own_options 2) 2 run_idle"
    unfolding run_idle_def by (rule world_reachable.step [OF _ world_step.shutdown_wakes]) (use facts in simp_all)
  from shutdown_means_idle [OF this r_into_rtranclp [of world_step, OF more]] show ?thesis using facts by simp
qed

definition run_crossing :: "ClientOptions \<Rightarrow> bytes \<Rightarrow> OwnerWorld" where
  "run_crossing opts peer = make_session peer False 1 (make_session peer True 0
     (add_conn fresh_conn (add_conn fresh_conn (ow_init opts 2))))"


end
