(* ===== verification/Spec2Isabelle.thy ===== *)
theory Spec2Isabelle
  imports ReadPump ConnState Handshake AdmissionGuarantees OwnerProperties
begin

text \<open>
  A verification library for the core of \<^verbatim>\<open>bbtools-infra\<close>, a C++ library of coroutine networking components. It covers
  the data path of a TCP connection (\<^verbatim>\<open>bbt/infra/net\<close>) and the session layer of the RPC component on top of it
  (\<^verbatim>\<open>bbt/infra/rpc\<close>, wire profile 2).

  \<^bold>\<open>The program.\<close> A connection has one owner thread, the reactor. It reads from the socket into a
  bounded receive ring, from which readers on other threads take bytes, and it sends the bytes of accepted writes
  from a bounded outbound queue and settles each write exactly once. A session runs over such a connection: two peers
  exchange hello frames, then each side has a reader that cuts the byte stream into frames and dispatches them, a writer
  that takes frames from three lanes (system, service, actor), callers that wait for the response to their request, and
  \<^verbatim>\<open>Kill\<close>, which ends all of it. On the server side the readers of all links admit requests into one bounded queue,
  a worker gives them to a handler, and the handler's owner completes replies and releases leases at any time.

  \<^bold>\<open>How the code is modelled.\<close> A class is a \<open>record\<close> of its fields, an enum a \<open>datatype\<close>, an error a
  value (\<open>error_code\<close> in the network layer, \<open>Inl\<close> of an \<open>Error\<close> in the RPC layer), an exception a result \<open>None\<close>. Counters
  that can wrap keep their width of 32 or 64 bits; sizes of buffers are natural numbers, with the truncated subtraction and
  the comparisons of the code written out. Operations are executable functions. Where threads interleave, each critical
  section of a mutex is one step of an inductive relation, and program counters in the state name the points between them.
  Ghost fields record histories that the statements speak about (bytes received, frames accepted, causes of an outcome)
  and no guard reads them. Allocation failure, failing system calls, clocks and timers are arguments of the operations or
  choices of the steps. Code of other projects is a parameter: \<^verbatim>\<open>boost::circular_buffer\<close> (locale \<open>circular_buffer\<close>),
  protobuf's serialiser and parser (\<open>protobuf_ok\<close>).

  \<^bold>\<open>The theories.\<close>
  \<^item> \<open>Prelude\<close>: error codes (\<^verbatim>\<open>net/Error.hpp\<close>), machine sizes, lemmas on lists, maps and words, the collections of
    rules the proofs share.
  \<^item> \<open>Circular\<close>, \<open>Fifo\<close>: two interfaces as locales. The first is the storage of the rings, with an array implementation as
    instance. The second is the contract of a bounded byte queue, whose accepted and consumed streams are shown to agree.
  \<^item> \<open>EventRing\<close> (\<^verbatim>\<open>net/detail/EventRingBuffer.hpp\<close>), \<open>Outbound\<close> (\<^verbatim>\<open>net/detail/OutboundQueue.hpp\<close>): both refine that
    contract; appends are all or nothing and bounded, growth terminates inside the limits.
  \<^item> \<open>ReceiveRing\<close> (\<^verbatim>\<open>net/detail/ReceiveRing.hpp\<close>, \<^verbatim>\<open>net/ReadAccess.cc\<close>): the ring with its deferred and detached tails.
    Every operation keeps the well-formedness predicate \<open>rr_wf\<close>; reads return prefixes of one logical stream.
  \<^item> \<open>ReadPump\<close> (\<^verbatim>\<open>ConnCore\<close> in \<^verbatim>\<open>net/Engine.cc\<close>): the owner's read loop against concurrent readers. What the readers got,
    followed by what is still stored, is what the kernel delivered, in every interleaving, also across close.
  \<^item> \<open>ConnState\<close> (\<^verbatim>\<open>net/detail/ConnectionState.hpp\<close>): accepted writes, the pump, failure and close. Each accepted write completes
    once, and the wire carries the reported prefixes in order. The sender's rounds are bounded by its budget.
  \<^item> \<open>RpcResult\<close> (\<^verbatim>\<open>Result.hpp\<close>): errors, strict UTF-8 and error details, against reference definitions.
  \<^item> \<open>SessionCodec\<close>, \<open>FrameDecoder\<close> (\<^verbatim>\<open>rpc/Codec.cc\<close>): the frame matrix against a table, round trips through protobuf, and the
    incremental decoder: any cutting of the stream into reads gives the same frames.
  \<^item> \<open>NetErrors\<close> (\<^verbatim>\<open>impl/NetErrorImpl.hpp\<close>, \<^verbatim>\<open>rpc/detail/Tcp.cc\<close>, the error helpers of \<^verbatim>\<open>rpc/Session.cc\<close>): what a failure says about
    the request that caused it.
  \<^item> \<open>Handshake\<close> (\<^verbatim>\<open>rpc/Session.cc\<close>): two peers that run the two sides agree on their identities and the epoch, and no byte
    behind a handshake frame is lost.
  \<^item> \<open>Lanes\<close> (\<^verbatim>\<open>rpc/Options.cc\<close>, \<^verbatim>\<open>rpc/Stats.hpp\<close>, \<^verbatim>\<open>Enqueue\<close> and \<^verbatim>\<open>Dequeue\<close>): bounded queues with exact counters and a
    bound on how long a data lane waits for the other (locale \<open>fair_lane\<close>, interpreted on both).
  \<^item> \<open>Pending\<close>, \<open>SessionLink\<close>, \<open>LinkInvariant\<close>, \<open>LinkSteps\<close>, \<open>LinkGuarantees\<close> (\<^verbatim>\<open>SessionCore\<close>, \<^verbatim>\<open>Call\<close>, \<^verbatim>\<open>Send\<close>, \<^verbatim>\<open>WriterLoop\<close>,
    \<^verbatim>\<open>DispatchInbound\<close>, \<^verbatim>\<open>Kill\<close>): one link under every interleaving. Accounting is exact, outcomes are published once, nobody
    waits after a kill, a call reported as not sent was not written, and a successful call was answered by its response.
  \<^item> \<open>Admission\<close>, \<open>AdmissionGuarantees\<close> (\<^verbatim>\<open>rpc/Admission.hpp\<close>, \<^verbatim>\<open>AdmitInbound\<close>, \<^verbatim>\<open>AdmissionQueue\<close>, \<^verbatim>\<open>ReplyCompletion\<close>): the server
    side, composed with any number of links. In-flight counters count the held leases, a reply ends once, and a drained
    server has nothing left to settle.
  \<^item> \<open>SessionOwner\<close>, \<open>OwnerInvariant\<close>, \<open>OwnerSteps\<close>, \<open>OwnerGuarantees\<close>, \<open>OwnerProperties\<close> (\<^verbatim>\<open>InstallSession\<close>, \<^verbatim>\<open>GetSession\<close>,
    \<^verbatim>\<open>EstablishOutbound\<close>, \<^verbatim>\<open>ServeInbound\<close>, \<^verbatim>\<open>AcceptLoop\<close> and the close and shutdown of the owner in \<^verbatim>\<open>rpc/Session.cc\<close>): the table of
    sessions that a client or server owns, its quotas, the election between links that two peers open to each other at
    once, and the end of all of it. The locale \<open>owner_invariant\<close> says what a predicate has to satisfy to hold in every
    reachable world; it is interpreted on the dead links, the gauges, the connections, the duties of running operations
    and the options.

  \<^bold>\<open>Bounds and fuel.\<close> Loops are structural or have a measure, except two. \<open>GrowTarget\<close> is a \<open>while\<close> that is shown to end
  inside the limit for every request the limit admits. \<open>drain_terminal\<close>, the owner's loop over queued completions, takes fuel; as much
  fuel as completions are queued is shown to be enough. An operation that is waiting for input it was not given returns
  \<open>None\<close> (\<open>Handshake\<close>). Where an exact count needs a counter not to have wrapped, the statement says so (fewer than
  \<open>2 ^ 64\<close> live frames, fewer than \<open>2 ^ 64\<close> operations at a time).

  \<^bold>\<open>Not modelled.\<close>
  \<^item> In \<^verbatim>\<open>net\<close>: the reactor, listeners, dialling, UDP and the coroutine adapters of \<^verbatim>\<open>Engine.cc\<close>, which are system calls,
    timers and scheduling by the \<^verbatim>\<open>bbt\<close> coroutine runtime (not in the repository).
  \<^item> In \<^verbatim>\<open>rpc/Session.cc\<close>: timers and wake-ups of waiting coroutines (a waiter is the flag it is woken for), the start of
    a server (\<^verbatim>\<open>ServerV2Start\<close>), the waiting inside \<^verbatim>\<open>ServerV2Drain\<close> and \<^verbatim>\<open>ServerV2Shutdown\<close> (their effects are steps),
    the snapshots of statistics, and exceptions thrown by a decoder callback; the first RPC profile
    (\<^verbatim>\<open>RpcWire\<close>, \<^verbatim>\<open>TcpTransport\<close>, \<^verbatim>\<open>HttpTransport\<close>, the v1 client and server).
  \<^item> The components \<^verbatim>\<open>config\<close>, \<^verbatim>\<open>consul\<close>, \<^verbatim>\<open>http\<close>, \<^verbatim>\<open>mcp\<close>, \<^verbatim>\<open>mongo\<close> and \<^verbatim>\<open>redis\<close>, which do not take part in the session
    layer and mostly drive libraries outside the repository (Boost.Beast, Boost.JSON, jsoncons, mongocxx, hiredis).
\<close>

end
